(* ===== verification/Pulse_Prelude.thy ===== *)
theory Pulse_Prelude
  imports Main "HOL-Library.Char_ord" "HOL-Library.Sublist" "HOL-Library.AList" "HOL-Library.Multiset"
begin

text \<open>
  The shared vocabulary of the development: Go strings and byte slices as lists of
  8-bit characters, \<open>time.Time\<close> and \<open>time.Duration\<close> as nanosecond counts with the
  operations the sources call, and the generic list and map lemmas the components use.

  A \<open>time.Time\<close> is the instant it denotes (nanoseconds since the Unix epoch); its
  location and monotonic reading play no part in the operations the sources use
  (\<open>Before\<close>, \<open>After\<close>, \<open>Add\<close>, \<open>Sub\<close>, \<open>IsZero\<close>, \<open>Unix\<close>). A \<open>time.Duration\<close> is
  a signed 64-bit count of nanoseconds; \<open>Sub\<close> saturates at its ends, as the
  standard library does, and the sums the sources form stay far inside the range.
\<close>

named_theorems time_defs "definitions of the time operations"

section \<open>Types\<close>

type_synonym bytes = string
type_synonym instant = int
type_synonym duration = int

section \<open>Durations and instants\<close>

definition Microsecond :: duration where [time_defs]: "Microsecond = 1000"
definition Millisecond :: duration where [time_defs]: "Millisecond = 1000000"
definition Second :: duration where [time_defs]: "Second = 1000000000"
definition Minute :: duration where [time_defs]: "Minute = 60 * 1000000000"
definition Hour :: duration where [time_defs]: "Hour = 3600 * 1000000000"

text \<open>The zero \<open>time.Time\<close> is 1 January of year 1, UTC.\<close>

definition time_zero :: instant where
  [time_defs]: "time_zero = - (62135596800 * 1000000000)"

definition IsZero :: "instant \<Rightarrow> bool" where
  [time_defs]: "IsZero t \<longleftrightarrow> t = time_zero"

definition maxDuration :: duration where [time_defs]: "maxDuration = 2 ^ 63 - 1"
definition minDuration :: duration where [time_defs]: "minDuration = - (2 ^ 63)"

definition time_Sub :: "instant \<Rightarrow> instant \<Rightarrow> duration" where
  [time_defs]: "time_Sub t u = max minDuration (min maxDuration (t - u))"

definition time_Add :: "instant \<Rightarrow> duration \<Rightarrow> instant" where
  [time_defs]: "time_Add t d = t + d"

text \<open>\<open>Unix\<close> is the number of whole seconds since the epoch, rounded down.\<close>

definition time_Unix :: "instant \<Rightarrow> int" where
  [time_defs]: "time_Unix t = t div 1000000000"

text \<open>Go's integer division truncates towards zero.\<close>

definition go_div :: "int \<Rightarrow> int \<Rightarrow> int" where
  "go_div a b = sgn a * sgn b * (\<bar>a\<bar> div \<bar>b\<bar>)"

definition go_mod :: "int \<Rightarrow> int \<Rightarrow> int" where
  "go_mod a b = a - b * go_div a b"

section \<open>Faults of remote calls\<close>

text \<open>
  A call of a database either runs normally, does not reach the server, or runs with its
  reply lost, in which case the caller sees an error although the call took effect.
\<close>

datatype fault = Fine | NotRun | ReplyLost

section \<open>Generic lemmas\<close>

lemma time_Sub_small:
  "minDuration \<le> t - u \<Longrightarrow> t - u \<le> maxDuration \<Longrightarrow> time_Sub t u = t - u"
  by (simp add: time_Sub_def)

lemma time_Sub_ge_iff:
  assumes "minDuration < d" and "d \<le> maxDuration"
  shows "d \<le> time_Sub t u \<longleftrightarrow> d \<le> t - u"
  using assms by (auto simp: time_Sub_def)

lemma time_Sub_gt_iff:
  assumes "minDuration \<le> d" and "d < maxDuration"
  shows "d < time_Sub t u \<longleftrightarrow> d < t - u"
  using assms by (auto simp: time_Sub_def)

lemma go_div_nonneg: "0 \<le> a \<Longrightarrow> 0 < b \<Longrightarrow> go_div a b = a div b"
  by (cases "a = 0") (auto simp: go_div_def)

lemma go_mod_nonneg: "0 \<le> a \<Longrightarrow> 0 < b \<Longrightarrow> go_mod a b = a mod b"
  by (simp add: go_mod_def go_div_nonneg minus_mult_div_eq_mod)

lemma append_sep_inj:
  assumes "x \<notin> set a" and "x \<notin> set c" and "a @ x # b = c @ x # d"
  shows "a = c \<and> b = d"
  using assms
proof (induction a arbitrary: c)
  case Nil
  then show ?case by (cases c) auto
next
  case (Cons y ys)
  then show ?case by (cases c) auto
qed

section \<open>Go maps\<close>

text \<open>
  A Go map is an association list with distinct keys. The list order is not the order in
  which \<open>range\<close> visits the entries: code that ranges over a map takes a function \<open>perm\<close>
  that permutes the entries into the order of that loop, and \<open>map_order\<close> is all that the
  language promises about it.
\<close>

type_synonym 'v gomap = "(bytes \<times> 'v) list"

definition gomap_ok :: "'v gomap \<Rightarrow> bool" where
  "gomap_ok m \<longleftrightarrow> distinct (map fst m)"

definition map_order :: "('v gomap \<Rightarrow> 'v gomap) \<Rightarrow> bool" where
  "map_order perm \<longleftrightarrow> (\<forall>m. mset (perm m) = mset m)"

lemma map_order_set: "map_order perm \<Longrightarrow> set (perm m) = set m"
  unfolding map_order_def by (metis set_mset_mset)

lemma map_order_Nil: "map_order perm \<Longrightarrow> perm m = [] \<longleftrightarrow> m = []"
  using map_order_set [of perm m] by (cases m; cases "perm m") auto

lemma gomap_ok_Nil [simp]: "gomap_ok []"
  by (simp add: gomap_ok_def)

lemma gomap_ok_update [simp]: "gomap_ok m \<Longrightarrow> gomap_ok (AList.update k v m)"
  by (simp add: gomap_ok_def distinct_update)

lemma gomap_ok_delete [simp]: "gomap_ok m \<Longrightarrow> gomap_ok (AList.delete k m)"
  by (simp add: gomap_ok_def distinct_delete)

lemma gomap_ok_filter [simp]: "gomap_ok m \<Longrightarrow> gomap_ok (filter P m)"
  by (simp add: gomap_ok_def distinct_map_filter)

lemma gomap_in_set: "gomap_ok m \<Longrightarrow> (k, v) \<in> set m \<longleftrightarrow> map_of m k = Some v"
  by (auto simp: gomap_ok_def dest: map_of_SomeD)

lemma map_of_update: "map_of (AList.update k v m) = (map_of m)(k \<mapsto> v)"
  by (rule update_conv')

lemma map_of_delete: "map_of (AList.delete k m) = (map_of m)(k := None)"
  by (rule delete_conv')

lemma gomap_filter_Some:
  "gomap_ok m \<Longrightarrow> map_of (filter P m) k = Some v \<longleftrightarrow> map_of m k = Some v \<and> P (k, v)"
  by (simp flip: gomap_in_set)

lemma length_update_le: "length (AList.update k v m) \<le> Suc (length m)"
  by (induction m) auto

lemma length_delete_lt: "k \<in> fst ` set m \<Longrightarrow> length (AList.delete k m) < length m"
  unfolding AList.delete_eq by (auto intro: length_filter_less)

end
