(* ===== verification/Go_Text.thy ===== *)
theory Go_Text
  imports Pulse_Prelude
begin

text \<open>
  The parts of Go's \<open>strings\<close>, \<open>strconv\<close>, \<open>encoding/hex\<close> and \<open>encoding/base64\<close>
  packages that the sources call, over byte lists. White space is Unicode white space:
  \<open>space_encodings\<close> lists the UTF-8 encodings of the runes for which \<open>unicode.IsSpace\<close>
  holds. The first byte of each is no continuation byte, so matching an encoding at a byte
  position is the same as decoding the rune there, and a suffix that equals an encoding is
  what \<open>DecodeLastRune\<close> returns.
\<close>

named_theorems text_defs "definitions of the string operations"

section \<open>White space\<close>

definition space_encodings :: "bytes list" where
  "space_encodings =
     [[CHR 0x09], [CHR 0x0A], [CHR 0x0B], [CHR 0x0C], [CHR 0x0D], [CHR 0x20],
      [CHR 0xC2, CHR 0x85], [CHR 0xC2, CHR 0xA0], [CHR 0xE1, CHR 0x9A, CHR 0x80],
      [CHR 0xE2, CHR 0x80, CHR 0x80], [CHR 0xE2, CHR 0x80, CHR 0x81],
      [CHR 0xE2, CHR 0x80, CHR 0x82], [CHR 0xE2, CHR 0x80, CHR 0x83],
      [CHR 0xE2, CHR 0x80, CHR 0x84], [CHR 0xE2, CHR 0x80, CHR 0x85],
      [CHR 0xE2, CHR 0x80, CHR 0x86], [CHR 0xE2, CHR 0x80, CHR 0x87],
      [CHR 0xE2, CHR 0x80, CHR 0x88], [CHR 0xE2, CHR 0x80, CHR 0x89],
      [CHR 0xE2, CHR 0x80, CHR 0x8A], [CHR 0xE2, CHR 0x80, CHR 0xA8],
      [CHR 0xE2, CHR 0x80, CHR 0xA9], [CHR 0xE2, CHR 0x80, CHR 0xAF],
      [CHR 0xE2, CHR 0x81, CHR 0x9F], [CHR 0xE3, CHR 0x80, CHR 0x80]]"

fun strip_prefix :: "bytes \<Rightarrow> bytes \<Rightarrow> bytes option" where
  "strip_prefix [] s = Some s"
| "strip_prefix (p # ps) [] = None"
| "strip_prefix (p # ps) (c # cs) = (if p = c then strip_prefix ps cs else None)"

text \<open>The length of the encoding (of the list) that the string starts with, or 0.\<close>

definition space_at :: "bytes list \<Rightarrow> bytes \<Rightarrow> nat" where
  "space_at encs s =
     (case filter (\<lambda>e. strip_prefix e s \<noteq> None) encs of [] \<Rightarrow> 0 | e # _ \<Rightarrow> length e)"

text \<open>The counter \<open>k\<close> is the number of bytes of the current rune still to be dropped.\<close>

fun trim_from :: "bytes list \<Rightarrow> nat \<Rightarrow> bytes \<Rightarrow> bytes" where
  "trim_from encs k [] = []"
| "trim_from encs (Suc k) (c # cs) = trim_from encs k cs"
| "trim_from encs 0 (c # cs) =
     (case space_at encs (c # cs) of 0 \<Rightarrow> c # cs | Suc k \<Rightarrow> trim_from encs k cs)"

definition TrimSpace :: "bytes \<Rightarrow> bytes" where
  "TrimSpace s =
     rev (trim_from (map rev space_encodings) 0 (rev (trim_from space_encodings 0 s)))"

fun fields_from :: "nat \<Rightarrow> bytes \<Rightarrow> bytes \<Rightarrow> bytes list" where
  "fields_from k cur [] = (if cur = [] then [] else [cur])"
| "fields_from (Suc k) cur (c # cs) = fields_from k cur cs"
| "fields_from 0 cur (c # cs) =
     (case space_at space_encodings (c # cs) of
        0 \<Rightarrow> fields_from 0 (cur @ [c]) cs
      | Suc k \<Rightarrow> (if cur = [] then [] else [cur]) @ fields_from k [] cs)"

definition Fields :: "bytes \<Rightarrow> bytes list" where
  "Fields s = fields_from 0 [] s"

section \<open>Case, splitting, trimming\<close>

definition byte_lower :: "char \<Rightarrow> char" where
  "byte_lower c =
     (let n = of_char c :: nat in if 65 \<le> n \<and> n \<le> 90 then char_of (n + 32) else c)"

text \<open>
  \<open>strings.ToLower\<close> on ASCII text. \<open>EqualFold\<close> is exact when one side is ASCII and has
  none of the letters k and s (the only ASCII letters with a non-ASCII case variant);
  the sources call it with the literal \<open>bearer\<close> only.
\<close>

definition ToLower :: "bytes \<Rightarrow> bytes" where
  "ToLower s = map byte_lower s"

definition EqualFold :: "bytes \<Rightarrow> bytes \<Rightarrow> bool" where
  "EqualFold s t \<longleftrightarrow> ToLower s = ToLower t"

definition ContainsAny :: "bytes \<Rightarrow> bytes \<Rightarrow> bool" where
  "ContainsAny s chars \<longleftrightarrow> list_ex (\<lambda>c. c \<in> set chars) s"

definition HasPrefix :: "bytes \<Rightarrow> bytes \<Rightarrow> bool" where
  "HasPrefix s p \<longleftrightarrow> strip_prefix p s \<noteq> None"

definition TrimPrefix :: "bytes \<Rightarrow> bytes \<Rightarrow> bytes" where
  "TrimPrefix s p = (case strip_prefix p s of Some r \<Rightarrow> r | None \<Rightarrow> s)"

text \<open>\<open>strings.Split\<close> and \<open>strings.Trim\<close> with a one-byte separator and cut set.\<close>

fun split_from :: "char \<Rightarrow> bytes \<Rightarrow> bytes \<Rightarrow> bytes list" where
  "split_from sep cur [] = [cur]"
| "split_from sep cur (c # cs) =
     (if c = sep then cur # split_from sep [] cs else split_from sep (cur @ [c]) cs)"

definition Split :: "bytes \<Rightarrow> char \<Rightarrow> bytes list" where
  "Split s sep = split_from sep [] s"

definition Trim :: "bytes \<Rightarrow> char \<Rightarrow> bytes" where
  "Trim s c = rev (dropWhile (\<lambda>x. x = c) (rev (dropWhile (\<lambda>x. x = c) s)))"

section \<open>Numbers, hexadecimal and base64\<close>

fun dec_nat :: "nat \<Rightarrow> bytes" where
  "dec_nat n = (if n < 10 then [char_of (48 + n)] else dec_nat (n div 10) @ [char_of (48 + n mod 10)])"

declare dec_nat.simps [simp del]

definition FormatInt :: "int \<Rightarrow> bytes" where
  "FormatInt i = (if i < 0 then CHR ''-'' # dec_nat (nat (- i)) else dec_nat (nat i))"

definition hex_digit :: "nat \<Rightarrow> char" where
  "hex_digit n = (if n < 10 then char_of (48 + n) else char_of (87 + n))"

definition hex_value :: "char \<Rightarrow> nat option" where
  "hex_value c =
     (let n = of_char c :: nat in
      if 48 \<le> n \<and> n \<le> 57 then Some (n - 48)
      else if 97 \<le> n \<and> n \<le> 102 then Some (n - 87)
      else if 65 \<le> n \<and> n \<le> 70 then Some (n - 55)
      else None)"

definition hex_EncodeToString :: "bytes \<Rightarrow> bytes" where
  "hex_EncodeToString b =
     concat (map (\<lambda>c. [hex_digit (of_char c div 16), hex_digit (of_char c mod 16)]) b)"

fun hex_DecodeString :: "bytes \<Rightarrow> bytes option" where
  "hex_DecodeString [] = Some []"
| "hex_DecodeString [c] = None"
| "hex_DecodeString (c # d # cs) =
     (case (hex_value c, hex_value d, hex_DecodeString cs) of
        (Some h, Some l, Some r) \<Rightarrow> Some (char_of (16 * h + l) # r)
      | _ \<Rightarrow> None)"

definition base64url_alphabet :: bytes where
  "base64url_alphabet =
     ''ABCDEFGHIJKLMNOPQRSTUVWXYZabcdefghijklmnopqrstuvwxyz0123456789-_''"

definition b64 :: "nat \<Rightarrow> char" where
  "b64 n = base64url_alphabet ! (n mod 64)"

text \<open>\<open>base64.RawURLEncoding.EncodeToString\<close>: no padding.\<close>

fun RawURLEncode :: "bytes \<Rightarrow> bytes" where
  "RawURLEncode [] = []"
| "RawURLEncode [a] =
     (let n = of_char a * 16 :: nat in [b64 (n div 64), b64 n])"
| "RawURLEncode [a, b] =
     (let n = of_char a * 1024 + of_char b * 4 :: nat
      in [b64 (n div 4096), b64 (n div 64), b64 n])"
| "RawURLEncode (a # b # c # cs) =
     (let n = of_char a * 65536 + of_char b * 256 + of_char c :: nat
      in [b64 (n div 262144), b64 (n div 4096), b64 (n div 64), b64 n] @ RawURLEncode cs)"

lemmas [text_defs] = TrimSpace_def Fields_def ToLower_def EqualFold_def byte_lower_def
  ContainsAny_def HasPrefix_def TrimPrefix_def Split_def Trim_def space_at_def
  space_encodings_def

section \<open>Lemmas\<close>

lemma strip_prefix_Some: "strip_prefix p s = Some r \<longleftrightarrow> s = p @ r"
  by (induction p s rule: strip_prefix.induct) auto

lemma strip_prefix_append [simp]: "strip_prefix p (p @ s) = Some s"
  by (simp add: strip_prefix_Some)

lemma of_char_lt_256 [simp]: "(of_char c :: nat) < 256"
  by (rule nat_of_char_less_256)

lemma char_of_of_char_parts [simp]:
  "char_of (16 * (of_char c div 16) + of_char c mod 16 :: nat) = c"
  by (simp add: mult_div_mod_eq)

lemma hex_value_digit: "n < 16 \<Longrightarrow> hex_value (hex_digit n) = Some n"
  by (auto simp: hex_value_def hex_digit_def Let_def)

lemma hex_decode_encode: "hex_DecodeString (hex_EncodeToString b) = Some b"
proof (induction b)
  case Nil
  then show ?case by (simp add: hex_EncodeToString_def)
next
  case (Cons c b)
  have "(of_char c :: nat) div 16 < 16"
    using of_char_lt_256 [of c] by linarith
  then show ?case
    using Cons.IH by (simp add: hex_EncodeToString_def hex_value_digit)
qed

lemma length_hex_encode: "length (hex_EncodeToString b) = 2 * length b"
  by (induction b) (simp_all add: hex_EncodeToString_def)

lemma length_RawURLEncode:
  "length (RawURLEncode b) = (4 * length b + 2) div 3"
  by (induction b rule: RawURLEncode.induct) (auto simp: Let_def)

lemma trim_from_length: "length (trim_from encs k s) \<le> length s"
  by (induction encs k s rule: trim_from.induct) (auto split: nat.splits)

lemma TrimSpace_length: "length (TrimSpace s) \<le> length s"
  unfolding TrimSpace_def
  by (metis length_rev le_trans trim_from_length)

lemma TrimSpace_nonempty: "TrimSpace s \<noteq> [] \<Longrightarrow> s \<noteq> []"
  by (auto simp: TrimSpace_def)

lemma fields_from_nonempty: "x \<in> set (fields_from k cur s) \<Longrightarrow> x \<noteq> []"
  by (induction k cur s rule: fields_from.induct) (auto split: nat.splits if_splits)

lemma b64_ascii: "33 \<le> (of_char (b64 n) :: nat) \<and> (of_char (b64 n) :: nat) \<le> 126"
proof -
  have "list_all (\<lambda>c. 33 \<le> (of_char c :: nat) \<and> (of_char c :: nat) \<le> 126) base64url_alphabet"
    by (simp add: base64url_alphabet_def)
  moreover have "b64 n \<in> set base64url_alphabet"
    unfolding b64_def by (rule nth_mem) (simp add: base64url_alphabet_def)
  ultimately show ?thesis by (simp add: list_all_iff)
qed

lemma RawURLEncode_ascii:
  "c \<in> set (RawURLEncode b) \<Longrightarrow> 33 \<le> (of_char c :: nat) \<and> (of_char c :: nat) \<le> 126"
  by (induction b rule: RawURLEncode.induct) (auto simp: Let_def b64_ascii)

lemma space_at_no_head:
  "(\<And>e. e \<in> set encs \<Longrightarrow> e \<noteq> [] \<and> hd e \<noteq> c) \<Longrightarrow> space_at encs (c # cs) = 0"
  unfolding space_at_def
  by (subst filter_False) (force simp: strip_prefix_Some Cons_eq_append_conv)+

lemma space_at_ascii:
  assumes "33 \<le> (of_char c :: nat)" "(of_char c :: nat) \<le> 126"
  shows "space_at space_encodings (c # cs) = 0"
proof (rule space_at_no_head)
  fix e
  assume "e \<in> set space_encodings"
  moreover have "\<forall>e \<in> set space_encodings. e \<noteq> [] \<and> (of_char (hd e) :: nat) \<notin> {33..126}"
    by (simp add: space_encodings_def)
  ultimately show "e \<noteq> [] \<and> hd e \<noteq> c" using assms by force
qed

lemma fields_from_word:
  "(\<And>c. c \<in> set w \<Longrightarrow> 33 \<le> (of_char c :: nat) \<and> (of_char c :: nat) \<le> 126) \<Longrightarrow>
     fields_from 0 cur w = (if cur @ w = [] then [] else [cur @ w])"
  by (induction w arbitrary: cur) (auto simp: space_at_ascii)

end
