(* ===== verification/Go_Json.thy ===== *)
theory Go_Json
  imports Go_Text
begin

text \<open>
  The parts of \<open>encoding/json\<close> and \<open>time\<close> that decide what an event envelope is: the
  scanner behind \<open>json.Valid\<close> and \<open>json.Decoder\<close>, the unquoting of string literals, and
  the strict RFC 3339 parser behind \<open>time.Time.UnmarshalJSON\<close>. The scanner keeps the raw
  slices of array elements and object members, since the sources decode into
  \<open>json.RawMessage\<close>. It recurses on fuel; \<open>scan_fuel_enough\<close> shows that the fuel
  \<open>scan_fuel s\<close>, which is what every caller passes, gives the answer every larger amount
  gives, so no input is rejected for lack of it.
\<close>

section \<open>The scanner\<close>

definition quote :: char where "quote = CHR 0x22"
definition backslash :: char where "backslash = CHR 0x5C"

definition is_ws :: "char \<Rightarrow> bool" where
  "is_ws c \<longleftrightarrow> c \<in> {CHR 0x20, CHR 0x09, CHR 0x0D, CHR 0x0A}"

definition skip_ws :: "bytes \<Rightarrow> bytes" where
  "skip_ws s = dropWhile is_ws s"

definition is_digit :: "char \<Rightarrow> bool" where
  "is_digit c \<longleftrightarrow> (let n = of_char c :: nat in 48 \<le> n \<and> n \<le> 57)"

definition is_escape :: "char \<Rightarrow> bool" where
  "is_escape e \<longleftrightarrow>
     e \<in> {quote, backslash, CHR ''/'', CHR ''b'', CHR ''f'', CHR ''n'', CHR ''r'', CHR ''t''}"

text \<open>
  After the opening quote: the raw body and what follows the closing quote. Control
  characters and unknown escapes are syntax errors.
\<close>

fun scan_str :: "bytes \<Rightarrow> (bytes \<times> bytes) option" where
  "scan_str [] = None"
| "scan_str (c # cs) =
     (if c = quote then Some ([], cs)
      else if c = backslash then
        (case cs of
           [] \<Rightarrow> None
         | e # es \<Rightarrow>
             if is_escape e
             then map_option (\<lambda>(b, r). (c # e # b, r)) (scan_str es)
             else if e = CHR ''u'' then
               (case es of
                  h1 # h2 # h3 # h4 # hs \<Rightarrow>
                    if list_all (\<lambda>h. hex_value h \<noteq> None) [h1, h2, h3, h4]
                    then map_option (\<lambda>(b, r). (c # e # h1 # h2 # h3 # h4 # b, r)) (scan_str hs)
                    else None
                | _ \<Rightarrow> None)
             else None)
      else if (of_char c :: nat) < 32 then None
      else map_option (\<lambda>(b, r). (c # b, r)) (scan_str cs))"

definition scan_int :: "bytes \<Rightarrow> bytes option" where
  "scan_int s =
     (case s of
        [] \<Rightarrow> None
      | c # cs \<Rightarrow> if c = CHR ''0'' then Some cs
                  else if is_digit c then Some (dropWhile is_digit cs) else None)"

definition scan_digits1 :: "bytes \<Rightarrow> bytes option" where
  "scan_digits1 s =
     (case s of [] \<Rightarrow> None | c # cs \<Rightarrow> if is_digit c then Some (dropWhile is_digit cs) else None)"

definition scan_frac :: "bytes \<Rightarrow> bytes option" where
  "scan_frac s =
     (case s of
        [] \<Rightarrow> Some s
      | c # cs \<Rightarrow> if c = CHR ''.'' then scan_digits1 cs else Some s)"

definition scan_exp :: "bytes \<Rightarrow> bytes option" where
  "scan_exp s =
     (case s of
        [] \<Rightarrow> Some s
      | c # cs \<Rightarrow>
          if c = CHR ''e'' \<or> c = CHR ''E'' then
            (case cs of
               [] \<Rightarrow> None
             | d # ds \<Rightarrow> if d = CHR ''+'' \<or> d = CHR ''-'' then scan_digits1 ds else scan_digits1 cs)
          else Some s)"

definition scan_number :: "bytes \<Rightarrow> bytes option" where
  "scan_number s =
     (let s1 = (case s of [] \<Rightarrow> s | c # cs \<Rightarrow> if c = CHR ''-'' then cs else s) in
      case scan_int s1 of
        None \<Rightarrow> None
      | Some s2 \<Rightarrow> (case scan_frac s2 of None \<Rightarrow> None | Some s3 \<Rightarrow> scan_exp s3))"

definition maxNestingDepth :: int where "maxNestingDepth = 10000"

text \<open>The part of \<open>s\<close> before its suffix \<open>r\<close>.\<close>

definition slice :: "bytes \<Rightarrow> bytes \<Rightarrow> bytes" where
  "slice s r = take (length s - length r) s"

text \<open>
  \<open>scan_value\<close> returns what follows the value at the front of \<open>s\<close>; \<open>scan_elems\<close> and
  \<open>scan_members\<close> run from the first element or key of a non-empty array or object to
  behind its closing bracket, and return the raw elements, or the raw key bodies with the
  raw values. \<open>d\<close> is the number of containers open.
\<close>

fun scan_value :: "nat \<Rightarrow> int \<Rightarrow> bytes \<Rightarrow> bytes option"
and scan_elems :: "nat \<Rightarrow> int \<Rightarrow> bytes \<Rightarrow> (bytes list \<times> bytes) option"
and scan_members :: "nat \<Rightarrow> int \<Rightarrow> bytes \<Rightarrow> ((bytes \<times> bytes) list \<times> bytes) option"
where
  "scan_value 0 d s = None"
| "scan_value (Suc n) d s =
     (case s of
        [] \<Rightarrow> None
      | c # cs \<Rightarrow>
          if c = CHR ''['' then
            (if maxNestingDepth \<le> d then None
             else case skip_ws cs of
                    [] \<Rightarrow> None
                  | e # es \<Rightarrow> if e = CHR '']'' then Some es
                              else map_option snd (scan_elems n (d + 1) (e # es)))
          else if c = CHR ''{'' then
            (if maxNestingDepth \<le> d then None
             else case skip_ws cs of
                    [] \<Rightarrow> None
                  | e # es \<Rightarrow> if e = CHR ''}'' then Some es
                              else map_option snd (scan_members n (d + 1) (e # es)))
          else if c = quote then map_option snd (scan_str cs)
          else if c = CHR ''t'' then strip_prefix ''true'' s
          else if c = CHR ''f'' then strip_prefix ''false'' s
          else if c = CHR ''n'' then strip_prefix ''null'' s
          else scan_number s)"
| "scan_elems 0 d s = None"
| "scan_elems (Suc n) d s =
     (case scan_value n d s of
        None \<Rightarrow> None
      | Some r \<Rightarrow>
          (case skip_ws r of
             [] \<Rightarrow> None
           | c # cs \<Rightarrow>
               if c = CHR '','' then
                 map_option (\<lambda>(xs, r'). (slice s r # xs, r')) (scan_elems n d (skip_ws cs))
               else if c = CHR '']'' then Some ([slice s r], cs)
               else None))"
| "scan_members 0 d s = None"
| "scan_members (Suc n) d s =
     (case s of
        [] \<Rightarrow> None
      | q # qs \<Rightarrow>
          if q \<noteq> quote then None
          else case scan_str qs of
                 None \<Rightarrow> None
               | Some (key, r1) \<Rightarrow>
                   (case skip_ws r1 of
                      [] \<Rightarrow> None
                    | c1 # r2 \<Rightarrow>
                        if c1 \<noteq> CHR '':'' then None
                        else let v = skip_ws r2 in
                             case scan_value n d v of
                               None \<Rightarrow> None
                             | Some r3 \<Rightarrow>
                                 (case skip_ws r3 of
                                    [] \<Rightarrow> None
                                  | c # cs \<Rightarrow>
                                      if c = CHR '','' then
                                        map_option (\<lambda>(xs, r'). ((key, slice v r3) # xs, r'))
                                          (scan_members n d (skip_ws cs))
                                      else if c = CHR ''}'' then Some ([(key, slice v r3)], cs)
                                      else None)))"

definition scan_fuel :: "bytes \<Rightarrow> nat" where
  "scan_fuel s = Suc (Suc (2 * length s))"

definition json_Valid :: "bytes \<Rightarrow> bool" where
  "json_Valid s =
     (case scan_value (scan_fuel s) 0 (skip_ws s) of None \<Rightarrow> False | Some r \<Rightarrow> skip_ws r = [])"

text \<open>
  One call of \<open>Decoder.Decode\<close> on the unread input: nothing left, a syntax error, or the
  raw value and the input behind it.
\<close>

datatype decoded = AtEOF | SyntaxError | Value bytes bytes

definition decoder_next :: "bytes \<Rightarrow> decoded" where
  "decoder_next s =
     (let v = skip_ws s in
      if v = [] then AtEOF
      else case scan_value (scan_fuel v) 0 v of
             None \<Rightarrow> SyntaxError
           | Some r \<Rightarrow> Value (slice v r) r)"

text \<open>The elements of a raw array value and the members of a raw object value.\<close>

definition raw_array :: "bytes \<Rightarrow> bytes list option" where
  "raw_array v =
     (case v of
        [] \<Rightarrow> None
      | c # cs \<Rightarrow>
          if c \<noteq> CHR ''['' then None
          else case skip_ws cs of
                 [] \<Rightarrow> None
               | e # es \<Rightarrow> if e = CHR '']'' then Some []
                           else map_option fst (scan_elems (scan_fuel (e # es)) 1 (e # es)))"

definition raw_object :: "bytes \<Rightarrow> (bytes \<times> bytes) list option" where
  "raw_object v =
     (case v of
        [] \<Rightarrow> None
      | c # cs \<Rightarrow>
          if c \<noteq> CHR ''{'' then None
          else case skip_ws cs of
                 [] \<Rightarrow> None
               | e # es \<Rightarrow> if e = CHR ''}'' then Some []
                           else map_option fst (scan_members (scan_fuel (e # es)) 1 (e # es)))"

section \<open>String literals\<close>

definition byte_in :: "nat \<Rightarrow> nat \<Rightarrow> char \<Rightarrow> bool" where
  "byte_in lo hi c \<longleftrightarrow> (let n = of_char c in lo \<le> n \<and> n \<le> hi)"

text \<open>The length of the well-formed UTF-8 sequence at the front, or 0.\<close>

definition utf8_len :: "bytes \<Rightarrow> nat" where
  "utf8_len s =
     (let cont = byte_in 128 191 in
      case s of
        [] \<Rightarrow> 0
      | a # s1 \<Rightarrow>
          if byte_in 0 127 a then 1
          else case s1 of
            [] \<Rightarrow> 0
          | b # s2 \<Rightarrow>
              if byte_in 194 223 a then (if cont b then 2 else 0)
              else case s2 of
                [] \<Rightarrow> 0
              | c # s3 \<Rightarrow>
                  if byte_in 224 239 a then
                    (if cont c \<and>
                        (if of_char a = (224 :: nat) then byte_in 160 191 b
                         else if of_char a = (237 :: nat) then byte_in 128 159 b
                         else cont b)
                     then 3 else 0)
                  else case s3 of
                    [] \<Rightarrow> 0
                  | e # _ \<Rightarrow>
                      if byte_in 240 244 a \<and> cont c \<and> cont e \<and>
                         (if of_char a = (240 :: nat) then byte_in 144 191 b
                          else if of_char a = (244 :: nat) then byte_in 128 143 b
                          else cont b)
                      then 4 else 0)"

definition encode_rune :: "nat \<Rightarrow> bytes" where
  "encode_rune r =
     (if r < 128 then [char_of r]
      else if r < 2048 then [char_of (192 + r div 64), char_of (128 + r mod 64)]
      else if r < 65536 then
        [char_of (224 + r div 4096), char_of (128 + r div 64 mod 64), char_of (128 + r mod 64)]
      else [char_of (240 + r div 262144), char_of (128 + r div 4096 mod 64),
            char_of (128 + r div 64 mod 64), char_of (128 + r mod 64)])"

definition replacement :: bytes where
  "replacement = [CHR 0xEF, CHR 0xBF, CHR 0xBD]"

definition hex4 :: "char \<Rightarrow> char \<Rightarrow> char \<Rightarrow> char \<Rightarrow> nat" where
  "hex4 a b c d =
     (let v = (\<lambda>x. case hex_value x of Some n \<Rightarrow> n | None \<Rightarrow> 0)
      in ((v a * 16 + v b) * 16 + v c) * 16 + v d)"

definition unescape :: "char \<Rightarrow> char" where
  "unescape e =
     (if e = CHR ''b'' then CHR 0x08 else if e = CHR ''f'' then CHR 0x0C
      else if e = CHR ''n'' then CHR 0x0A else if e = CHR ''r'' then CHR 0x0D
      else if e = CHR ''t'' then CHR 0x09 else e)"

text \<open>
  The value of a string literal, from its raw body: escapes are resolved, surrogate pairs
  joined, lone surrogates and ill-formed bytes replaced by U+FFFD. \<open>k\<close> counts the bytes
  of a well-formed sequence still to be copied.
\<close>

fun unquote_from :: "nat \<Rightarrow> bytes \<Rightarrow> bytes" where
  "unquote_from k [] = []"
| "unquote_from (Suc k) (c # cs) = c # unquote_from k cs"
| "unquote_from 0 (c # cs) =
     (if c = backslash then
        (case cs of
           [] \<Rightarrow> []
         | e # es \<Rightarrow>
             if e = CHR ''u'' then
               (case es of
                  h1 # h2 # h3 # h4 # rest \<Rightarrow>
                    let r = hex4 h1 h2 h3 h4 in
                    if 55296 \<le> r \<and> r < 57344 then
                      (case rest of
                         b # u # g1 # g2 # g3 # g4 # rest' \<Rightarrow>
                           let r' = hex4 g1 g2 g3 g4 in
                           if b = backslash \<and> u = CHR ''u'' \<and> r < 56320 \<and> 56320 \<le> r' \<and> r' < 57344
                           then encode_rune (65536 + (r - 55296) * 1024 + (r' - 56320)) @ unquote_from 0 rest'
                           else replacement @ unquote_from 0 rest
                       | _ \<Rightarrow> replacement @ unquote_from 0 rest)
                    else encode_rune r @ unquote_from 0 rest
                | _ \<Rightarrow> [])
             else unescape e # unquote_from 0 es)
      else case utf8_len (c # cs) of
             0 \<Rightarrow> replacement @ unquote_from 0 cs
           | Suc k \<Rightarrow> c # unquote_from k cs)"

definition unquote_body :: "bytes \<Rightarrow> bytes" where
  "unquote_body b = unquote_from 0 b"

text \<open>A raw value that is a string literal, as its raw body.\<close>

definition raw_string :: "bytes \<Rightarrow> bytes option" where
  "raw_string v =
     (case v of
        [] \<Rightarrow> None
      | c # cs \<Rightarrow> if c = quote then map_option fst (scan_str cs) else None)"

text \<open>
  Field names match exactly or under simple case folding; the field names of the sources
  are ASCII, and the only non-ASCII runes that fold to ASCII letters are U+017F (s) and
  U+212A (k).
\<close>

fun fold_name :: "bytes \<Rightarrow> bytes" where
  "fold_name (a # b # c # s) =
     (if [a, b] = [CHR 0xC5, CHR 0xBF] then CHR ''s'' # fold_name (c # s)
      else if [a, b, c] = [CHR 0xE2, CHR 0x84, CHR 0xAA] then CHR ''k'' # fold_name s
      else byte_lower a # fold_name (b # c # s))"
| "fold_name [a, b] =
     (if [a, b] = [CHR 0xC5, CHR 0xBF] then [CHR ''s''] else [byte_lower a, byte_lower b])"
| "fold_name [a] = [byte_lower a]"
| "fold_name [] = []"

section \<open>RFC 3339 timestamps\<close>

definition parse_digits :: "bytes \<Rightarrow> int option" where
  "parse_digits s =
     (if s \<noteq> [] \<and> list_all is_digit s
      then Some (foldl (\<lambda>n c. 10 * n + (of_char c - 48)) 0 s) else None)"

definition parse_uint :: "bytes \<Rightarrow> int \<Rightarrow> int \<Rightarrow> int option" where
  "parse_uint s lo hi =
     (case parse_digits s of Some n \<Rightarrow> if lo \<le> n \<and> n \<le> hi then Some n else None | None \<Rightarrow> None)"

text \<open>
  \<open>strconv.ParseInt(s, 10, width)\<close>: an optional sign and decimal digits, within the width.
\<close>

definition parse_int :: "nat \<Rightarrow> bytes \<Rightarrow> int option" where
  "parse_int width s =
     (let (neg, digits) = (case s of
            c # cs \<Rightarrow> if c = CHR ''-'' then (True, cs) else if c = CHR ''+'' then (False, cs) else (False, s)
          | [] \<Rightarrow> (False, [])) in
      if digits = [] then None
      else case parse_digits digits of
        None \<Rightarrow> None
      | Some n \<Rightarrow>
          let v = (if neg then - n else n) in
          if v < - (2 ^ (width - 1)) \<or> 2 ^ (width - 1) \<le> v then None else Some v)"

definition is_leap :: "int \<Rightarrow> bool" where
  "is_leap y \<longleftrightarrow> y mod 4 = 0 \<and> (y mod 100 \<noteq> 0 \<or> y mod 400 = 0)"

definition days_in :: "int \<Rightarrow> int \<Rightarrow> int" where
  "days_in m y =
     (if m = 2 then (if is_leap y then 29 else 28)
      else if m \<in> {4, 6, 9, 11} then 30 else 31)"

text \<open>Days from 1 January 1970 to a date of the proleptic Gregorian calendar.\<close>

definition days_before_month :: "int \<Rightarrow> int" where
  "days_before_month m = [0, 31, 59, 90, 120, 151, 181, 212, 243, 273, 304, 334] ! nat (m - 1)"

definition days_civil :: "int \<Rightarrow> int \<Rightarrow> int \<Rightarrow> int" where
  "days_civil y m d =
     (let p = y - 1 in
      365 * p + p div 4 - p div 100 + p div 400
      + days_before_month m + (if 2 < m \<and> is_leap y then 1 else 0) + (d - 1) - 719162)"

definition parse_nanos :: "bytes \<Rightarrow> int" where
  "parse_nanos ds =
     foldl (\<lambda>n c. 10 * n + (of_char c - 48)) 0 (take 9 (ds @ replicate 9 (CHR ''0'')))"

definition parse_zone :: "int \<Rightarrow> int \<Rightarrow> bytes \<Rightarrow> int option" where
  "parse_zone maxHour maxMinute z =
     (if z = ''Z'' then Some 0
      else case z of
             [sg, h1, h2, col, m1, m2] \<Rightarrow>
               (case (parse_uint [h1, h2] 0 maxHour, parse_uint [m1, m2] 0 maxMinute) of
                  (Some h, Some m) \<Rightarrow>
                    if col = CHR '':'' \<and> sg = CHR ''+'' then Some ((h * 60 + m) * 60)
                    else if col = CHR '':'' \<and> sg = CHR ''-'' then Some (- ((h * 60 + m) * 60))
                    else None
                | _ \<Rightarrow> None)
           | _ \<Rightarrow> None)"

text \<open>
  \<open>encoding/json\<close> parses strictly; \<open>time.Parse\<close> with the layout \<open>RFC3339\<close> also takes an hour
  of one digit, a comma before the fraction, and zone offsets up to 24:60.
\<close>

definition pad_hour :: "bytes \<Rightarrow> bytes" where
  "pad_hour s =
     (if 12 < length s \<and> s ! 12 = CHR '':'' then take 11 s @ CHR ''0'' # drop 11 s else s)"

definition parse_timestamp :: "bool \<Rightarrow> bytes \<Rightarrow> instant option" where
  "parse_timestamp lax raw =
     (let s = (if lax then pad_hour raw else raw) in
      if length s < 19 then None
      else
        let rest = drop 19 s;
            frac = (case rest of
                      c # d # ds \<Rightarrow> if (c = CHR ''.'' \<or> (lax \<and> c = CHR '','')) \<and> is_digit d
                                    then takeWhile is_digit (d # ds) else []
                    | _ \<Rightarrow> []);
            zone = (if frac = [] then rest else drop (Suc (length frac)) rest) in
        case (parse_uint (take 4 s) 0 9999, parse_uint (take 2 (drop 5 s)) 1 12,
              parse_uint (take 2 (drop 8 s)) 1 31) of
          (Some y, Some mo, Some d) \<Rightarrow>
            (case (parse_uint (take 2 (drop 11 s)) 0 23, parse_uint (take 2 (drop 14 s)) 0 59,
                   parse_uint (take 2 (drop 17 s)) 0 59,
                   parse_zone (if lax then 24 else 23) (if lax then 60 else 59) zone) of
               (Some h, Some mi, Some sec, Some off) \<Rightarrow>
                 if d \<le> days_in mo y \<and> s ! 4 = CHR ''-'' \<and> s ! 7 = CHR ''-'' \<and> s ! 10 = CHR ''T''
                    \<and> s ! 13 = CHR '':'' \<and> s ! 16 = CHR '':''
                 then Some ((days_civil y mo d * 86400 + h * 3600 + mi * 60 + sec - off) * 1000000000
                            + parse_nanos frac)
                 else None
             | _ \<Rightarrow> None)
        | _ \<Rightarrow> None)"

definition parseRFC3339 :: "bytes \<Rightarrow> instant option" where
  "parseRFC3339 s = parse_timestamp False s"

definition time_Parse :: "bytes \<Rightarrow> instant option" where
  "time_Parse s = parse_timestamp True s"

section \<open>Consumption and fuel\<close>

lemma skip_ws_length [simp]: "length (skip_ws s) \<le> length s"
  by (simp add: skip_ws_def length_dropWhile_le)

lemma skip_ws_Cons_length: "skip_ws s = c # cs \<Longrightarrow> length cs < length s"
  using skip_ws_length [of s] by simp

lemma scan_str_split: "scan_str s = Some (b, r) \<Longrightarrow> s = b @ quote # r"
proof (induction "length s" arbitrary: s b rule: less_induct)
  case less
  have IH: "es = b' @ quote # r" if "length es < length s" "scan_str es = Some (b', r)" for es b'
    using less.hyps that by blast
  from less.prems obtain c cs where s: "s = c # cs"
    by (cases s) auto
  consider "c = quote" | "c \<noteq> quote" "c \<noteq> backslash" | "c \<noteq> quote" "c = backslash"
    by blast
  then show ?case
  proof cases
    case 1
    then show ?thesis using less.prems s by simp
  next
    case 2
    then show ?thesis using less.prems s IH [of cs] by (auto split: if_splits)
  next
    case 3
    with less.prems s obtain e es where cs: "cs = e # es"
      by (cases cs) auto
    show ?thesis
    proof (cases "is_escape e")
      case True
      then show ?thesis using 3 less.prems s cs IH [of es] by auto
    next
      case False
      with 3 less.prems s cs obtain h1 h2 h3 h4 hs where "es = h1 # h2 # h3 # h4 # hs"
        by (auto split: if_splits list.splits)
      then show ?thesis using False 3 less.prems s cs IH [of hs] by (auto split: if_splits)
    qed
  qed
qed

lemma scan_digits1_length: "scan_digits1 s = Some r \<Longrightarrow> length r < length s"
  by (auto simp: scan_digits1_def le_imp_less_Suc length_dropWhile_le split: list.splits if_splits)

lemma scan_number_length: "scan_number s = Some r \<Longrightarrow> length r < length s"
proof -
  assume a: "scan_number s = Some r"
  define s1 where "s1 = (case s of [] \<Rightarrow> s | c # cs \<Rightarrow> if c = CHR ''-'' then cs else s)"
  from a obtain s2 s3 where h: "scan_int s1 = Some s2" "scan_frac s2 = Some s3" "scan_exp s3 = Some r"
    by (auto simp: scan_number_def s1_def Let_def split: option.splits)
  have "length s1 \<le> length s" by (simp add: s1_def split: list.splits)
  moreover have "length s2 < length s1"
    using h(1) by (auto simp: scan_int_def le_imp_less_Suc length_dropWhile_le split: list.splits if_splits)
  moreover have "length s3 \<le> length s2"
    using h(2) by (auto simp: scan_frac_def split: list.splits if_splits dest!: scan_digits1_length)
  moreover have "length r \<le> length s3"
    using h(3) by (auto simp: scan_exp_def split: list.splits if_splits dest!: scan_digits1_length)
  ultimately show ?thesis by simp
qed

lemma strip_prefix_length: "strip_prefix p s = Some r \<Longrightarrow> p \<noteq> [] \<Longrightarrow> length r < length s"
  by (simp add: strip_prefix_Some)

lemma lt_skip_ws: "n < length (skip_ws s) \<Longrightarrow> n < length s"
  by (rule less_le_trans [OF _ skip_ws_length])

lemma scan_length_aux:
  "(\<forall>d s r. scan_value n d s = Some r \<longrightarrow> length r < length s) \<and>
   (\<forall>d s xs r. scan_elems n d s = Some (xs, r) \<longrightarrow> length r < length s) \<and>
   (\<forall>d s ms r. scan_members n d s = Some (ms, r) \<longrightarrow> length r < length s)"
proof (induction n)
  case 0
  then show ?case by simp
next
  case (Suc n)
  then have v: "\<And>d s r. scan_value n d s = Some r \<Longrightarrow> length r < length s"
    and e: "\<And>d s xs r. scan_elems n d s = Some (xs, r) \<Longrightarrow> length r < length s"
    and m: "\<And>d s ms r. scan_members n d s = Some (ms, r) \<Longrightarrow> length r < length s"
    by blast+
  have "length r < length s" if "scan_value (Suc n) d s = Some r" for d s r
    using that
    by (auto split: list.splits if_splits
        dest!: e m skip_ws_Cons_length scan_str_split strip_prefix_length scan_number_length)
  moreover have "length r < length s" if "scan_elems (Suc n) d s = Some (xs, r)" for d s xs r
    using that
    by (auto split: list.splits if_splits option.splits dest!: v e skip_ws_Cons_length lt_skip_ws)
  moreover have "length r < length s" if "scan_members (Suc n) d s = Some (ms, r)" for d s ms r
    using that
    by (auto simp: Let_def split: list.splits if_splits option.splits
        dest!: v m skip_ws_Cons_length scan_str_split lt_skip_ws)
  ultimately show ?case by blast
qed

lemmas scan_value_length = scan_length_aux [THEN conjunct1, rule_format]

lemma scan_fuel_aux:
  "(\<forall>m d s. 2 * length s < n \<longrightarrow> 2 * length s < m \<longrightarrow> scan_value n d s = scan_value m d s) \<and>
   (\<forall>m d s. 2 * length s + 1 < n \<longrightarrow> 2 * length s + 1 < m \<longrightarrow> scan_elems n d s = scan_elems m d s) \<and>
   (\<forall>m d s. 2 * length s + 1 < n \<longrightarrow> 2 * length s + 1 < m \<longrightarrow> scan_members n d s = scan_members m d s)"
proof (induction n)
  case 0
  then show ?case by simp
next
  case (Suc n)
  then have v: "\<And>m d s. 2 * length s < n \<Longrightarrow> 2 * length s < m \<Longrightarrow> scan_value n d s = scan_value m d s"
    and e: "\<And>m d s. 2 * length s + 1 < n \<Longrightarrow> 2 * length s + 1 < m \<Longrightarrow> scan_elems n d s = scan_elems m d s"
    and b: "\<And>m d s. 2 * length s + 1 < n \<Longrightarrow> 2 * length s + 1 < m \<Longrightarrow> scan_members n d s = scan_members m d s"
    by blast+
  have "scan_value (Suc n) d s = scan_value m d s"
    if "2 * length s < Suc n" "2 * length s < m" for m d s
  proof (cases m)
    case (Suc k)
    have "scan_elems n (d + 1) es = scan_elems k (d + 1) es \<and>
          scan_members n (d + 1) es = scan_members k (d + 1) es" if "length es < length s" for es
      using that \<open>2 * length s < Suc n\<close> \<open>2 * length s < m\<close> Suc by (intro conjI e b) auto
    then show ?thesis
      using Suc by (auto split: list.splits dest!: skip_ws_Cons_length)
  qed (use that in simp)
  moreover have "scan_elems (Suc n) d s = scan_elems m d s"
    if "2 * length s + 1 < Suc n" "2 * length s + 1 < m" for m d s
  proof (cases m)
    case (Suc k)
    have "scan_elems n d es = scan_elems k d es" if "length es < length s" for es
      using that \<open>2 * length s + 1 < Suc n\<close> \<open>2 * length s + 1 < m\<close> Suc by (intro e) auto
    moreover have "scan_value n d s = scan_value k d s"
      using that Suc by (intro v) auto
    moreover have "length (skip_ws cs) < length s" if "scan_value k d s = Some r" "skip_ws r = c # cs" for r c cs
      using scan_value_length [OF that(1)] skip_ws_Cons_length [OF that(2)] skip_ws_length [of cs] by linarith
    ultimately show ?thesis
      using Suc by (auto split: list.splits option.splits)
  qed (use that in simp)
  moreover have "scan_members (Suc n) d s = scan_members m d s"
    if "2 * length s + 1 < Suc n" "2 * length s + 1 < m" for m d s
  proof (cases m)
    case (Suc k)
    have l: "scan_members n d es = scan_members k d es \<and> scan_value n d es = scan_value k d es"
      if "length es < length s" for es
      using that \<open>2 * length s + 1 < Suc n\<close> \<open>2 * length s + 1 < m\<close> Suc by (intro conjI v b) auto
    have k: "length (skip_ws r2) < length s"
      if "s = q # qs" "scan_str qs = Some (key, r1)" "skip_ws r1 = c1 # r2" for q qs key r1 c1 r2
    proof -
      from that have "length r1 < length s" by (auto dest!: scan_str_split)
      then show ?thesis
        using skip_ws_Cons_length [OF that(3)] skip_ws_length [of r2] by linarith
    qed
    have "length (skip_ws cs) < length v" if "scan_value k d v = Some r" "skip_ws r = c # cs" for v r c cs
      using scan_value_length [OF that(1)] skip_ws_Cons_length [OF that(2)] skip_ws_length [of cs] by linarith
    then have "length (skip_ws cs) < length s"
      if "s = q # qs" "scan_str qs = Some (key, r1)" "skip_ws r1 = c1 # r2"
        "scan_value k d (skip_ws r2) = Some r" "skip_ws r = c # cs" for q qs key r1 c1 r2 r c cs
      using that k less_trans by blast
    with k l show ?thesis
      using Suc by (auto simp: Let_def split: list.splits option.splits)
  qed (use that in simp)
  ultimately show ?case by blast
qed

lemma scan_fuel_enough:
  "scan_fuel s \<le> n \<Longrightarrow> length v \<le> length s \<Longrightarrow> scan_value n d v = scan_value (scan_fuel s) d v"
  by (rule scan_fuel_aux [THEN conjunct1, rule_format]) (auto simp: scan_fuel_def)

end
