(* ===== verification/Events.thy ===== *)
theory Events
  imports Go_Json
begin

text \<open>
  \<open>internal/events/event.go\<close>: the event record, \<open>Event.Validate\<close> and the strict envelope
  decoder \<open>Decode\<close>, with the lenient \<open>json.Unmarshal\<close> of a whole event that the Kafka
  consumers use. Lengths are byte lengths, as \<open>len\<close> of a Go string is. The clock
  \<open>time.Now()\<close> is the argument \<open>now\<close>. The texts of \<open>encoding/json\<close>'s own errors are not
  modelled: \<open>ErrInvalidJSON\<close> is \<open>ErrInvalidEvent\<close> wrapping one of them.
\<close>

named_theorems event_defs "definitions of the event operations"

section \<open>Data\<close>

record event =
  TenantID :: bytes
  EventID :: bytes
  Type :: bytes
  Timestamp :: instant
  Payload :: bytes

datatype event_error = ErrMissingField bytes | ErrInvalidEvent bytes | ErrInvalidJSON

definition zero_event :: event where
  "zero_event = \<lparr>TenantID = [], EventID = [], Type = [], Timestamp = time_zero, Payload = []\<rparr>"

section \<open>Operations\<close>

definition Validate :: "instant \<Rightarrow> int \<Rightarrow> event \<Rightarrow> event_error option" where
  "Validate now maxPayloadBytes e =
     (if TrimSpace (TenantID e) = [] then Some (ErrMissingField ''tenantId'')
      else if length (EventID e) < 1 \<or> 200 < length (EventID e) then Some (ErrInvalidEvent ''eventId'')
      else if length (Type e) < 1 \<or> 200 < length (Type e)
              \<or> ContainsAny (Type e) [CHR 0x20, CHR 0x09, CHR 0x0D, CHR 0x0A]
        then Some (ErrInvalidEvent ''type'')
      else if IsZero (Timestamp e) then Some (ErrMissingField ''timestamp'')
      else if time_Add now (5 * Minute) < Timestamp e
        then Some (ErrInvalidEvent ''timestamp is too far in the future'')
      else if length (Payload e) = 0 \<or> Payload e = ''null'' \<or> \<not> json_Valid (Payload e)
        then Some (ErrInvalidEvent ''payload must be valid JSON'')
      else if 0 < maxPayloadBytes \<and> maxPayloadBytes < int (length (Payload e))
        then Some (ErrInvalidEvent ''payload exceeds limit'')
      else None)"

text \<open>
  Decoding one member of the JSON object into a field. A string or time field accepts
  its own kind of literal and leaves the field alone on \<open>null\<close>; \<open>json.RawMessage\<close>
  takes the raw value. \<open>envelope\<close> selects the anonymous struct of \<open>Decode\<close> (no
  \<open>tenantId\<close>, unknown names refused) instead of \<open>Event\<close> itself.
\<close>

definition string_field :: "bytes \<Rightarrow> bytes \<Rightarrow> bytes option" where
  "string_field old v =
     (if v = ''null'' then Some old else map_option unquote_body (raw_string v))"

definition time_field :: "instant \<Rightarrow> bytes \<Rightarrow> instant option" where
  "time_field old v =
     (if v = ''null'' then Some old
      else case raw_string v of None \<Rightarrow> None | Some b \<Rightarrow> parseRFC3339 b)"

definition decode_member :: "bool \<Rightarrow> event \<Rightarrow> bytes \<times> bytes \<Rightarrow> event option" where
  "decode_member envelope e m =
     (let name = fold_name (unquote_body (fst m)); v = snd m in
      if name = ''eventid'' then map_option (\<lambda>x. e\<lparr>EventID := x\<rparr>) (string_field (EventID e) v)
      else if name = ''type'' then map_option (\<lambda>x. e\<lparr>Type := x\<rparr>) (string_field (Type e) v)
      else if name = ''timestamp'' then map_option (\<lambda>x. e\<lparr>Timestamp := x\<rparr>) (time_field (Timestamp e) v)
      else if name = ''payload'' then Some (e\<lparr>Payload := v\<rparr>)
      else if envelope then None
      else if name = ''tenantid'' then map_option (\<lambda>x. e\<lparr>TenantID := x\<rparr>) (string_field (TenantID e) v)
      else Some e)"

fun decode_members :: "bool \<Rightarrow> event \<Rightarrow> (bytes \<times> bytes) list \<Rightarrow> event option" where
  "decode_members envelope e [] = Some e"
| "decode_members envelope e (m # ms) =
     (case decode_member envelope e m of None \<Rightarrow> None | Some e' \<Rightarrow> decode_members envelope e' ms)"

definition decode_struct :: "bool \<Rightarrow> bytes \<Rightarrow> event option" where
  "decode_struct envelope v =
     (if v = ''null'' then Some zero_event
      else case raw_object v of None \<Rightarrow> None | Some ms \<Rightarrow> decode_members envelope zero_event ms)"

definition Decode :: "instant \<Rightarrow> bytes \<Rightarrow> bytes \<Rightarrow> int \<Rightarrow> event \<times> event_error option" where
  "Decode now data tenantID maxPayloadBytes =
     (case decoder_next data of
        Value v rest \<Rightarrow>
          (case decode_struct True v of
             None \<Rightarrow> (zero_event, Some ErrInvalidJSON)
           | Some input \<Rightarrow>
               if decoder_next rest \<noteq> AtEOF
               then (zero_event, Some (ErrInvalidEvent ''multiple JSON values''))
               else let e = input\<lparr>TenantID := tenantID\<rparr> in (e, Validate now maxPayloadBytes e))
      | _ \<Rightarrow> (zero_event, Some ErrInvalidJSON))"

text \<open>\<open>json.Unmarshal(value, &event)\<close>: the input must be one valid JSON text.\<close>

definition Unmarshal_event :: "bytes \<Rightarrow> event option" where
  "Unmarshal_event value =
     (if json_Valid value
      then case decoder_next value of Value v _ \<Rightarrow> decode_struct False v | _ \<Rightarrow> None
      else None)"

lemmas [event_defs] = Validate_def string_field_def time_field_def decode_member_def
  decode_struct_def Decode_def Unmarshal_event_def

section \<open>Lemmas\<close>

text \<open>What \<open>Validate\<close> accepts, as one predicate.\<close>

definition valid_event :: "instant \<Rightarrow> int \<Rightarrow> event \<Rightarrow> bool" where
  "valid_event now maxPayloadBytes e \<longleftrightarrow>
     TrimSpace (TenantID e) \<noteq> [] \<and>
     length (EventID e) \<in> {1..200} \<and>
     length (Type e) \<in> {1..200} \<and> set (Type e) \<inter> {CHR 0x20, CHR 0x09, CHR 0x0D, CHR 0x0A} = {} \<and>
     Timestamp e \<noteq> time_zero \<and> Timestamp e \<le> now + 5 * Minute \<and>
     Payload e \<noteq> [] \<and> Payload e \<noteq> ''null'' \<and> json_Valid (Payload e) \<and>
     (maxPayloadBytes \<le> 0 \<or> int (length (Payload e)) \<le> maxPayloadBytes)"

lemma ContainsAny_iff: "ContainsAny s cs \<longleftrightarrow> set s \<inter> set cs \<noteq> {}"
  by (auto simp: ContainsAny_def list_ex_iff)

lemma Validate_None_iff: "Validate now mx e = None \<longleftrightarrow> valid_event now mx e"
  unfolding Validate_def valid_event_def ContainsAny_iff
  by (auto simp: IsZero_def time_Add_def Suc_le_eq)

lemma valid_event_later:
  "valid_event now mx e \<Longrightarrow> now \<le> now' \<Longrightarrow> valid_event now' 0 e"
  by (auto simp: valid_event_def)

lemma decode_member_tenant:
  "decode_member True e m = Some e' \<Longrightarrow> TenantID e' = TenantID e"
  by (auto simp: decode_member_def Let_def split: if_splits)

lemma Decode_None:
  "Decode now data tid mx = (e, None) \<Longrightarrow> valid_event now mx e \<and> TenantID e = tid"
  by (auto simp: Decode_def Let_def Validate_None_iff split: decoded.splits option.splits if_splits)

definition envelope_names :: "bytes set" where
  "envelope_names = {''eventid'', ''type'', ''timestamp'', ''payload''}"

lemma decode_members_known:
  "decode_members True e ms = Some e' \<Longrightarrow>
     \<forall>(k, v) \<in> set ms. fold_name (unquote_body k) \<in> envelope_names"
proof (induction ms arbitrary: e)
  case Nil
  then show ?case by simp
next
  case (Cons m ms)
  then obtain e1 where m: "decode_member True e m = Some e1" and ms: "decode_members True e1 ms = Some e'"
    by (auto split: option.splits)
  from m have "fold_name (unquote_body (fst m)) \<in> envelope_names"
    by (auto simp: decode_member_def envelope_names_def Let_def split: if_splits)
  with Cons.IH [OF ms] show ?case by (cases m) auto
qed

lemma decode_members_payload:
  "decode_members True e ms = Some e' \<Longrightarrow>
     Payload e' = Payload e \<or> (\<exists>k. (k, Payload e') \<in> set ms \<and> fold_name (unquote_body k) = ''payload'')"
proof (induction ms arbitrary: e)
  case Nil
  then show ?case by simp
next
  case (Cons m ms)
  then obtain e1 where m: "decode_member True e m = Some e1" and ms: "decode_members True e1 ms = Some e'"
    by (auto split: option.splits)
  from m have "Payload e1 = Payload e \<or> m = (fst m, Payload e1) \<and> fold_name (unquote_body (fst m)) = ''payload''"
    by (cases m) (auto simp: decode_member_def Let_def split: if_splits)
  with Cons.IH [OF ms] show ?case by (metis list.set_intros)
qed

lemma decode_struct_object:
  assumes "decode_struct True v = Some e" "Payload e \<noteq> []"
  obtains ms where "raw_object v = Some ms" "decode_members True zero_event ms = Some e"
  using assms by (auto simp: decode_struct_def zero_event_def split: if_splits option.splits)

lemma Decode_struct:
  assumes "Decode now data tid mx = (e, None)"
  obtains v rest input where "decoder_next data = Value v rest" "decode_struct True v = Some input"
    "decoder_next rest = AtEOF" "Payload input = Payload e"
  using assms by (auto simp: Decode_def Let_def split: decoded.splits option.splits if_splits)

section \<open>Properties\<close>

text \<open>
  C15: what the ingestion decoder accepts. The event belongs to the authenticated tenant and
  is valid; the request body is exactly one JSON object, whose members are all among the
  four envelope names (so a client that sends a \<open>tenantId\<close> is refused, in any spelling
  that \<open>encoding/json\<close> would match); and the payload is, byte for byte, the value the
  client wrote under \<open>payload\<close>.
\<close>

theorem decode_accepts_only_envelopes:
  assumes "Decode now data tid mx = (e, None)"
  shows "TenantID e = tid \<and> valid_event now mx e \<and>
    (\<exists>v rest ms. decoder_next data = Value v rest \<and> decoder_next rest = AtEOF \<and> raw_object v = Some ms \<and>
       (\<forall>(k, x) \<in> set ms. fold_name (unquote_body k) \<in> envelope_names) \<and>
       (\<exists>k. (k, Payload e) \<in> set ms \<and> fold_name (unquote_body k) = ''payload''))"
proof -
  from assms obtain v rest input where v: "decoder_next data = Value v rest" "decode_struct True v = Some input"
      "decoder_next rest = AtEOF" "Payload input = Payload e"
    by (rule Decode_struct)
  have ok: "valid_event now mx e" "TenantID e = tid" using Decode_None [OF assms] by auto
  then have p: "Payload input \<noteq> []" using v(4) by (simp add: valid_event_def)
  obtain ms where ms: "raw_object v = Some ms" "decode_members True zero_event ms = Some input"
    using decode_struct_object [OF v(2) p] .
  from decode_members_payload [OF ms(2)] p v(4)
  have "\<exists>k. (k, Payload e) \<in> set ms \<and> fold_name (unquote_body k) = ''payload''"
    by (simp add: zero_event_def)
  with ok v ms decode_members_known [OF ms(2)] show ?thesis by blast
qed

text \<open>A sample request: \<open>{"eventId":"e1","type":"t","timestamp":"2025-01-01T00:00:00Z","payload":{}}\<close>.\<close>

definition sample_body :: bytes where
  "sample_body =
     ''{'' @ quote # ''eventId'' @ quote # '':'' @ quote # ''e1'' @ quote # '','' @
     quote # ''type'' @ quote # '':'' @ quote # ''t'' @ quote # '','' @
     quote # ''timestamp'' @ quote # '':'' @ quote # ''2025-01-01T00:00:00Z'' @ quote # '','' @
     quote # ''payload'' @ quote # '':{}}''"

lemma sample_decodes:
  "Decode 1735689600000000000 sample_body ''acme'' 100 =
     (\<lparr>TenantID = ''acme'', EventID = ''e1'', Type = ''t'', Timestamp = 1735689600000000000, Payload = ''{}''\<rparr>, None)"
  by code_simp

theorem decode_accepts_only_envelopes_witness:
  "\<exists>e. Decode 1735689600000000000 sample_body ''acme'' 100 = (e, None) \<and> TenantID e = ''acme'' \<and>
     valid_event 1735689600000000000 100 e"
  using decode_accepts_only_envelopes [OF sample_decodes] sample_decodes by blast

text \<open>
  An event the API accepted is never dead-lettered as invalid: the consumers validate
  the same fields with no payload limit and at a later time, and accept it.
\<close>

theorem accepted_event_valid_downstream:
  assumes "Decode now data tid mx = (e, None)" "now \<le> later"
  shows "Validate later 0 e = None"
  using valid_event_later [OF conjunct1 [OF Decode_None [OF assms(1)]] assms(2)] by (simp add: Validate_None_iff)

theorem accepted_event_valid_downstream_witness:
  "\<exists>e. Decode 1735689600000000000 sample_body ''acme'' 100 = (e, None) \<and> Validate 1735689600000000009 0 e = None"
  using accepted_event_valid_downstream [OF sample_decodes, of 1735689600000000009] sample_decodes by force

end
