(* ===== verification/Go_Marshal.thy ===== *)
theory Go_Marshal
  imports Go_Json
begin

text \<open>
  The encoding of strings in \<open>encoding/json\<close>, with its HTML escaping: the decoder of
  \<open>Go_Json\<close> reads a well-formed string back, and every string it decodes is well formed.
\<close>

section \<open>Well-formed UTF-8\<close>

text \<open>\<open>k\<close> counts the bytes of the current sequence still to come.\<close>

fun utf8_from :: "nat \<Rightarrow> bytes \<Rightarrow> bool" where
  "utf8_from k [] = (k = 0)"
| "utf8_from (Suc k) (c # cs) = utf8_from k cs"
| "utf8_from 0 (c # cs) = (case utf8_len (c # cs) of 0 \<Rightarrow> False | Suc k \<Rightarrow> utf8_from k cs)"

definition utf8_Valid :: "bytes \<Rightarrow> bool" where
  "utf8_Valid s = utf8_from 0 s"

section \<open>String literals\<close>

definition u_escape :: "nat \<Rightarrow> bytes" where
  "u_escape n =
     [backslash, CHR ''u'', hex_digit (n div 4096 mod 16), hex_digit (n div 256 mod 16), hex_digit (n div 16 mod 16), hex_digit (n mod 16)]"

definition html_unsafe :: "char \<Rightarrow> bool" where
  "html_unsafe c \<longleftrightarrow> c \<in> {CHR ''<'', CHR ''>'', CHR ''&''}"

definition escape_byte :: "char \<Rightarrow> bytes" where
  "escape_byte c =
     (if c = quote \<or> c = backslash then [backslash, c]
      else if c = CHR 0x08 then [backslash, CHR ''b'']
      else if c = CHR 0x0C then [backslash, CHR ''f'']
      else if c = CHR 0x0A then [backslash, CHR ''n'']
      else if c = CHR 0x0D then [backslash, CHR ''r'']
      else if c = CHR 0x09 then [backslash, CHR ''t'']
      else if (of_char c :: nat) < 32 \<or> html_unsafe c then u_escape (of_char c)
      else [c])"

text \<open>The line separators U+2028 and U+2029 at the front.\<close>

fun line_sep :: "bytes \<Rightarrow> nat option" where
  "line_sep (a # b # c # _) =
     (if a = CHR 0xE2 \<and> b = CHR 0x80 \<and> c = CHR 0xA8 then Some 0x2028
      else if a = CHR 0xE2 \<and> b = CHR 0x80 \<and> c = CHR 0xA9 then Some 0x2029 else None)"
| "line_sep _ = None"

fun escape_from :: "nat \<Rightarrow> bytes \<Rightarrow> bytes" where
  "escape_from k [] = []"
| "escape_from (Suc k) (c # cs) = c # escape_from k cs"
| "escape_from 0 (c # cs) =
     (if byte_in 0 127 c then escape_byte c @ escape_from 0 cs
      else case utf8_len (c # cs) of
        0 \<Rightarrow> u_escape 0xFFFD @ escape_from 0 cs
      | Suc k \<Rightarrow>
          (case line_sep (c # cs) of
             Some r \<Rightarrow> u_escape r @ escape_from 0 (drop 2 cs)
           | None \<Rightarrow> c # escape_from k cs))"

definition quote_string :: "bytes \<Rightarrow> bytes" where
  "quote_string s = quote # escape_from 0 s @ [quote]"

section \<open>Lemmas on strings\<close>

lemma utf8_len_bound: "utf8_len (c # cs) = Suc k \<Longrightarrow> k \<le> length cs \<and> k \<le> 3"
  by (auto simp: utf8_len_def Let_def split: list.splits if_splits)

text \<open>Whether a sequence is well formed depends on its own bytes only.\<close>

lemma utf8_len_local:
  "utf8_len (a # r) = 1 \<longleftrightarrow> utf8_len (a # r') = 1"
  "utf8_len (a # b # r) = 2 \<longleftrightarrow> utf8_len (a # b # r') = 2"
  "utf8_len (a # b # c # r) = 3 \<longleftrightarrow> utf8_len (a # b # c # r') = 3"
  "utf8_len (a # b # c # d # r) = utf8_len (a # b # c # d # r')"
  by (cases "byte_in 0 127 a"; cases "byte_in 194 223 a"; cases "byte_in 224 239 a"; simp add: utf8_len_def Let_def split: list.split)+

lemma utf8_len_prefix:
  assumes "utf8_len (c # p @ rest) = Suc (length p)"
  shows "utf8_len (c # p @ rest') = Suc (length p)"
proof -
  have "length p \<le> 3" using utf8_len_bound [OF assms] by simp
  then consider "p = []" | b where "p = [b]" | b d where "p = [b, d]" | b d e where "p = [b, d, e]"
    by (auto simp: le_Suc_eq length_Suc_conv numeral_3_eq_3)
  then show ?thesis
  proof cases
    case 1
    then show ?thesis using assms utf8_len_local(1) [of c rest rest'] by simp
  next
    case 2
    then show ?thesis using assms utf8_len_local(2) [of c _ rest rest'] by (simp add: numeral_2_eq_2)
  next
    case 3
    then show ?thesis using assms utf8_len_local(3) [of c _ _ rest rest'] by (simp add: numeral_3_eq_3)
  next
    case 4
    then show ?thesis using assms utf8_len_local(4) [of c _ _ _ rest rest'] by simp
  qed
qed

lemma escape_from_take: "k \<le> length s \<Longrightarrow> escape_from k s = take k s @ escape_from 0 (drop k s)"
proof (induction k arbitrary: s)
  case 0
  then show ?case by simp
next
  case (Suc k)
  then show ?case by (cases s) auto
qed

lemma unquote_from_take: "k \<le> length s \<Longrightarrow> unquote_from k s = take k s @ unquote_from 0 (drop k s)"
proof (induction k arbitrary: s)
  case 0
  then show ?case by simp
next
  case (Suc k)
  then show ?case by (cases s) auto
qed

lemma utf8_from_take: "k \<le> length s \<Longrightarrow> utf8_from k s = utf8_from 0 (drop k s)"
proof (induction k arbitrary: s)
  case 0
  then show ?case by simp
next
  case (Suc k)
  then show ?case by (cases s) auto
qed

lemma hex4_digits:
  "n < 65536 \<Longrightarrow> hex4 (hex_digit (n div 4096 mod 16)) (hex_digit (n div 256 mod 16)) (hex_digit (n div 16 mod 16)) (hex_digit (n mod 16)) = n"
proof -
  assume "n < 65536"
  then have "n div 4096 mod 16 = n div 4096" by (intro mod_less) (simp add: less_mult_imp_div_less)
  moreover have "n div 4096 = n div 16 div 16 div 16" "n div 256 = n div 16 div 16" by (simp_all flip: div_mult2_eq)
  ultimately have "((n div 4096 mod 16 * 16 + n div 256 mod 16) * 16 + n div 16 mod 16) * 16 + n mod 16 = n"
    by (simp only: div_mult_mod_eq)
  then show ?thesis by (simp only: hex4_def hex_value_digit Let_def option.case mod_less_divisor zero_less_numeral)
qed

lemma unquote_u_escape:
  assumes "n < 55296 \<or> 57344 \<le> n \<and> n < 65536"
  shows "unquote_from 0 (u_escape n @ t) = encode_rune n @ unquote_from 0 t"
proof -
  have n: "n < 65536" "\<not> (55296 \<le> n \<and> n < 57344)" using assms by auto
  show ?thesis
    unfolding u_escape_def append.simps unquote_from.simps list.case Let_def hex4_digits [OF n(1)] if_not_P [OF n(2)] if_P [OF refl]
    by (rule refl)
qed

lemma scan_str_u_escape:
  "scan_str (u_escape n @ t) = map_option (\<lambda>(b, r). (u_escape n @ b, r)) (scan_str t)"
  by (cases "scan_str t") (auto simp: u_escape_def is_escape_def backslash_def quote_def hex_value_digit)

lemma byte_in_127: "byte_in 0 127 c \<longleftrightarrow> (of_char c :: nat) < 128"
  by (auto simp: byte_in_def Let_def)

lemma unquote_plain_byte: "byte_in 0 127 c \<Longrightarrow> c \<noteq> backslash \<Longrightarrow> unquote_from 0 (c # t) = c # unquote_from 0 t"
  by (simp add: utf8_len_def)

lemma unquote_escape_byte: "byte_in 0 127 c \<Longrightarrow> unquote_from 0 (escape_byte c @ t) = c # unquote_from 0 t"
proof -
  assume c: "byte_in 0 127 c"
  have esc: "unquote_from 0 (backslash # e # t) = unescape e # unquote_from 0 t" if "e \<noteq> CHR ''u''" for e
    using that by simp
  have u: "unquote_from 0 (u_escape (of_char c) @ t) = c # unquote_from 0 t"
    using unquote_u_escape [of "of_char c" t] c by (simp add: byte_in_127 encode_rune_def)
  have ne: "unescape quote = quote" "unescape backslash = backslash" "quote \<noteq> CHR ''u''" "backslash \<noteq> CHR ''u''"
    by (simp_all add: unescape_def quote_def backslash_def)
  show ?thesis
    using esc [of quote] esc [of backslash] esc [of "CHR ''b''"] esc [of "CHR ''f''"] esc [of "CHR ''n''"] esc [of "CHR ''r''"]
      esc [of "CHR ''t''"] u unquote_plain_byte [OF c, of t] ne
    by (simp add: escape_byte_def unescape_def del: unquote_from.simps split del: if_split) (simp add: unescape_def)
qed

lemma scan_str_escape_byte:
  "scan_str (escape_byte c @ t) = map_option (\<lambda>(b, r). (escape_byte c @ b, r)) (scan_str t)"
proof -
  have esc: "scan_str (backslash # e # t) = map_option (\<lambda>(b, r). (backslash # e # b, r)) (scan_str t)" if "is_escape e" for e
    using that by (simp add: backslash_def quote_def)
  show ?thesis
    unfolding escape_byte_def
    using esc [of quote] esc [of backslash] esc [of "CHR ''b''"] esc [of "CHR ''f''"] esc [of "CHR ''n''"] esc [of "CHR ''r''"]
      esc [of "CHR ''t''"] scan_str_u_escape [of "of_char c" t]
    by (auto simp: is_escape_def simp del: scan_str.simps(2)) (auto simp: u_escape_def)
qed

lemma utf8_len_high: "utf8_len (c # cs) = Suc k \<Longrightarrow> \<not> byte_in 0 127 c \<Longrightarrow> \<forall>b \<in> set (c # take k cs). 128 \<le> (of_char b :: nat)"
  by (auto simp: utf8_len_def byte_in_def Let_def split: list.splits if_splits)

lemma encode_line_sep: "encode_rune 0x2028 = [CHR 0xE2, CHR 0x80, CHR 0xA8]" "encode_rune 0x2029 = [CHR 0xE2, CHR 0x80, CHR 0xA9]"
  by (simp_all add: encode_rune_def char_of_def bit_0)

lemma line_sep_Some:
  assumes "line_sep (c # cs) = Some r"
  shows "\<exists>rest. c # cs = encode_rune r @ rest \<and> rest = drop 2 cs \<and> r \<in> {0x2028, 0x2029} \<and> utf8_len (c # cs) = 3"
proof -
  obtain b d rest where cs: "cs = b # d # rest"
    using assms by (cases "c # cs" rule: line_sep.cases) auto
  then have "c = CHR 0xE2" "b = CHR 0x80" "d = CHR 0xA8 \<and> r = 0x2028 \<or> d = CHR 0xA9 \<and> r = 0x2029"
    using assms by (auto split: if_splits)
  then show ?thesis using cs by (auto simp: encode_line_sep utf8_len_def byte_in_def)
qed

lemma unquote_copy:
  assumes "utf8_len (c # p @ t) = Suc (length p)" "\<not> byte_in 0 127 c"
  shows "unquote_from 0 (c # p @ t) = c # p @ unquote_from 0 t"
proof -
  have "c \<noteq> backslash" using assms(2) by (auto simp: backslash_def byte_in_def)
  then show ?thesis using assms(1) unquote_from_take [of "length p" "p @ t"] by simp
qed

lemma unquote_escape: "utf8_from 0 s \<Longrightarrow> unquote_from 0 (escape_from 0 s) = s"
proof (induction "length s" arbitrary: s rule: less_induct)
  case less
  show ?case
  proof (cases s)
    case (Cons c cs)
    then obtain k where k: "utf8_len (c # cs) = Suc k" "utf8_from k cs"
      using less.prems by (auto split: nat.splits)
    have len: "k \<le> length cs" using utf8_len_bound [OF k(1)] by simp
    have IH: "unquote_from 0 (escape_from 0 (drop k cs)) = drop k cs"
      using less.hyps [of "drop k cs"] k(2) utf8_from_take [OF len] Cons by simp
    show ?thesis
    proof (cases "byte_in 0 127 c")
      case True
      then have "k = 0" using k(1) by (simp add: utf8_len_def)
      then show ?thesis using Cons True IH unquote_escape_byte [OF True] by simp
    next
      case high: False
      show ?thesis
      proof (cases "line_sep (c # cs)")
        case None
        have p: "utf8_len (c # take k cs @ escape_from 0 (drop k cs)) = Suc (length (take k cs))"
          using utf8_len_prefix [of c "take k cs" "drop k cs"] k(1) len by simp
        show ?thesis
          using Cons high k(1) None unquote_copy [OF p high] IH escape_from_take [OF len] by simp
      next
        case (Some r)
        then obtain rest where r: "c # cs = encode_rune r @ rest" "rest = drop 2 cs" "r \<in> {0x2028, 0x2029}" "utf8_len (c # cs) = 3"
          using line_sep_Some by blast
        then have "k = 2" using k(1) by simp
        moreover have "unquote_from 0 (u_escape r @ escape_from 0 (drop 2 cs)) = encode_rune r @ unquote_from 0 (escape_from 0 (drop 2 cs))"
          using r(3) by (intro unquote_u_escape) auto
        moreover have "escape_from 0 s = u_escape r @ escape_from 0 (drop 2 cs)"
          using Cons high k(1) Some by simp
        ultimately show ?thesis using Cons IH r(1,2) by simp
      qed
    qed
  qed simp
qed

lemma scan_str_high:
  "(\<forall>b \<in> set p. 128 \<le> (of_char b :: nat)) \<Longrightarrow> scan_str (p @ t) = map_option (\<lambda>(b, r). (p @ b, r)) (scan_str t)"
proof (induction p)
  case Nil
  then show ?case by (cases "scan_str t") auto
next
  case (Cons b p)
  then have "b \<noteq> quote" "b \<noteq> backslash" "\<not> (of_char b :: nat) < 32" by (auto simp: quote_def backslash_def)
  then show ?case using Cons by (cases "scan_str t") auto
qed

lemma scan_str_escape: "scan_str (escape_from 0 s @ quote # t) = Some (escape_from 0 s, t)"
proof (induction "length s" arbitrary: s rule: less_induct)
  case less
  show ?case
  proof (cases s)
    case Nil
    then show ?thesis by simp
  next
    case (Cons c cs)
    have IH: "scan_str (escape_from 0 (drop k cs) @ quote # t) = Some (escape_from 0 (drop k cs), t)" for k
      using less.hyps [of "drop k cs"] Cons by simp
    show ?thesis
    proof (cases "byte_in 0 127 c")
      case True
      then show ?thesis using Cons scan_str_escape_byte [of c "escape_from 0 cs @ quote # t"] IH [of 0] by simp
    next
      case high: False
      show ?thesis
      proof (cases "utf8_len (c # cs)")
        case 0
        then show ?thesis using Cons high scan_str_u_escape [of "0xFFFD" "escape_from 0 cs @ quote # t"] IH [of 0] by simp
      next
        case (Suc k)
        have "scan_str ((c # take k cs) @ escape_from 0 (drop k cs) @ quote # t) = Some ((c # take k cs) @ escape_from 0 (drop k cs), t)"
          by (subst scan_str_high [OF utf8_len_high [OF Suc high]]) (simp add: IH)
        moreover have "k \<le> length cs" using utf8_len_bound [OF Suc] by simp
        moreover have "scan_str (u_escape r @ escape_from 0 (drop 2 cs) @ quote # t) = Some (u_escape r @ escape_from 0 (drop 2 cs), t)" for r
          by (simp only: scan_str_u_escape IH) simp
        moreover have "escape_from 0 s = (case line_sep (c # cs) of
            Some r \<Rightarrow> u_escape r @ escape_from 0 (drop 2 cs) | None \<Rightarrow> c # escape_from k cs)"
          using Cons high Suc by simp
        ultimately show ?thesis
          by (cases "line_sep (c # cs)") (simp_all add: escape_from_take [of k cs] del: scan_str.simps)
      qed
    qed
  qed
qed

lemma byte_in_char_of: "n < 256 \<Longrightarrow> byte_in lo hi (char_of n) \<longleftrightarrow> lo \<le> n \<and> n \<le> hi"
  by (simp add: byte_in_def take_bit_eq_mod)

lemma of_char_char_of: "n < 256 \<Longrightarrow> of_char (char_of n) = (n :: nat)"
  by (simp add: take_bit_eq_mod)

lemma utf8_len_encode_rune:
  assumes "r < 55296 \<or> 57344 \<le> r \<and> r < 1114112"
  shows "utf8_len (encode_rune r @ t) = length (encode_rune r) \<and> encode_rune r \<noteq> []"
proof -
  consider "r < 128" | "128 \<le> r" "r < 2048" | "2048 \<le> r" "r < 65536" | "65536 \<le> r" by linarith
  then show ?thesis
  proof cases
    case 1
    then show ?thesis by (simp add: encode_rune_def utf8_len_def byte_in_char_of)
  next
    case 2
    define a where "a = r div 64"
    have "2 \<le> a" "a < 32" using 2 by (auto simp: a_def)
    then show ?thesis
      using 2 by (simp add: encode_rune_def utf8_len_def byte_in_char_of flip: a_def)
  next
    case 3
    define a b where "a = r div 4096" and "b = r div 64 mod 64"
    have "r div 64 = 64 * a + b" using mult_div_mod_eq [of 64 "r div 64"] by (simp add: a_def b_def flip: div_mult2_eq)
    moreover have "32 \<le> r div 64" "r div 64 < 1024" "r div 64 < 864 \<or> 896 \<le> r div 64"
      using 3 assms by (auto simp: less_mult_imp_div_less div_le_mono [of _ _ 64, simplified])
    moreover have b: "b < 64" by (simp add: b_def)
    ultimately have *: "a < 16" "b < 64" "r mod 64 < 64" "a = 0 \<longrightarrow> 32 \<le> b" "a = 13 \<longrightarrow> b < 32"
      by auto
    then show ?thesis
      using 3 by (auto simp add: encode_rune_def utf8_len_def byte_in_char_of of_char_char_of simp flip: a_def b_def)
  next
    case 4
    define a b where "a = r div 262144" and "b = r div 4096 mod 64"
    have "r div 4096 = 64 * a + b" using mult_div_mod_eq [of 64 "r div 4096"] by (simp add: a_def b_def flip: div_mult2_eq)
    moreover have "16 \<le> r div 4096" "r div 4096 < 272"
      using 4 assms by (auto simp: less_mult_imp_div_less)
    moreover have b: "b < 64" by (simp add: b_def)
    ultimately have *: "a < 5" "b < 64" "a = 0 \<longrightarrow> 16 \<le> b" "a = 4 \<longrightarrow> b < 16" "r div 64 mod 64 < 64" "r mod 64 < 64"
      by auto
    then show ?thesis
      using 4 by (auto simp add: encode_rune_def utf8_len_def byte_in_char_of of_char_char_of simp flip: a_def b_def)
  qed
qed

lemma utf8_from_seq: "utf8_len (c # p @ t) = Suc (length p) \<Longrightarrow> utf8_from 0 (c # p @ t) = utf8_from 0 t"
  using utf8_from_take [of "length p" "p @ t"] by simp

lemma utf8_from_rune: "r < 55296 \<or> 57344 \<le> r \<and> r < 1114112 \<Longrightarrow> utf8_from 0 (encode_rune r @ t) = utf8_from 0 t"
  using utf8_len_encode_rune [of r t] utf8_from_seq [of "hd (encode_rune r)" "tl (encode_rune r)" t]
  by (cases "encode_rune r") auto

lemma utf8_from_replacement: "utf8_from 0 (replacement @ t) = utf8_from 0 t"
proof -
  have "replacement = encode_rune 0xFFFD" by (simp add: replacement_def encode_rune_def char_of_def bit_0)
  then show ?thesis using utf8_from_rune [of 65533 t] by simp
qed

lemma hex_value_lt: "hex_value h = Some n \<Longrightarrow> n < 16"
  by (auto simp: hex_value_def Let_def split: if_splits)

lemma hex4_lt: "hex4 a b c d < 65536"
proof -
  define v where "v = (\<lambda>x. case hex_value x of Some n \<Rightarrow> n | None \<Rightarrow> 0)"
  have "v x < 16" for x using hex_value_lt by (auto simp: v_def split: option.splits)
  from this [of a] this [of b] this [of c] this [of d] show ?thesis
    by (simp add: hex4_def flip: v_def)
qed

lemma unescape_ascii: "is_escape e \<Longrightarrow> byte_in 0 127 (unescape e) \<and> e \<noteq> CHR ''u''"
  unfolding is_escape_def by (elim insertE) (simp_all add: unescape_def quote_def backslash_def byte_in_def)

text \<open>The value of a string literal is well-formed UTF-8, whatever its bytes.\<close>

lemma unquote_surrogate:
  assumes "scan_str s = Some (b, r)" "55296 \<le> n" "n < 57344"
    and IH: "\<And>s' b'. length s' \<le> length s \<Longrightarrow> scan_str s' = Some (b', r) \<Longrightarrow> utf8_from 0 (unquote_from 0 b')"
  shows "utf8_from 0 (case b of
      x # u # g1 # g2 # g3 # g4 # rest' \<Rightarrow>
        let r' = hex4 g1 g2 g3 g4 in
        if x = backslash \<and> u = CHR ''u'' \<and> n < 56320 \<and> 56320 \<le> r' \<and> r' < 57344
        then encode_rune (65536 + (n - 55296) * 1024 + (r' - 56320)) @ unquote_from 0 rest'
        else replacement @ unquote_from 0 b
    | _ \<Rightarrow> replacement @ unquote_from 0 b)"
proof -
  have plain: "utf8_from 0 (replacement @ unquote_from 0 b)"
    using IH [of s b] assms(1) by (simp add: utf8_from_replacement)
  show ?thesis
  proof (cases "\<exists>g1 g2 g3 g4 rest'. b = backslash # CHR ''u'' # g1 # g2 # g3 # g4 # rest' \<and>
      n < 56320 \<and> 56320 \<le> hex4 g1 g2 g3 g4 \<and> hex4 g1 g2 g3 g4 < 57344")
    case False
    then show ?thesis using plain by (auto simp: Let_def simp del: unquote_from.simps utf8_from.simps split: list.split)
  next
    case True
    then obtain g1 g2 g3 g4 rest' where b: "b = backslash # CHR ''u'' # g1 # g2 # g3 # g4 # rest'"
      and g: "n < 56320" "56320 \<le> hex4 g1 g2 g3 g4" "hex4 g1 g2 g3 g4 < 57344" by blast
    have s: "s = backslash # CHR ''u'' # g1 # g2 # g3 # g4 # rest' @ quote # r"
      using scan_str_split [OF assms(1)] b by simp
    have "scan_str (rest' @ quote # r) = Some (rest', r)"
      using assms(1) b unfolding s
      by (auto simp: is_escape_def quote_def backslash_def split: if_splits)
    then have "utf8_from 0 (unquote_from 0 rest')" using IH [of "rest' @ quote # r" rest'] s by simp
    moreover have "65536 + (n - 55296) * 1024 + (hex4 g1 g2 g3 g4 - 56320) < 1114112" using g assms(2) by linarith
    ultimately show ?thesis using b g by (simp add: Let_def utf8_from_rune)
  qed
qed

lemma unquote_utf8: "scan_str s = Some (b, r) \<Longrightarrow> utf8_from 0 (unquote_from 0 b)"
proof (induction "length s" arbitrary: s b rule: less_induct)
  case less
  have IH: "utf8_from 0 (unquote_from 0 b')" if "length s' < length s" "scan_str s' = Some (b', r)" for s' b'
    using less.hyps that by blast
  obtain c cs where s: "s = c # cs" using less.prems by (cases s) auto
  consider "c = quote" | "c \<noteq> quote" "c \<noteq> backslash" | "c \<noteq> quote" "c = backslash" by blast
  then show ?case
  proof cases
    case 1
    then show ?thesis using less.prems s by simp
  next
    case 2
    then obtain b' where b': "scan_str cs = Some (b', r)" "b = c # b'"
      using less.prems s by (auto split: if_splits)
    show ?thesis
    proof (cases "utf8_len (c # b')")
      case 0
      then show ?thesis using 2 b' IH [OF _ b'(1)] s by (simp add: utf8_from_replacement)
    next
      case (Suc k)
      have len: "k \<le> length b'" using utf8_len_bound [OF Suc] by simp
      have cs: "cs = take k b' @ drop k b' @ quote # r" using scan_str_split [OF b'(1)] by simp
      have high: "\<forall>x \<in> set (take k b'). 128 \<le> (of_char x :: nat)"
        using utf8_len_high [OF Suc] Suc by (cases "byte_in 0 127 c") (auto simp: utf8_len_def)
      have "\<exists>b''. take k b' @ b'' = b' \<and> scan_str (drop k b' @ quote # r) = Some (b'', r)"
        using b'(1) scan_str_high [OF high, of "drop k b' @ quote # r"] cs by (auto simp del: append_take_drop_id)
      then have "scan_str (drop k b' @ quote # r) = Some (drop k b', r)"
        by (metis append_eq_conv_conj append_take_drop_id length_take min.absorb2 len)
      then have rest: "utf8_from 0 (unquote_from 0 (drop k b'))" using s cs by (intro IH [of "drop k b' @ quote # r"]) auto
      have "utf8_len (c # take k b' @ unquote_from 0 (drop k b')) = Suc (length (take k b'))"
        using utf8_len_prefix [of c "take k b'" "drop k b'"] Suc len by simp
      then show ?thesis using 2 b'(2) Suc rest utf8_from_seq [of c "take k b'"] unquote_from_take [OF len] by simp
    qed
  next
    case 3
    then obtain e es where cs: "cs = e # es" using less.prems s by (cases cs) auto
    show ?thesis
    proof (cases "is_escape e")
      case True
      then obtain b' where b': "scan_str es = Some (b', r)" "b = c # e # b'" using less.prems s cs 3 by auto
      have "utf8_from 0 (unquote_from 0 b')" using IH [OF _ b'(1)] s cs by simp
      moreover have "utf8_len (unescape e # t) = 1" for t using unescape_ascii [OF True] by (simp add: utf8_len_def)
      ultimately show ?thesis using b'(2) 3 unescape_ascii [OF True] by simp
    next
      case False
      then obtain h1 h2 h3 h4 hs b' where u: "e = CHR ''u''" "es = h1 # h2 # h3 # h4 # hs" "scan_str hs = Some (b', r)"
          "b = c # e # h1 # h2 # h3 # h4 # b'"
        using less.prems s cs 3 by (auto split: if_splits list.splits)
      have rest: "utf8_from 0 (unquote_from 0 b')" using IH [OF _ u(3)] s cs u(2) by simp
      have IH': "utf8_from 0 (unquote_from 0 b2)" if "length s2 \<le> length hs" "scan_str s2 = Some (b2, r)" for s2 b2
        using that s cs u(2) by (intro IH [OF _ that(2)]) simp
      show ?thesis
      proof (cases "55296 \<le> hex4 h1 h2 h3 h4 \<and> hex4 h1 h2 h3 h4 < 57344")
        case True
        then show ?thesis using unquote_surrogate [OF u(3) _ _ IH'] u(1,4) 3 by (simp add: Let_def)
      next
        case False
        then show ?thesis using u(1,4) 3 rest hex4_lt [of h1 h2 h3 h4] by (auto simp: Let_def utf8_from_rune)
      qed
    qed
  qed
qed

end
