(* ===== verification/Go_Compact.thy ===== *)
theory Go_Compact
  imports Go_Marshal
begin

text \<open>
  The encoding of a \<open>json.RawMessage\<close>: the value is compacted and its strings are escaped
  for HTML. The scanner of \<open>Go_Json\<close> accepts the result as it accepts the original; the
  proof is a locale of the rewritings that leave the structure of a JSON text alone, of
  which copying the text is another instance.
\<close>

section \<open>Raw messages\<close>

text \<open>
  \<open>appendCompact\<close> with HTML escaping, on valid input: white space outside of string literals
  is dropped, inside of them the unsafe characters and line separators are escaped.
\<close>

fun compact_from :: "bool \<Rightarrow> bytes \<Rightarrow> bytes" where
  "compact_from lit [] = []"
| "compact_from False (c # cs) =
     (if is_ws c then compact_from False cs
      else if c = quote then c # compact_from True cs
      else c # compact_from False cs)"
| "compact_from True (c # cs) =
     (if c = quote then c # compact_from False cs
      else if c = backslash then (case cs of [] \<Rightarrow> [c] | e # es \<Rightarrow> c # e # compact_from True es)
      else if html_unsafe c then u_escape (of_char c) @ compact_from True cs
      else case line_sep (c # cs) of
        Some r \<Rightarrow> u_escape r @ compact_from True (drop 2 cs)
      | None \<Rightarrow> c # compact_from True cs)"

definition marshal_raw :: "bytes \<Rightarrow> bytes option" where
  "marshal_raw p = (if json_Valid p then Some (compact_from False p) else None)"

section \<open>Rewritings that keep the structure\<close>

text \<open>Behind a number must come the end, white space or punctuation.\<close>

definition ends :: "bytes \<Rightarrow> bool" where
  "ends t \<longleftrightarrow> t = [] \<or> is_ws (hd t) \<or> hd t \<in> {CHR '','', CHR '']'', CHR ''}''}"

text \<open>What scanners of a number consume can be put in front of any such end.\<close>

lemma dropWhile_prefix: "\<exists>x. s = x @ dropWhile P s \<and> (\<forall>c \<in> set x. P c) \<and> (\<forall>u. u = [] \<or> \<not> P (hd u) \<longrightarrow> dropWhile P (x @ u) = u)"
proof (intro exI conjI allI impI)
  show "s = takeWhile P s @ dropWhile P s" by simp
  show P: "\<forall>c \<in> set (takeWhile P s). P c" by (auto dest: set_takeWhileD)
  fix u assume "u = [] \<or> \<not> P (hd u)"
  then have "dropWhile P u = u" by (cases u) auto
  then show "dropWhile P (takeWhile P s @ u) = u" using P by (simp add: dropWhile_append2)
qed

definition number_char :: "char \<Rightarrow> bool" where
  "number_char c \<longleftrightarrow> is_digit c \<or> c \<in> {CHR ''-'', CHR ''+'', CHR ''.'', CHR ''e'', CHR ''E''}"

lemma number_char_plain: "number_char c \<Longrightarrow> \<not> is_ws c \<and> c \<noteq> quote"
  by (auto simp: number_char_def is_digit_def is_ws_def quote_def)

lemma ends_number: "ends t \<Longrightarrow> t = [] \<or> \<not> number_char (hd t)"
  by (auto simp: ends_def number_char_def is_digit_def is_ws_def)

lemma scan_digits1_prefix:
  assumes "scan_digits1 s = Some r"
  shows "\<exists>x. s = x @ r \<and> x \<noteq> [] \<and> (\<forall>c \<in> set x. number_char c) \<and> (\<forall>u. u = [] \<or> \<not> is_digit (hd u) \<longrightarrow> scan_digits1 (x @ u) = Some u)"
proof -
  obtain c cs where c: "s = c # cs" "is_digit c" "r = dropWhile is_digit cs"
    using assms by (auto simp: scan_digits1_def split: list.splits if_splits)
  obtain x where x: "cs = x @ r" "\<forall>c \<in> set x. is_digit c" "\<forall>u. u = [] \<or> \<not> is_digit (hd u) \<longrightarrow> dropWhile is_digit (x @ u) = u"
    using dropWhile_prefix [of cs is_digit] c(3) by blast
  show ?thesis
    by (rule exI [of _ "c # x"]) (use c(1,2) x in \<open>auto simp: scan_digits1_def number_char_def\<close>)
qed

lemma digit_0: "is_digit (CHR ''0'')"
  by (simp add: is_digit_def)

lemma scan_int_prefix:
  assumes "scan_int s = Some r"
  shows "\<exists>x. s = x @ r \<and> x \<noteq> [] \<and> is_digit (hd x) \<and> (\<forall>c \<in> set x. number_char c) \<and> (\<forall>u. u = [] \<or> \<not> is_digit (hd u) \<longrightarrow> scan_int (x @ u) = Some u)"
proof -
  obtain c cs where c: "s = c # cs" "is_digit c" "c = CHR ''0'' \<and> r = cs \<or> c \<noteq> CHR ''0'' \<and> r = dropWhile is_digit cs"
    using assms digit_0 by (cases s) (auto simp: scan_int_def split: if_splits)
  show ?thesis
  proof (cases "c = CHR ''0''")
    case True
    then show ?thesis using c by (intro exI [of _ "[c]"]) (auto simp: scan_int_def number_char_def)
  next
    case False
    then obtain x where x: "cs = x @ r" "\<forall>c \<in> set x. is_digit c" "\<forall>u. u = [] \<or> \<not> is_digit (hd u) \<longrightarrow> dropWhile is_digit (x @ u) = u"
      using dropWhile_prefix [of cs is_digit] c(3) by blast
    show ?thesis
      by (rule exI [of _ "c # x"]) (use c(1,2) False x in \<open>auto simp: scan_int_def number_char_def\<close>)
  qed
qed

lemma scan_frac_prefix:
  assumes "scan_frac s = Some r"
  shows "\<exists>x. s = x @ r \<and> (x = [] \<or> hd x = CHR ''.'') \<and> (\<forall>c \<in> set x. number_char c) \<and>
    (\<forall>u. u = [] \<or> \<not> is_digit (hd u) \<and> hd u \<noteq> CHR ''.'' \<longrightarrow> scan_frac (x @ u) = Some u)"
proof (cases "\<exists>cs. s = CHR ''.'' # cs")
  case True
  then obtain cs where cs: "s = CHR ''.'' # cs" "scan_digits1 cs = Some r" using assms by (auto simp: scan_frac_def)
  obtain x where x: "cs = x @ r" "\<forall>c \<in> set x. number_char c" "\<forall>u. u = [] \<or> \<not> is_digit (hd u) \<longrightarrow> scan_digits1 (x @ u) = Some u"
    using scan_digits1_prefix [OF cs(2)] by blast
  show ?thesis
    by (rule exI [of _ "CHR ''.'' # x"]) (use cs x in \<open>auto simp: scan_frac_def number_char_def\<close>)
next
  case False
  then have "r = s" using assms by (auto simp: scan_frac_def split: list.splits if_splits)
  then show ?thesis by (intro exI [of _ "[]"]) (auto simp: scan_frac_def split: list.split)
qed

lemma scan_exp_prefix:
  assumes "scan_exp s = Some r"
  shows "\<exists>x. s = x @ r \<and> (x = [] \<or> hd x \<in> {CHR ''e'', CHR ''E''}) \<and> (\<forall>c \<in> set x. number_char c) \<and>
    (\<forall>u. u = [] \<or> \<not> number_char (hd u) \<longrightarrow> scan_exp (x @ u) = Some u)"
proof (cases "\<exists>c cs. s = c # cs \<and> (c = CHR ''e'' \<or> c = CHR ''E'')")
  case True
  then obtain c d ds where s: "s = c # d # ds" "c = CHR ''e'' \<or> c = CHR ''E''"
      "(if d = CHR ''+'' \<or> d = CHR ''-'' then scan_digits1 ds else scan_digits1 (d # ds)) = Some r"
    using assms by (auto simp: scan_exp_def split: list.splits)
  define sg where "sg = (if d = CHR ''+'' \<or> d = CHR ''-'' then [d] else [])"
  define rest where "rest = (if d = CHR ''+'' \<or> d = CHR ''-'' then ds else d # ds)"
  have rest: "s = c # sg @ rest" "scan_digits1 rest = Some r" using s by (auto simp: sg_def rest_def)
  obtain x where x: "rest = x @ r" "x \<noteq> []" "\<forall>c \<in> set x. number_char c" "\<forall>u. u = [] \<or> \<not> is_digit (hd u) \<longrightarrow> scan_digits1 (x @ u) = Some u"
    using scan_digits1_prefix [OF rest(2)] by blast
  have sg: "\<forall>c \<in> set sg. number_char c" by (simp add: sg_def number_char_def)
  have hd: "sg = [] \<Longrightarrow> hd x \<noteq> CHR ''+'' \<and> hd x \<noteq> CHR ''-''"
    using x(1,2) by (auto simp: sg_def rest_def Cons_eq_append_conv split: if_splits)
  have "scan_exp ((c # sg @ x) @ u) = Some u" if "u = [] \<or> \<not> number_char (hd u)" for u
  proof -
    have u: "scan_digits1 (x @ u) = Some u" using that x(4) by (auto simp: number_char_def)
    show ?thesis using s(2) u hd x(2) by (cases x) (auto simp: scan_exp_def sg_def split: if_splits)
  qed
  moreover have "number_char c" using s(2) by (auto simp: number_char_def)
  ultimately show ?thesis
    by (intro exI [of _ "c # sg @ x"]) (use rest x sg s(2) in auto)
next
  case False
  then have "r = s" using assms by (auto simp: scan_exp_def split: list.splits if_splits)
  then show ?thesis by (intro exI [of _ "[]"]) (auto simp: scan_exp_def number_char_def split: list.split)
qed

lemma scan_number_prefix:
  assumes "scan_number s = Some r"
  shows "\<exists>x. s = x @ r \<and> x \<noteq> [] \<and> (\<forall>c \<in> set x. number_char c) \<and> (\<forall>t. ends t \<longrightarrow> scan_number (x @ t) = Some t)"
proof -
  define sg where "sg = (if s \<noteq> [] \<and> hd s = CHR ''-'' then [CHR ''-''] else [])"
  define s1 where "s1 = (case s of [] \<Rightarrow> s | c # cs \<Rightarrow> if c = CHR ''-'' then cs else s)"
  have s: "s = sg @ s1" by (auto simp: sg_def s1_def split: list.split)
  obtain s2 s3 where h: "scan_int s1 = Some s2" "scan_frac s2 = Some s3" "scan_exp s3 = Some r"
    using assms by (auto simp: scan_number_def s1_def Let_def split: option.splits)
  obtain x where x: "s1 = x @ s2" "x \<noteq> []" "is_digit (hd x)" "\<forall>c \<in> set x. number_char c"
      "\<forall>u. u = [] \<or> \<not> is_digit (hd u) \<longrightarrow> scan_int (x @ u) = Some u"
    using scan_int_prefix [OF h(1)] by blast
  obtain y where y: "s2 = y @ s3" "y = [] \<or> hd y = CHR ''.''" "\<forall>c \<in> set y. number_char c"
      "\<forall>u. u = [] \<or> \<not> is_digit (hd u) \<and> hd u \<noteq> CHR ''.'' \<longrightarrow> scan_frac (y @ u) = Some u"
    using scan_frac_prefix [OF h(2)] by blast
  obtain z where z: "s3 = z @ r" "z = [] \<or> hd z \<in> {CHR ''e'', CHR ''E''}" "\<forall>c \<in> set z. number_char c"
      "\<forall>u. u = [] \<or> \<not> number_char (hd u) \<longrightarrow> scan_exp (z @ u) = Some u"
    using scan_exp_prefix [OF h(3)] by blast
  have digits: "\<not> is_digit (CHR ''.'')" "\<not> is_digit (CHR ''e'')" "\<not> is_digit (CHR ''E'')" "\<not> is_digit (CHR ''-'')"
    by (simp_all add: is_digit_def)
  have "scan_number ((sg @ x @ y @ z) @ t) = Some t" if t: "ends t" for t
  proof -
    have t': "t = [] \<or> \<not> number_char (hd t)" using ends_number [OF t] .
    have "scan_exp (z @ t) = Some t" using z(4) t' by blast
    moreover have "z @ t = [] \<or> \<not> is_digit (hd (z @ t)) \<and> hd (z @ t) \<noteq> CHR ''.''"
      using z(2) t' digits by (cases z) (auto simp: number_char_def)
    moreover from this have "y @ z @ t = [] \<or> \<not> is_digit (hd (y @ z @ t))"
      using y(2) digits by (cases y) auto
    moreover have "hd x \<noteq> CHR ''-''" using x(3) digits by auto
    ultimately show ?thesis using x(2,5) y(4) by (cases x) (auto simp: scan_number_def sg_def Let_def)
  qed
  moreover have "\<forall>c \<in> set sg. number_char c" by (simp add: sg_def number_char_def)
  ultimately show ?thesis using s x y z by (intro exI [of _ "sg @ x @ y @ z"]) auto
qed

lemma skip_ws_split: "\<exists>w. s = w @ skip_ws s \<and> (\<forall>c \<in> set w. is_ws c)"
  by (rule exI [of _ "takeWhile is_ws s"]) (auto simp: skip_ws_def dest: set_takeWhileD)

lemma skip_ws_hd: "skip_ws s = c # cs \<Longrightarrow> \<not> is_ws c"
  unfolding skip_ws_def by (metis hd_dropWhile list.distinct(1) list.sel(1))

lemma skip_ws_ws: "\<forall>c \<in> set w. is_ws c \<Longrightarrow> skip_ws (w @ t) = skip_ws t"
  by (simp add: skip_ws_def dropWhile_append2)

lemma skip_ws_Cons: "\<not> is_ws c \<Longrightarrow> skip_ws (c # t) = c # t"
  by (simp add: skip_ws_def)

lemma scan_value_hd: "scan_value n d (c # cs) = Some r \<Longrightarrow> \<not> is_ws c"
proof (cases n)
  case (Suc m)
  assume a: "scan_value n d (c # cs) = Some r"
  show ?thesis
  proof
    assume ws: "is_ws c"
    then have "scan_value n d (c # cs) = scan_number (c # cs)"
      using Suc by (auto simp: is_ws_def quote_def)
    moreover obtain x where "c # cs = x @ r" "x \<noteq> []" "\<forall>c \<in> set x. number_char c"
      using scan_number_prefix a calculation by metis
    then have "number_char c" by (cases x) auto
    then show False using ws number_char_plain by blast
  qed
qed simp

text \<open>
  \<open>C\<close> rewrites a text, \<open>B\<close> the body of a string literal, \<open>W\<close> white space between tokens.
\<close>

locale json_copy =
  fixes C :: "bytes \<Rightarrow> bytes" and B :: "bytes \<Rightarrow> bytes" and W :: "char \<Rightarrow> bytes"
  assumes C_Nil: "C [] = []"
    and C_space: "is_ws c \<Longrightarrow> C (c # t) = W c @ C t"
    and W_space: "is_ws c \<Longrightarrow> x \<in> set (W c) \<Longrightarrow> is_ws x"
    and C_char: "\<not> is_ws c \<Longrightarrow> c \<noteq> quote \<Longrightarrow> C (c # t) = c # C t"
    and C_string: "scan_str s = Some (b, r) \<Longrightarrow> C (quote # b @ quote # t) = quote # B b @ quote # C t"
    and B_scan: "scan_str s = Some (b, r) \<Longrightarrow> scan_str (B b @ quote # t) = Some (B b, t)"
begin

lemma C_plain: "\<forall>c \<in> set x. \<not> is_ws c \<and> c \<noteq> quote \<Longrightarrow> C (x @ t) = x @ C t"
  by (induction x) (simp_all add: C_char)

lemma C_spaces: "\<forall>c \<in> set w. is_ws c \<Longrightarrow> \<exists>v. (\<forall>c \<in> set v. is_ws c) \<and> (\<forall>t. C (w @ t) = v @ C t)"
proof (induction w)
  case Nil
  then show ?case by (intro exI [of _ "[]"]) simp
next
  case (Cons c w)
  then obtain v where "\<forall>c \<in> set v. is_ws c" "\<forall>t. C (w @ t) = v @ C t" by auto
  then show ?case using Cons.prems W_space by (intro exI [of _ "W c @ v"]) (auto simp: C_space)
qed

definition keeps :: "bytes \<Rightarrow> (bytes \<Rightarrow> bool) \<Rightarrow> bool" where
  "keeps x P \<longleftrightarrow> x \<noteq> [] \<and> \<not> is_ws (hd x) \<and> (\<exists>y. (\<forall>t. C (x @ t) = hd x # y @ C t) \<and> P (hd x # y))"

definition value_ok :: "nat \<Rightarrow> int \<Rightarrow> bytes \<Rightarrow> bool" where
  "value_ok n d y \<longleftrightarrow> (\<forall>t. ends t \<longrightarrow> scan_value n d (y @ t) = Some t)"

definition elems_ok :: "nat \<Rightarrow> int \<Rightarrow> bytes \<Rightarrow> bool" where
  "elems_ok n d y \<longleftrightarrow> (\<forall>t. \<exists>xs. scan_elems n d (y @ t) = Some (xs, t))"

definition members_ok :: "nat \<Rightarrow> int \<Rightarrow> bytes \<Rightarrow> bool" where
  "members_ok n d y \<longleftrightarrow> (\<forall>t. \<exists>xs. scan_members n d (y @ t) = Some (xs, t))"

lemma keepsI:
  assumes "x = c # x'" "\<not> is_ws c" "\<And>t. C (x @ t) = c # y @ C t" "P (c # y)"
  shows "keeps x P"
  using assms by (auto simp: keeps_def)

lemma keepsE:
  assumes "keeps x P"
  obtains c x' y where "x = c # x'" "\<not> is_ws c" "\<And>t. C (x @ t) = c # y @ C t" "P (c # y)"
  using assms by (cases x) (auto simp: keeps_def)

lemma container_step:
  assumes "\<not> is_ws c" "c \<noteq> quote" "skip_ws cs = e # es" "e # es = x @ r" "keeps x Q"
    and "\<And>y v. Q y \<Longrightarrow> y \<noteq> [] \<Longrightarrow> hd y = e \<Longrightarrow> \<forall>c \<in> set v. is_ws c \<Longrightarrow> P (c # v @ y)"
  shows "\<exists>x. c # cs = x @ r \<and> keeps x P"
proof -
  obtain w where w: "cs = w @ e # es" "\<forall>c \<in> set w. is_ws c" using skip_ws_split [of cs] assms(3) by auto
  obtain v where v: "\<forall>c \<in> set v. is_ws c" "\<And>t. C (w @ t) = v @ C t" using C_spaces [OF w(2)] by blast
  obtain x' y where x: "x = e # x'" "\<And>t. C (x @ t) = e # y @ C t" "Q (e # y)"
    using assms(5,4) by (auto elim!: keepsE)
  have "keeps (c # w @ x) P"
  proof (rule keepsI)
    show "C ((c # w @ x) @ t) = c # (v @ e # y) @ C t" for t using assms(1,2) v(2) x(2) by (simp add: C_char)
    show "P (c # v @ e # y)" using assms(6) [OF x(3) _ _ v(1)] by simp
  qed (use assms(1) in auto)
  then show ?thesis using w(1) assms(4) by (intro exI [of _ "c # w @ x"]) simp
qed

lemma empty_step:
  assumes "\<not> is_ws c" "c \<noteq> quote" "skip_ws cs = e # es" "e \<noteq> quote"
    and "\<And>v. \<forall>c \<in> set v. is_ws c \<Longrightarrow> P (c # v @ [e])"
  shows "\<exists>x. c # cs = x @ es \<and> keeps x P"
proof (rule container_step [where Q = "\<lambda>y. y = [e]"])
  show "keeps [e] (\<lambda>y. y = [e])" using skip_ws_hd [OF assms(3)] assms(4) by (intro keepsI) (auto simp: C_char)
qed (use assms in auto)

lemma plain_step:
  assumes "s = x @ r" "x \<noteq> []" "\<forall>c \<in> set x. \<not> is_ws c \<and> c \<noteq> quote" "P x"
  shows "\<exists>x. s = x @ r \<and> keeps x P"
proof -
  obtain c x' where x: "x = c # x'" using assms(2) by (cases x) auto
  have "keeps x P" by (rule keepsI [OF x, of x']) (use assms(3,4) x C_plain [of x] in auto)
  then show ?thesis using assms(1) by blast
qed

end
context json_copy
begin

lemma skip_spaces: "\<forall>c \<in> set v. is_ws c \<Longrightarrow> \<not> is_ws c \<Longrightarrow> skip_ws (v @ c # t) = c # t"
  by (simp add: skip_ws_ws skip_ws_Cons)

lemma value_step:
  assumes IHe: "\<And>d s xs r. scan_elems n d s = Some (xs, r) \<Longrightarrow> \<exists>x. s = x @ r \<and> keeps x (elems_ok n d)"
    and IHm: "\<And>d s xs r. scan_members n d s = Some (xs, r) \<Longrightarrow> \<exists>x. s = x @ r \<and> keeps x (members_ok n d)"
    and s: "scan_value (Suc n) d s = Some r"
  shows "\<exists>x. s = x @ r \<and> keeps x (value_ok (Suc n) d)"
proof -
  obtain c cs where c: "s = c # cs" using s by (cases s) auto
  have cs: "scan_value (Suc n) d (c # cs) = Some r" using s c by simp
  have q: "quote \<noteq> CHR ''[''" "quote \<noteq> CHR ''{''" "quote \<noteq> CHR ''t''" "quote \<noteq> CHR ''f''" "quote \<noteq> CHR ''n''"
      "quote \<noteq> CHR '']''" "quote \<noteq> CHR ''}''"
    by (simp_all add: quote_def)
  have lit: ?thesis if "c # cs = l @ r" "l \<in> {''true'', ''false'', ''null''}" for l
  proof (rule plain_step)
    show "s = l @ r" "l \<noteq> []" using that c by auto
    show "\<forall>c \<in> set l. \<not> is_ws c \<and> c \<noteq> quote" using that(2) by (auto simp: is_ws_def quote_def)
    show "value_ok (Suc n) d l" using that(2) by (auto simp: value_ok_def quote_def)
  qed
  consider (arr) "c = CHR ''[''" | (obj) "c = CHR ''{''" | (str) "c = quote" | (lit) "c \<in> {CHR ''t'', CHR ''f'', CHR ''n''}"
    | (num) "c \<notin> {CHR ''['', CHR ''{'', quote, CHR ''t'', CHR ''f'', CHR ''n''}" by blast
  then show ?thesis
  proof cases
    case arr
    then obtain e es where e: "skip_ws cs = e # es" "\<not> maxNestingDepth \<le> d" using cs by (auto split: if_splits list.splits)
    show ?thesis
    proof (cases "e = CHR '']''")
      case True
      show ?thesis unfolding c
        by (rule empty_step [of c cs e r, OF _ _ _ _, rotated 4])
          (use arr e True cs q skip_ws_hd [OF e(1)] in \<open>auto simp: value_ok_def skip_spaces is_ws_def\<close>)
    next
      case False
      then obtain xs where "scan_elems n (d + 1) (e # es) = Some (xs, r)" using cs arr e by auto
      then obtain x where x: "e # es = x @ r" "keeps x (elems_ok n (d + 1))" using IHe by blast
      show ?thesis unfolding c
      proof (rule container_step [OF _ _ e(1) x])
        fix y v assume y: "elems_ok n (d + 1) y" "y \<noteq> []" "hd y = e" and v: "\<forall>c \<in> set v. is_ws c"
        then obtain y' where y': "y = e # y'" by (cases y) auto
        have "skip_ws (v @ e # t) = e # t" for t using skip_spaces [OF v] skip_ws_hd [OF e(1)] by simp
        then show "value_ok (Suc n) d (c # v @ y)" using y(1) y' arr e(2) False by (fastforce simp: value_ok_def elems_ok_def)
      qed (use arr q in \<open>auto simp: is_ws_def\<close>)
    qed
  next
    case obj
    then obtain e es where e: "skip_ws cs = e # es" "\<not> maxNestingDepth \<le> d" using cs by (auto split: if_splits list.splits)
    show ?thesis
    proof (cases "e = CHR ''}''")
      case True
      show ?thesis unfolding c
        by (rule empty_step [of c cs e r, OF _ _ _ _, rotated 4])
          (use obj e True cs q skip_ws_hd [OF e(1)] in \<open>auto simp: value_ok_def skip_spaces is_ws_def\<close>)
    next
      case False
      then obtain xs where "scan_members n (d + 1) (e # es) = Some (xs, r)" using cs obj e by auto
      then obtain x where x: "e # es = x @ r" "keeps x (members_ok n (d + 1))" using IHm by blast
      show ?thesis unfolding c
      proof (rule container_step [OF _ _ e(1) x])
        fix y v assume y: "members_ok n (d + 1) y" "y \<noteq> []" "hd y = e" and v: "\<forall>c \<in> set v. is_ws c"
        then obtain y' where y': "y = e # y'" by (cases y) auto
        have "skip_ws (v @ e # t) = e # t" for t using skip_spaces [OF v] skip_ws_hd [OF e(1)] by simp
        then show "value_ok (Suc n) d (c # v @ y)" using y(1) y' obj e(2) False by (fastforce simp: value_ok_def members_ok_def)
      qed (use obj q in \<open>auto simp: is_ws_def\<close>)
    qed
  next
    case str
    then obtain b where b: "scan_str cs = Some (b, r)" using cs q by auto
    have "keeps (quote # b @ [quote]) (value_ok (Suc n) d)"
    proof (rule keepsI)
      show "\<not> is_ws quote" by (simp add: is_ws_def quote_def)
      show "C ((quote # b @ [quote]) @ t) = quote # (B b @ [quote]) @ C t" for t using C_string [OF b, of t] by simp
      show "value_ok (Suc n) d (quote # B b @ [quote])" using B_scan [OF b] q by (simp add: value_ok_def)
    qed simp
    then show ?thesis using scan_str_split [OF b] c str by (intro exI [of _ "quote # b @ [quote]"]) simp
  next
    case lit
    then show ?thesis using cs \<open>\<And>l. c # cs = l @ r \<Longrightarrow> l \<in> {''true'', ''false'', ''null''} \<Longrightarrow> ?thesis\<close>
      by (auto simp: quote_def strip_prefix_Some split: if_splits)
  next
    case num
    then have "scan_number s = Some r" using cs c by simp
    then obtain x where x: "s = x @ r" "x \<noteq> []" "\<forall>c \<in> set x. number_char c" "\<forall>t. ends t \<longrightarrow> scan_number (x @ t) = Some t"
      using scan_number_prefix by blast
    show ?thesis
    proof (rule plain_step [OF x(1,2)])
      show "\<forall>c \<in> set x. \<not> is_ws c \<and> c \<noteq> quote" using x(3) number_char_plain by blast
      obtain x' where "x = c # x'" using x(1,2) c by (cases x) auto
      then show "value_ok (Suc n) d x" using x(4) num by (auto simp: value_ok_def)
    qed
  qed
qed

end

context json_copy
begin

text \<open>A value, the white space behind it and the punctuation that follows.\<close>

lemma after_value:
  assumes "keeps x (value_ok n d)" "skip_ws r = c # cs" "c \<in> {CHR '','', CHR '']'', CHR ''}''}"
  obtains w a x' y where "r = w @ c # cs" "x = a # x'" "\<not> is_ws a" "\<And>t. C (x @ w @ c # t) = a # y @ c # C t"
    "\<And>t. \<exists>r'. scan_value n d (a # y @ c # t) = Some r' \<and> skip_ws r' = c # t"
proof -
  obtain w where w: "r = w @ c # cs" "\<forall>c \<in> set w. is_ws c" using skip_ws_split [of r] assms(2) by auto
  obtain v where v: "\<forall>c \<in> set v. is_ws c" "\<And>t. C (w @ t) = v @ C t" using C_spaces [OF w(2)] by blast
  obtain a x' y where x: "x = a # x'" "\<not> is_ws a" "\<And>t. C (x @ t) = a # y @ C t" "value_ok n d (a # y)"
    using assms(1) by (rule keepsE) (rule that)
  have c: "\<not> is_ws c" "c \<noteq> quote" using assms(3) by (auto simp: is_ws_def quote_def)
  have "ends (v @ c # t)" for t using assms(3) v(1) by (cases v) (auto simp: ends_def)
  then have "scan_value n d (a # (y @ v) @ c # t) = Some (v @ c # t)" for t using x(4) by (auto simp: value_ok_def)
  moreover have "C (x @ w @ c # t) = a # (y @ v) @ c # C t" for t using x(3) v(2) c by (simp add: C_char)
  ultimately show ?thesis using w(1) x(1,2) skip_spaces [OF v(1) c(1)] that [of w a x' "y @ v"] by blast
qed

text \<open>White space and then a part of which the rewriting is known.\<close>

lemma after_space:
  assumes "keeps x P" "skip_ws cs = x @ r"
  obtains w v a y where "cs = w @ x @ r" "\<And>t. C (w @ x @ t) = v @ a # y @ C t" "\<And>t. skip_ws (v @ a # t) = a # t" "P (a # y)"
proof -
  obtain w where w: "cs = w @ x @ r" "\<forall>c \<in> set w. is_ws c" using skip_ws_split [of cs] assms(2) by auto
  obtain v where v: "\<forall>c \<in> set v. is_ws c" "\<And>t. C (w @ t) = v @ C t" using C_spaces [OF w(2)] by blast
  obtain a x' y where x: "x = a # x'" "\<not> is_ws a" "\<And>t. C (x @ t) = a # y @ C t" "P (a # y)"
    using assms(1) by (rule keepsE) (rule that)
  show ?thesis using that [of w v a y] w(1) v x skip_spaces by simp
qed

lemma elems_step:
  assumes IHv: "\<And>d s r. scan_value n d s = Some r \<Longrightarrow> \<exists>x. s = x @ r \<and> keeps x (value_ok n d)"
    and IHe: "\<And>d s xs r. scan_elems n d s = Some (xs, r) \<Longrightarrow> \<exists>x. s = x @ r \<and> keeps x (elems_ok n d)"
    and s: "scan_elems (Suc n) d s = Some (xs, r)"
  shows "\<exists>x. s = x @ r \<and> keeps x (elems_ok (Suc n) d)"
proof -
  obtain r1 c cs where r1: "scan_value n d s = Some r1" "skip_ws r1 = c # cs" "c \<in> {CHR '','', CHR '']''}"
    using s by (auto split: option.splits list.splits if_splits)
  obtain x where x: "s = x @ r1" "keeps x (value_ok n d)" using IHv [OF r1(1)] by blast
  obtain w a x' y where w: "r1 = w @ c # cs" "x = a # x'" "\<not> is_ws a" "\<And>t. C (x @ w @ c # t) = a # y @ c # C t"
      "\<And>t. \<exists>r'. scan_value n d (a # y @ c # t) = Some r' \<and> skip_ws r' = c # t"
    by (rule after_value [OF x(2) r1(2)]) (use r1(3) in auto)
  show ?thesis
  proof (cases "c = CHR '']''")
    case True
    then have "r = cs" using s r1 by auto
    moreover have "keeps (x @ w @ [c]) (elems_ok (Suc n) d)"
    proof (rule keepsI)
      show "C ((x @ w @ [c]) @ t) = a # (y @ [c]) @ C t" for t using w(4) by simp
      have "\<exists>xs. scan_elems (Suc n) d (a # y @ c # t) = Some (xs, t)" for t using w(5) [of t] True by auto
      then show "elems_ok (Suc n) d (a # y @ [c])" by (simp add: elems_ok_def)
    qed (use w in simp_all)
    ultimately show ?thesis using x(1) w(1) by (intro exI [of _ "x @ w @ [c]"]) simp
  next
    case False
    then have c: "c = CHR '',''" using r1(3) by simp
    then obtain xs' where "scan_elems n d (skip_ws cs) = Some (xs', r)" using s r1 by auto
    then obtain x2 where x2: "skip_ws cs = x2 @ r" "keeps x2 (elems_ok n d)" using IHe by blast
    obtain w2 v2 b y2 where w2: "cs = w2 @ x2 @ r" "\<And>t. C (w2 @ x2 @ t) = v2 @ b # y2 @ C t"
        "\<And>t. skip_ws (v2 @ b # t) = b # t" "elems_ok n d (b # y2)"
      by (rule after_space [OF x2(2,1)]) (rule that)
    have "keeps (x @ w @ c # w2 @ x2) (elems_ok (Suc n) d)"
    proof (rule keepsI)
      show "C ((x @ w @ c # w2 @ x2) @ t) = a # (y @ c # v2 @ b # y2) @ C t" for t using w(4) w2(2) by simp
      have "\<exists>xs. scan_elems (Suc n) d (a # y @ c # v2 @ b # y2 @ t) = Some (xs, t)" for t
        using w(5) [of "v2 @ b # y2 @ t"] w2(3) [of "y2 @ t"] w2(4) c by (auto simp: elems_ok_def)
      then show "elems_ok (Suc n) d (a # y @ c # v2 @ b # y2)" by (simp add: elems_ok_def)
    qed (use w in simp_all)
    then show ?thesis using x(1) w(1) w2(1) by (intro exI [of _ "x @ w @ c # w2 @ x2"]) simp
  qed
qed

lemma members_step:
  assumes IHv: "\<And>d s r. scan_value n d s = Some r \<Longrightarrow> \<exists>x. s = x @ r \<and> keeps x (value_ok n d)"
    and IHm: "\<And>d s xs r. scan_members n d s = Some (xs, r) \<Longrightarrow> \<exists>x. s = x @ r \<and> keeps x (members_ok n d)"
    and s: "scan_members (Suc n) d s = Some (xs, r)"
  shows "\<exists>x. s = x @ r \<and> keeps x (members_ok (Suc n) d)"
proof -
  obtain qs key r0 r2 r1 c cs where q: "s = quote # qs" "scan_str qs = Some (key, r0)" "skip_ws r0 = CHR '':'' # r2"
      "scan_value n d (skip_ws r2) = Some r1" "skip_ws r1 = c # cs" "c \<in> {CHR '','', CHR ''}''}"
    using s by (auto simp: Let_def split: option.splits list.splits if_splits)
  obtain x where x: "skip_ws r2 = x @ r1" "keeps x (value_ok n d)" using IHv [OF q(4)] by blast
  obtain w a x' y where w: "r1 = w @ c # cs" "x = a # x'" "\<not> is_ws a" "\<And>t. C (x @ w @ c # t) = a # y @ c # C t"
      "\<And>t. \<exists>r'. scan_value n d (a # y @ c # t) = Some r' \<and> skip_ws r' = c # t"
    by (rule after_value [OF x(2) q(5)]) (use q(6) in auto)
  obtain w0 where w0: "r0 = w0 @ CHR '':'' # r2" "\<forall>c \<in> set w0. is_ws c" using skip_ws_split [of r0] q(3) by auto
  obtain v0 where v0: "\<forall>c \<in> set v0. is_ws c" "\<And>t. C (w0 @ t) = v0 @ C t" using C_spaces [OF w0(2)] by blast
  obtain w1 where w1: "r2 = w1 @ x @ r1" "\<forall>c \<in> set w1. is_ws c" using skip_ws_split [of r2] x(1) by auto
  obtain v1 where v1: "\<forall>c \<in> set v1. is_ws c" "\<And>t. C (w1 @ t) = v1 @ C t" using C_spaces [OF w1(2)] by blast
  have colon: "\<not> is_ws (CHR '':'')" "CHR '':'' \<noteq> quote" by (simp_all add: is_ws_def quote_def)
  have front: "C (quote # key @ quote # w0 @ CHR '':'' # w1 @ x @ w @ c # t) =
      quote # B key @ quote # v0 @ CHR '':'' # v1 @ a # y @ c # C t" for t
    using C_string [OF q(2), of "w0 @ CHR '':'' # w1 @ x @ w @ c # t"] v0(2) v1(2) w(4) colon by (simp add: C_char)
  have sk: "skip_ws (v0 @ CHR '':'' # t) = CHR '':'' # t" "skip_ws (v1 @ a # t) = a # t" for t
    using skip_spaces [OF v0(1) colon(1)] skip_spaces [OF v1(1) w(3)] by simp_all
  show ?thesis
  proof (cases "c = CHR ''}''")
    case True
    then have "r = cs" using s q by (auto simp: Let_def)
    moreover have "keeps (quote # key @ quote # w0 @ CHR '':'' # w1 @ x @ w @ [c]) (members_ok (Suc n) d)"
    proof (rule keepsI)
      show "\<not> is_ws quote" by (simp add: is_ws_def quote_def)
      show "C ((quote # key @ quote # w0 @ CHR '':'' # w1 @ x @ w @ [c]) @ t) =
          quote # (B key @ quote # v0 @ CHR '':'' # v1 @ a # y @ [c]) @ C t" for t using front by simp
      have "\<exists>xs. scan_members (Suc n) d (quote # B key @ quote # v0 @ CHR '':'' # v1 @ a # y @ c # t) = Some (xs, t)" for t
        using w(5) [of t] True B_scan [OF q(2)] sk by (auto simp: Let_def)
      then show "members_ok (Suc n) d (quote # B key @ quote # v0 @ CHR '':'' # v1 @ a # y @ [c])" by (simp add: members_ok_def)
    qed simp
    ultimately show ?thesis using q(1) scan_str_split [OF q(2)] w(1) w0(1) w1(1)
      by (intro exI [of _ "quote # key @ quote # w0 @ CHR '':'' # w1 @ x @ w @ [c]"]) simp
  next
    case False
    then have c: "c = CHR '',''" using q(6) by simp
    then obtain xs' where "scan_members n d (skip_ws cs) = Some (xs', r)" using s q by (auto simp: Let_def)
    then obtain x2 where x2: "skip_ws cs = x2 @ r" "keeps x2 (members_ok n d)" using IHm by blast
    obtain w2 v2 b y2 where w2: "cs = w2 @ x2 @ r" "\<And>t. C (w2 @ x2 @ t) = v2 @ b # y2 @ C t"
        "\<And>t. skip_ws (v2 @ b # t) = b # t" "members_ok n d (b # y2)"
      by (rule after_space [OF x2(2,1)]) (rule that)
    have "keeps (quote # key @ quote # w0 @ CHR '':'' # w1 @ x @ w @ c # w2 @ x2) (members_ok (Suc n) d)"
    proof (rule keepsI)
      show "\<not> is_ws quote" by (simp add: is_ws_def quote_def)
      show "C ((quote # key @ quote # w0 @ CHR '':'' # w1 @ x @ w @ c # w2 @ x2) @ t) =
          quote # (B key @ quote # v0 @ CHR '':'' # v1 @ a # y @ c # v2 @ b # y2) @ C t" for t using front w2(2) by simp
      have "\<exists>xs. scan_members (Suc n) d (quote # B key @ quote # v0 @ CHR '':'' # v1 @ a # y @ c # v2 @ b # y2 @ t) = Some (xs, t)" for t
        using w(5) [of "v2 @ b # y2 @ t"] w2(3) [of "y2 @ t"] w2(4) c B_scan [OF q(2)] sk by (auto simp: Let_def members_ok_def)
      then show "members_ok (Suc n) d (quote # B key @ quote # v0 @ CHR '':'' # v1 @ a # y @ c # v2 @ b # y2)" by (simp add: members_ok_def)
    qed simp
    then show ?thesis using q(1) scan_str_split [OF q(2)] w(1) w0(1) w1(1) w2(1)
      by (intro exI [of _ "quote # key @ quote # w0 @ CHR '':'' # w1 @ x @ w @ c # w2 @ x2"]) simp
  qed
qed

lemma scan_copy_aux:
  "(\<forall>d s r. scan_value n d s = Some r \<longrightarrow> (\<exists>x. s = x @ r \<and> keeps x (value_ok n d))) \<and>
   (\<forall>d s xs r. scan_elems n d s = Some (xs, r) \<longrightarrow> (\<exists>x. s = x @ r \<and> keeps x (elems_ok n d))) \<and>
   (\<forall>d s xs r. scan_members n d s = Some (xs, r) \<longrightarrow> (\<exists>x. s = x @ r \<and> keeps x (members_ok n d)))"
proof (induction n)
  case 0
  then show ?case by simp
next
  case (Suc n)
  then have v: "\<And>d s r. scan_value n d s = Some r \<Longrightarrow> \<exists>x. s = x @ r \<and> keeps x (value_ok n d)"
    and e: "\<And>d s xs r. scan_elems n d s = Some (xs, r) \<Longrightarrow> \<exists>x. s = x @ r \<and> keeps x (elems_ok n d)"
    and m: "\<And>d s xs r. scan_members n d s = Some (xs, r) \<Longrightarrow> \<exists>x. s = x @ r \<and> keeps x (members_ok n d)"
    by blast+
  show ?case
    by (intro conjI allI impI) (rule value_step [OF e m] elems_step [OF v e] members_step [OF v m]; assumption)+
qed

text \<open>The rewriting of a value is a value, at the same fuel and depth, before any end.\<close>

lemma scan_value_copy:
  assumes "scan_value n d s = Some r"
  shows "\<exists>x y. s = x @ r \<and> x \<noteq> [] \<and> y \<noteq> [] \<and> hd y = hd x \<and> \<not> is_ws (hd x) \<and> (\<forall>t. C (x @ t) = y @ C t) \<and>
    (\<forall>t. ends t \<longrightarrow> scan_value n d (y @ t) = Some t)"
proof -
  obtain x where x: "s = x @ r" "keeps x (value_ok n d)" using scan_copy_aux [of n] assms by blast
  obtain a x' y where "x = a # x'" "\<not> is_ws a" "\<And>t. C (x @ t) = a # y @ C t" "value_ok n d (a # y)" using x(2) by (rule keepsE) (rule that)
  then show ?thesis using x(1) by (intro exI [of _ x] exI [of _ "a # y"]) (auto simp: value_ok_def)
qed

end

section \<open>Copying and compacting\<close>

text \<open>The bodies of string literals.\<close>

inductive literal :: "bytes \<Rightarrow> bool" where
  Empty: "literal []"
| Plain: "c \<noteq> quote \<Longrightarrow> c \<noteq> backslash \<Longrightarrow> 32 \<le> (of_char c :: nat) \<Longrightarrow> literal b \<Longrightarrow> literal (c # b)"
| Escape: "is_escape e \<Longrightarrow> literal b \<Longrightarrow> literal (backslash # e # b)"
| Unicode: "list_all (\<lambda>h. hex_value h \<noteq> None) [h1, h2, h3, h4] \<Longrightarrow> literal b \<Longrightarrow>
    literal (backslash # CHR ''u'' # h1 # h2 # h3 # h4 # b)"

lemma scan_str_literal: "scan_str s = Some (b, r) \<Longrightarrow> literal b"
proof (induction s arbitrary: b rule: scan_str.induct)
  case 1
  then show ?case by simp
next
  case (2 c cs)
  consider "c = quote" | "c \<noteq> quote" "c \<noteq> backslash" | "c \<noteq> quote" "c = backslash" by blast
  then show ?case
  proof cases
    case 1
    then show ?thesis using 2(4) by (simp add: literal.Empty)
  next
    case plain: 2
    then obtain b' where "b = c # b'" "scan_str cs = Some (b', r)" "32 \<le> (of_char c :: nat)" using 2(4) by (auto split: if_splits)
    then show ?thesis using plain 2(3) by (auto intro: literal.Plain)
  next
    case esc: 3
    then obtain e es where cs: "cs = e # es" using 2(4) by (cases cs) auto
    show ?thesis
    proof (cases "is_escape e")
      case True
      then obtain b' where "b = c # e # b'" "scan_str es = Some (b', r)" using 2(4) esc cs by auto
      then show ?thesis using esc True 2(1) [OF esc cs True] by (auto intro: literal.Escape)
    next
      case False
      then obtain h1 h2 h3 h4 hs b' where h: "e = CHR ''u''" "es = h1 # h2 # h3 # h4 # hs"
          "list_all (\<lambda>h. hex_value h \<noteq> None) [h1, h2, h3, h4]" "scan_str hs = Some (b', r)"
          "b = c # e # h1 # h2 # h3 # h4 # b'"
        using 2(4) esc cs by (auto split: if_splits list.splits)
      then show ?thesis using esc 2(2) [OF esc cs False h(1) h(2) refl refl refl h(3,4)] by (auto intro: literal.Unicode)
    qed
  qed
qed

lemma literal_scan: "literal b \<Longrightarrow> scan_str (b @ quote # t) = Some (b, t)"
proof (induction rule: literal.induct)
  case (Unicode h1 h2 h3 h4 b)
  then show ?case by (simp add: is_escape_def quote_def backslash_def)
qed (simp_all add: backslash_def quote_def)

lemma literal_Cons: "literal (c # b) \<Longrightarrow> c \<noteq> backslash \<Longrightarrow> literal b"
  by (erule literal.cases) auto

lemma hex_plain: "hex_value h \<noteq> None \<Longrightarrow> compact_from True (h # t) = h # compact_from True t"
proof -
  assume "hex_value h \<noteq> None"
  then have "h \<noteq> quote \<and> h \<noteq> backslash \<and> \<not> html_unsafe h \<and> h \<noteq> CHR 0xE2"
    by (auto simp: hex_value_def quote_def backslash_def html_unsafe_def Let_def split: if_splits)
  then show ?thesis by (cases "h # t" rule: line_sep.cases) auto
qed

lemma line_sep_quote: "line_sep (c # b @ quote # t) = line_sep (c # b)"
proof (cases b)
  case Nil
  then show ?thesis by (cases t) (simp_all add: quote_def)
next
  case (Cons d b')
  then show ?thesis by (cases b') (simp_all add: quote_def)
qed

lemma line_sep_drop: "line_sep (c # b) = Some r \<Longrightarrow> \<exists>d e. b = d # e # drop 2 b \<and> d \<noteq> backslash \<and> e \<noteq> backslash"
  by (cases "c # b" rule: line_sep.cases) (auto simp: backslash_def split: if_splits)

lemma compact_literal:
  "literal b \<Longrightarrow> compact_from True (b @ quote # t) = compact_from True b @ quote # compact_from False t \<and> literal (compact_from True b)"
proof (induction "length b" arbitrary: b rule: less_induct)
  case less
  from less.prems show ?case
  proof (cases rule: literal.cases)
    case Empty
    then show ?thesis by (simp add: literal.Empty)
  next
    case (Plain c b')
    have IH: "compact_from True (b2 @ quote # t) = compact_from True b2 @ quote # compact_from False t \<and> literal (compact_from True b2)"
      if "literal b2" "length b2 \<le> length b'" for b2 using less.hyps that Plain(1) by simp
    have u: "literal (u_escape n @ b2)" if "literal b2" for n b2
      using that by (simp add: u_escape_def literal.Unicode hex_value_digit)
    show ?thesis
    proof (cases "line_sep (c # b')")
      case None
      then show ?thesis using Plain IH [of b'] u by (auto simp: line_sep_quote intro: literal.Plain)
    next
      case (Some r)
      obtain d e where b: "b' = d # e # drop 2 b'" "d \<noteq> backslash" "e \<noteq> backslash" using line_sep_drop [OF Some] by blast
      then have "literal (drop 2 b')" using Plain(5) literal_Cons by metis
      moreover have "drop 2 (b' @ quote # t) = drop 2 b' @ quote # t" by (subst b(1), subst (2) b(1)) simp
      ultimately show ?thesis using Plain(1-5) Some IH [of "drop 2 b'"] IH [of b'] u by (auto simp: line_sep_quote)
    qed
  next
    case (Escape e b')
    then show ?thesis using less.hyps [of b'] by (auto simp: quote_def backslash_def intro: literal.Escape [unfolded backslash_def])
  next
    case (Unicode h1 h2 h3 h4 b')
    then show ?thesis using less.hyps [of b'] hex_plain
      by (auto simp: quote_def backslash_def intro: literal.Unicode [unfolded backslash_def])
  qed
qed

interpretation copied: json_copy id id "\<lambda>c. [c]"
  by unfold_locales (auto simp: literal_scan dest: scan_str_literal)

interpretation compacted: json_copy "compact_from False" "compact_from True" "\<lambda>_. []"
proof unfold_locales
  fix s b r t assume "scan_str s = Some (b, r)"
  then have "literal b" by (rule scan_str_literal)
  then show "compact_from False (quote # b @ quote # t) = quote # compact_from True b @ quote # compact_from False t"
    "scan_str (compact_from True b @ quote # t) = Some (compact_from True b, t)"
    using compact_literal literal_scan by (auto simp: is_ws_def quote_def)
qed auto

section \<open>More fuel, and what is inside of an object\<close>

lemma scan_mono_aux:
  "(\<forall>d s r. scan_value n d s = Some r \<longrightarrow> scan_value (Suc n) d s = Some r) \<and>
   (\<forall>d s xs r. scan_elems n d s = Some (xs, r) \<longrightarrow> scan_elems (Suc n) d s = Some (xs, r)) \<and>
   (\<forall>d s xs r. scan_members n d s = Some (xs, r) \<longrightarrow> scan_members (Suc n) d s = Some (xs, r))"
proof (induction n)
  case 0
  then show ?case by simp
next
  case (Suc n)
  then have v: "\<And>d s r. scan_value n d s = Some r \<Longrightarrow> scan_value (Suc n) d s = Some r"
    and e: "\<And>d s xs r. scan_elems n d s = Some (xs, r) \<Longrightarrow> scan_elems (Suc n) d s = Some (xs, r)"
    and m: "\<And>d s xs r. scan_members n d s = Some (xs, r) \<Longrightarrow> scan_members (Suc n) d s = Some (xs, r)"
    by blast+
  have "scan_value (Suc (Suc n)) d s = Some r" if a: "scan_value (Suc n) d s = Some r" for d s r
  proof -
    obtain c cs where s: "s = c # cs" using a by (cases s) auto
    have el: "map_option snd (scan_elems (Suc n) d es) = Some r" if "map_option snd (scan_elems n d es) = Some r" for d es
      using that e by (cases "scan_elems n d es") (auto simp del: scan_elems.simps)
    have mb: "map_option snd (scan_members (Suc n) d es) = Some r" if "map_option snd (scan_members n d es) = Some r" for d es
      using that m by (cases "scan_members n d es") (auto simp del: scan_members.simps)
    consider "c = CHR ''[''" | "c = CHR ''{''" | "c \<noteq> CHR ''['' \<and> c \<noteq> CHR ''{''" by blast
    then show ?thesis
    proof cases
      case 1
      then show ?thesis using a s el by (cases "skip_ws cs") (simp_all del: scan_elems.simps split: if_splits)
    next
      case 2
      then show ?thesis using a s mb by (cases "skip_ws cs") (simp_all del: scan_members.simps split: if_splits)
    next
      case 3
      then show ?thesis using a s by simp
    qed
  qed
  moreover have "scan_elems (Suc (Suc n)) d s = Some (xs, r)" if a: "scan_elems (Suc n) d s = Some (xs, r)" for d s xs r
  proof -
    obtain r1 c cs where q: "scan_value n d s = Some r1" "skip_ws r1 = c # cs"
        "c = CHR '','' \<and> (\<exists>xs'. scan_elems n d (skip_ws cs) = Some (xs', r) \<and> xs = slice s r1 # xs') \<or> c = CHR '']'' \<and> xs = [slice s r1] \<and> r = cs"
      using a by (auto split: option.splits list.splits if_splits)
    then show ?thesis using v [OF q(1)] e
      by (subst scan_elems.simps(2)) (auto simp del: scan_elems.simps scan_value.simps)
  qed
  moreover have "scan_members (Suc (Suc n)) d s = Some (xs, r)" if a: "scan_members (Suc n) d s = Some (xs, r)" for d s xs r
  proof -
    obtain qs key r0 r2 r1 c cs where q: "s = quote # qs" "scan_str qs = Some (key, r0)" "skip_ws r0 = CHR '':'' # r2"
        "scan_value n d (skip_ws r2) = Some r1" "skip_ws r1 = c # cs" "c = CHR '','' \<or> c = CHR ''}''"
        "c = CHR '','' \<longrightarrow> (\<exists>xs'. scan_members n d (skip_ws cs) = Some (xs', r) \<and> xs = (key, slice (skip_ws r2) r1) # xs')"
        "c = CHR ''}'' \<longrightarrow> xs = [(key, slice (skip_ws r2) r1)] \<and> r = cs"
      using a by (auto simp: Let_def split: option.splits list.splits if_splits)
    then show ?thesis using v [OF q(4)] m
      by (subst scan_members.simps(2)) (auto simp: Let_def simp del: scan_members.simps scan_value.simps)
  qed
  ultimately show ?case by blast
qed

lemma scan_value_mono: "scan_value n d s = Some r \<Longrightarrow> n \<le> m \<Longrightarrow> scan_value m d s = Some r"
  by (rule dec_induct [of n m]) (use scan_mono_aux in blast)+

lemma scan_members_mono: "scan_members n d s = Some (xs, r) \<Longrightarrow> n \<le> m \<Longrightarrow> scan_members m d s = Some (xs, r)"
  by (rule dec_induct [of n m]) (use scan_mono_aux in blast)+

lemma scan_value_fuel: "scan_value n d s = Some r \<Longrightarrow> scan_value (scan_fuel s) d s = Some r"
  using scan_fuel_enough [of s "max n (scan_fuel s)" s d] scan_value_mono [of n d s r "max n (scan_fuel s)"] by simp

lemma scan_members_fuel: "scan_members n d s = Some (xs, r) \<Longrightarrow> scan_members (scan_fuel s) d s = Some (xs, r)"
proof -
  assume a: "scan_members n d s = Some (xs, r)"
  have "scan_members (max n (scan_fuel s)) d s = scan_members (scan_fuel s) d s"
    by (rule scan_fuel_aux [THEN conjunct2, THEN conjunct2, rule_format]) (auto simp: scan_fuel_def)
  then show ?thesis using scan_members_mono [OF a, of "max n (scan_fuel s)"] by simp
qed

lemma slice_append [simp]: "slice (x @ r) r = x"
  by (simp add: slice_def)

text \<open>The raw value of a member is a value by itself.\<close>

lemma scan_members_values:
  "scan_members n d s = Some (ms, r) \<Longrightarrow> (k, x) \<in> set ms \<Longrightarrow> \<exists>m. scan_value m d x = Some []"
proof (induction n arbitrary: s ms)
  case 0
  then show ?case by simp
next
  case (Suc n)
  then obtain qs key r0 r2 r3 c cs where q: "s = quote # qs" "scan_str qs = Some (key, r0)" "skip_ws r0 = CHR '':'' # r2"
      "scan_value n d (skip_ws r2) = Some r3" "skip_ws r3 = c # cs" "c \<in> {CHR '','', CHR ''}''}"
    by (auto simp: Let_def split: option.splits list.splits if_splits)
  define v where "v = skip_ws r2"
  have v: "scan_value n d v = Some r3" using q(4) by (simp add: v_def)
  obtain ms' where ms': "ms = (key, slice v r3) # ms'" "ms' = [] \<or> scan_members n d (skip_ws cs) = Some (ms', r)"
    using Suc.prems(1) q by (auto simp: Let_def v_def split: if_splits)
  obtain x' where x': "v = x' @ r3" "scan_value n d x' = Some []"
    using copied.scan_value_copy [OF v] by (auto simp: ends_def)
  show ?case
  proof (cases "(k, x) = (key, slice v r3)")
    case True
    then show ?thesis using x' by auto
  next
    case False
    then show ?thesis using Suc.IH [of "skip_ws cs" ms'] Suc.prems(2) ms' by auto
  qed
qed

text \<open>The compacted form of a value is a value at any depth where the value is one.\<close>

lemma compact_value:
  assumes "scan_value n d p = Some []"
  shows "\<forall>t. ends t \<longrightarrow> scan_value n d (compact_from False p @ t) = Some t"
    and "compact_from False p \<noteq> []" "hd (compact_from False p) = hd p" "\<not> is_ws (hd p)" "p \<noteq> []"
proof -
  obtain y where "y \<noteq> []" "hd y = hd p" "\<not> is_ws (hd p)" "p \<noteq> []" "\<forall>t. compact_from False (p @ t) = y @ compact_from False t"
      "\<forall>t. ends t \<longrightarrow> scan_value n d (y @ t) = Some t"
    using compacted.scan_value_copy [OF assms] by auto
  moreover from this(5) have "compact_from False p = y" by (metis append_Nil2 compact_from.simps(1))
  ultimately show "\<forall>t. ends t \<longrightarrow> scan_value n d (compact_from False p @ t) = Some t"
    "compact_from False p \<noteq> []" "hd (compact_from False p) = hd p" "\<not> is_ws (hd p)" "p \<noteq> []"
    by auto
qed

lemma json_Valid_value: "scan_value n 0 p = Some [] \<Longrightarrow> \<not> is_ws (hd p) \<Longrightarrow> json_Valid p"
proof -
  assume a: "scan_value n 0 p = Some []" "\<not> is_ws (hd p)"
  then have "skip_ws p = p" by (cases p) (simp_all add: skip_ws_Cons skip_ws_def)
  then show ?thesis using scan_value_fuel [OF a(1)] by (simp add: json_Valid_def skip_ws_def)
qed

lemma compact_null: "scan_value n d p = Some [] \<Longrightarrow> compact_from False p = ''null'' \<Longrightarrow> p = ''null''"
proof -
  assume a: "scan_value n d p = Some []" "compact_from False p = ''null''"
  then have "hd p = CHR ''n''" using compact_value(3) [OF a(1)] by simp
  then obtain cs where p: "p = CHR ''n'' # cs" using compact_value(5) [OF a(1)] by (cases p) auto
  obtain m where "n = Suc m" using a(1) by (cases n) auto
  then show ?thesis using a(1) p by (auto simp: quote_def strip_prefix_Some)
qed

lemma compact_spaces: "\<forall>c \<in> set w. is_ws c \<Longrightarrow> compact_from False (w @ t) = compact_from False t"
  by (induction w) auto

lemma compact_valid:
  assumes "json_Valid p"
  shows "json_Valid (compact_from False p)"
proof -
  obtain r where r: "scan_value (scan_fuel p) 0 (skip_ws p) = Some r" "skip_ws r = []"
    using assms by (auto simp: json_Valid_def split: option.splits)
  obtain x y where x: "skip_ws p = x @ r" "y \<noteq> []" "hd y = hd x" "\<not> is_ws (hd x)" "\<forall>t. compact_from False (x @ t) = y @ compact_from False t"
      "\<forall>t. ends t \<longrightarrow> scan_value (scan_fuel p) 0 (y @ t) = Some t"
    using compacted.scan_value_copy [OF r(1)] by blast
  obtain w where w: "p = w @ skip_ws p" "\<forall>c \<in> set w. is_ws c" using skip_ws_split by blast
  obtain w' where "r = w'" "\<forall>c \<in> set w'. is_ws c" using skip_ws_split [of r] r(2) by auto
  then have "compact_from False r = []" using compact_spaces [of r "[]"] by simp
  then have "compact_from False p = y" using w x(1,5) compact_spaces [OF w(2)] by (metis append_Nil2)
  moreover have "scan_value (scan_fuel p) 0 y = Some []" using x(6) by (metis append_Nil2 ends_def)
  ultimately show ?thesis using json_Valid_value x(3,4) by metis
qed

end
