(* ===== verification/Go_Calendar.thy ===== *)
theory Go_Calendar
  imports Go_Json
begin

text \<open>
  \<open>time.Time.MarshalJSON\<close>: the date of an instant in the Gregorian calendar and its RFC 3339
  form with nanoseconds, in the offset of the time's location; the parser of \<open>Go_Json\<close>
  reads it back.
\<close>

section \<open>Dates\<close>

text \<open>
  Days since 1 January of year 1 are split into cycles of 400, 100, 4 and 1 years; the last
  of four centuries and of four years may be a day longer.
\<close>

definition civil_year :: "int \<Rightarrow> int \<times> int" where
  "civil_year z =
     (let a = z div 146097; d1 = z mod 146097;
          b = min 3 (d1 div 36524); d2 = d1 - 36524 * b;
          c = d2 div 1461; d3 = d2 mod 1461;
          e = min 3 (d3 div 365); yday = d3 - 365 * e
      in (400 * a + 100 * b + 4 * c + e + 1, yday))"

definition month_start :: "int \<Rightarrow> int \<Rightarrow> int" where
  "month_start y m = days_before_month m + (if 2 < m \<and> is_leap y then 1 else 0)"

definition civil :: "int \<Rightarrow> int \<times> int \<times> int" where
  "civil days =
     (case civil_year (days + 719162) of
        (y, yday) \<Rightarrow>
          let m = last (filter (\<lambda>m. month_start y m \<le> yday) [1, 2, 3, 4, 5, 6, 7, 8, 9, 10, 11, 12])
          in (y, m, yday - month_start y m + 1))"

section \<open>Formatting\<close>

fun pad :: "nat \<Rightarrow> int \<Rightarrow> bytes" where
  "pad 0 n = []"
| "pad (Suc k) n = pad k (n div 10) @ [char_of (48 + nat (n mod 10))]"

definition format_frac :: "int \<Rightarrow> bytes" where
  "format_frac nanos =
     (if nanos = 0 then [] else CHR ''.'' # rev (dropWhile (\<lambda>c. c = CHR ''0'') (rev (pad 9 nanos))))"

definition format_zone :: "int \<Rightarrow> bytes" where
  "format_zone off =
     (if off = 0 then ''Z''
      else let zone = go_div off 60 in
           (if zone < 0 then CHR ''-'' else CHR ''+'') # pad 2 (\<bar>zone\<bar> div 60) @ '':'' @ pad 2 (\<bar>zone\<bar> mod 60))"

text \<open>\<open>off\<close> is the offset of the time's location in seconds; years and offsets out of range are errors.\<close>

definition marshal_time :: "int \<Rightarrow> instant \<Rightarrow> bytes option" where
  "marshal_time off t =
     (let local = t div 1000000000 + off; sod = local mod 86400; (y, m, d) = civil (local div 86400) in
      if y < 0 \<or> 9999 < y \<or> 24 \<le> \<bar>go_div off 60\<bar> div 60 then None
      else Some (pad 4 y @ ''-'' @ pad 2 m @ ''-'' @ pad 2 d @ ''T'' @ pad 2 (sod div 3600) @ '':'' @
                 pad 2 (sod div 60 mod 60) @ '':'' @ pad 2 (sod mod 60) @
                 format_frac (t mod 1000000000) @ format_zone off))"

section \<open>The calendar\<close>

lemma cong_mod: "x = m * k + r \<Longrightarrow> x mod m = r mod m" for x :: int
  by simp

lemma civil_year_ok:
  assumes "civil_year z = (y, yd)"
  shows "z = 365 * (y - 1) + (y - 1) div 4 - (y - 1) div 100 + (y - 1) div 400 + yd"
    and "0 \<le> yd" "yd \<le> (if is_leap y then 365 else 364)"
proof -
  define a d1 where "a = z div 146097" and "d1 = z mod 146097"
  define b where "b = min 3 (d1 div 36524)"
  define d2 where "d2 = d1 - 36524 * b"
  define c d3 where "c = d2 div 1461" and "d3 = d2 mod 1461"
  define e where "e = min 3 (d3 div 365)"
  have y: "y = 400 * a + 100 * b + 4 * c + e + 1" "yd = d3 - 365 * e"
    using assms unfolding civil_year_def Let_def prod.inject a_def d1_def b_def d2_def c_def d3_def e_def by metis+
  have z: "z = 146097 * a + d1" "0 \<le> d1" "d1 < 146097" by (simp_all add: a_def d1_def)
  have b: "0 \<le> b" "b \<le> 3" "0 \<le> d2" "d2 \<le> 36524" "b < 3 \<Longrightarrow> d2 < 36524"
    using z(2,3) by (auto simp: b_def d2_def min_def) 
  have d2: "d2 = 1461 * c + d3" "0 \<le> d3" "d3 < 1461" by (simp_all add: c_def d3_def)
  have c: "0 \<le> c" "c \<le> 24" "c = 24 \<Longrightarrow> b < 3 \<Longrightarrow> d3 < 1460" using b d2 by linarith+
  have e: "0 \<le> e" "e \<le> 3" "0 \<le> yd" "yd \<le> 365" "e < 3 \<Longrightarrow> yd < 365" "yd = 365 \<Longrightarrow> d3 = 1460"
    using d2(2,3) y(2) by (auto simp: e_def min_def split: if_splits)
  define p where "p = y - 1"
  have p: "p = 400 * a + 100 * b + 4 * c + e" using y(1) by (simp add: p_def)
  have q: "p div 4 = 100 * a + 25 * b + c" "p div 100 = 4 * a + b" "p div 400 = a"
    using p b(1,2) c(1,2) e(1,2) by simp_all
  show "z = 365 * (y - 1) + (y - 1) div 4 - (y - 1) div 100 + (y - 1) div 400 + yd"
    using p q z(1) d2(1) y(2) unfolding d2_def by (simp flip: p_def)
  show "0 \<le> yd" by (rule e(3))
  have "is_leap y" if "e = 3" "c < 24 \<or> b = 3"
  proof -
    have "y = 4 * (100 * a + 25 * b + c + 1)" using y(1) that by simp
    moreover have "y mod 100 = (4 * c + 4) mod 100" by (rule cong_mod [of _ _ "4 * a + b"]) (use y(1) that in simp)
    moreover have "y = 400 * (a + 1)" if "c = 24" using y(1) that \<open>e = 3\<close> \<open>c < 24 \<or> b = 3\<close> by simp
    ultimately show ?thesis using c(1,2) by (cases "c = 24") (auto simp: is_leap_def)
  qed
  moreover have "e = 3 \<and> (c < 24 \<or> b = 3)" if "yd = 365" using that e c(2,3) b(2) by force
  ultimately show "yd \<le> (if is_leap y then 365 else 364)" using e(4) by (cases "yd = 365") auto
qed

lemma month_start_eval:
  "month_start y 1 = 0" "month_start y 2 = 31" "month_start y 3 = 59 + (if is_leap y then 1 else 0)"
  "month_start y 4 = 90 + (if is_leap y then 1 else 0)" "month_start y 5 = 120 + (if is_leap y then 1 else 0)"
  "month_start y 6 = 151 + (if is_leap y then 1 else 0)" "month_start y 7 = 181 + (if is_leap y then 1 else 0)"
  "month_start y 8 = 212 + (if is_leap y then 1 else 0)" "month_start y 9 = 243 + (if is_leap y then 1 else 0)"
  "month_start y 10 = 273 + (if is_leap y then 1 else 0)" "month_start y 11 = 304 + (if is_leap y then 1 else 0)"
  "month_start y 12 = 334 + (if is_leap y then 1 else 0)"
  by (simp_all add: month_start_def days_before_month_def)

lemma month_ok:
  assumes "0 \<le> yd" "yd \<le> (if is_leap y then 365 else 364)"
    and m: "m = last (filter (\<lambda>m. month_start y m \<le> yd) [1, 2, 3, 4, 5, 6, 7, 8, 9, 10, 11, 12])"
  shows "1 \<le> m \<and> m \<le> 12 \<and> month_start y m \<le> yd \<and> yd - month_start y m + 1 \<le> days_in m y"
proof -
  define l where "l = (if is_leap y then 1 else 0 :: int)"
  have l: "0 \<le> l" "l \<le> 1" "yd \<le> 364 + l" using assms(2) by (auto simp: l_def)
  have feb: "days_in 2 y = 28 + l" by (simp add: days_in_def l_def)
  consider "yd < 31" | "31 \<le> yd" "yd < 59 + l" | "59 + l \<le> yd" "yd < 90 + l" | "90 + l \<le> yd" "yd < 120 + l"
    | "120 + l \<le> yd" "yd < 151 + l" | "151 + l \<le> yd" "yd < 181 + l" | "181 + l \<le> yd" "yd < 212 + l"
    | "212 + l \<le> yd" "yd < 243 + l" | "243 + l \<le> yd" "yd < 273 + l" | "273 + l \<le> yd" "yd < 304 + l"
    | "304 + l \<le> yd" "yd < 334 + l" | "334 + l \<le> yd"
    using assms(1) by linarith
  then show ?thesis
    by cases (use assms(1) l feb m in \<open>simp_all add: month_start_eval flip: l_def\<close>, simp_all add: days_in_def)
qed

lemma civil_ok:
  assumes "civil days = (y, m, d)"
  shows "days_civil y m d = days" "1 \<le> m" "m \<le> 12" "1 \<le> d" "d \<le> days_in m y"
proof -
  obtain yd where yd: "civil_year (days + 719162) = (y, yd)" using assms by (auto simp: civil_def Let_def split: prod.splits)
  note c = civil_year_ok [OF yd]
  have m: "m = last (filter (\<lambda>m. month_start y m \<le> yd) [1, 2, 3, 4, 5, 6, 7, 8, 9, 10, 11, 12])" "d = yd - month_start y m + 1"
    using assms yd by (auto simp: civil_def Let_def)
  note mo = month_ok [OF c(2,3) m(1)]
  show "1 \<le> m" "m \<le> 12" "1 \<le> d" "d \<le> days_in m y" using mo m(2) by auto
  show "days_civil y m d = days" using c(1) m(2) by (simp add: days_civil_def month_start_def Let_def)
qed

section \<open>Digits\<close>

lemma length_pad [simp]: "length (pad k n) = k"
  by (induction k arbitrary: n) auto

lemma is_digit_char: "is_digit (char_of (48 + nat (n mod 10)))" for n :: int
proof -
  have "nat (n mod 10) < 10" by (simp add: nat_less_iff)
  then show ?thesis by (simp add: is_digit_def take_bit_eq_mod Let_def)
qed

lemma nat_mod_10: "int (nat (n mod 10)) = n mod 10"
  by simp

lemma of_char_digit: "(of_char (char_of (48 + nat (n mod 10))) :: int) - 48 = n mod 10" for n :: int
proof -
  have "nat (n mod 10) < 10" by (simp add: nat_less_iff)
  then have "of_char (char_of (48 + nat (n mod 10))) = 48 + nat (n mod 10)" by (simp add: take_bit_eq_mod)
  then have "(of_nat (of_char (char_of (48 + nat (n mod 10)))) :: int) = 48 + n mod 10"
    by (simp only: of_nat_add of_nat_numeral nat_mod_10)
  then show ?thesis by (simp only: of_nat_of_char diff_eq_eq add.commute)
qed

lemma pad_digits: "list_all is_digit (pad k n)"
  by (induction k arbitrary: n) (auto simp: is_digit_char)

lemma pad_value: "0 \<le> n \<Longrightarrow> n < 10 ^ k \<Longrightarrow> foldl (\<lambda>v c. 10 * v + (of_char c - 48)) 0 (pad k n) = n"
proof (induction k arbitrary: n)
  case 0
  then show ?case by simp
next
  case (Suc k)
  have "n div 10 < 10 ^ k" using Suc.prems(2) by (simp add: div_less_iff_less_mult mult.commute)
  then have "foldl (\<lambda>v c. 10 * v + (of_char c - 48)) 0 (pad k (n div 10)) = n div 10" using Suc by (simp add: pos_imp_zdiv_nonneg_iff)
  then show ?case by (simp add: of_char_digit)
qed

lemma parse_digits_pad: "0 \<le> n \<Longrightarrow> n < 10 ^ k \<Longrightarrow> 0 < k \<Longrightarrow> parse_digits (pad k n) = Some n"
  using pad_value [of n k] pad_digits [of k n] length_pad [of k n] by (auto simp: parse_digits_def simp del: length_pad)

lemma parse_uint_pad: "0 \<le> n \<Longrightarrow> n < 10 ^ k \<Longrightarrow> 0 < k \<Longrightarrow> lo \<le> n \<Longrightarrow> n \<le> hi \<Longrightarrow> parse_uint (pad k n) lo hi = Some n"
  by (simp add: parse_uint_def parse_digits_pad)

lemma dropWhile_rev_zeros:
  "\<exists>k. xs = rev (dropWhile (\<lambda>c. c = z) (rev xs)) @ replicate k z"
proof -
  have "rev xs = takeWhile (\<lambda>c. c = z) (rev xs) @ dropWhile (\<lambda>c. c = z) (rev xs)" by simp
  moreover have "takeWhile (\<lambda>c. c = z) (rev xs) = replicate (length (takeWhile (\<lambda>c. c = z) (rev xs))) z"
    by (rule replicate_length_same [symmetric]) (auto dest: set_takeWhileD)
  ultimately have "xs = rev (dropWhile (\<lambda>c. c = z) (rev xs)) @ rev (replicate (length (takeWhile (\<lambda>c. c = z) (rev xs))) z)"
    by (metis rev_append rev_rev_ident)
  then show ?thesis by auto
qed

lemma pad_9_zeros: "set (pad k n) \<subseteq> {CHR ''0''} \<Longrightarrow> 0 \<le> n \<Longrightarrow> n < 10 ^ k \<Longrightarrow> n = 0"
proof -
  assume "set (pad k n) \<subseteq> {CHR ''0''}" "0 \<le> n" "n < 10 ^ k"
  moreover have "foldl (\<lambda>v c. 10 * v + (of_char c - 48)) (0 :: int) xs = 0" if "set xs \<subseteq> {CHR ''0''}" for xs
    using that by (induction xs) auto
  ultimately show ?thesis using pad_value [of n k] by metis
qed

lemma format_frac_ok:
  assumes "0 \<le> n" "n < 1000000000" "n \<noteq> 0"
  obtains ds where "format_frac n = CHR ''.'' # ds" "ds \<noteq> []" "list_all is_digit ds" "parse_nanos ds = n"
proof -
  define ds where "ds = rev (dropWhile (\<lambda>c. c = CHR ''0'') (rev (pad 9 n)))"
  obtain k where k: "pad 9 n = ds @ replicate k (CHR ''0'')"
    using dropWhile_rev_zeros [of "pad 9 n" "CHR ''0''"] by (auto simp: ds_def)
  have len: "length ds + k = 9" using arg_cong [OF k, of length] by simp
  then have "take 9 (ds @ replicate 9 (CHR ''0'')) = ds @ replicate k (CHR ''0'')"
    by (simp add: take_replicate min_def)
  then have "parse_nanos ds = n" using pad_value [of n 9] assms(1,2) k by (simp add: parse_nanos_def)
  moreover have "list_all is_digit ds" using pad_digits [of 9 n] k by simp
  moreover have "ds \<noteq> []"
  proof
    assume "ds = []"
    then have "set (pad 9 n) \<subseteq> {CHR ''0''}" using k by auto
    then show False using pad_9_zeros [of 9 n] assms by simp
  qed
  ultimately show ?thesis using that assms(3) by (simp add: format_frac_def ds_def)
qed

text \<open>Offsets that \<open>MarshalJSON\<close> can write exactly: whole minutes, less than a day.\<close>

definition zone_ok :: "int \<Rightarrow> bool" where
  "zone_ok off \<longleftrightarrow> off mod 60 = 0 \<and> \<bar>off\<bar> < 86400"

lemma format_zone_ok:
  assumes "zone_ok off"
  shows "parse_zone 23 59 (format_zone off) = Some off" "\<bar>go_div off 60\<bar> div 60 < 24"
    "format_zone off \<noteq> []" "hd (format_zone off) \<in> {CHR ''Z'', CHR ''+'', CHR ''-''}"
proof -
  obtain k where k: "off = 60 * k" using assms by (auto simp: zone_ok_def)
  have "go_div off 60 = k" by (simp add: go_div_def k abs_mult sgn_mult sgn_mult_abs)
  moreover have "\<bar>k\<bar> < 1440" using assms k by (simp add: zone_ok_def abs_mult)
  ultimately have g: "go_div off 60 = k" "\<bar>k\<bar> div 60 < 24" "0 \<le> \<bar>k\<bar> div 60" "0 \<le> \<bar>k\<bar> mod 60" "\<bar>k\<bar> mod 60 < 60" by auto
  then show "\<bar>go_div off 60\<bar> div 60 < 24" by simp
  show "format_zone off \<noteq> []" "hd (format_zone off) \<in> {CHR ''Z'', CHR ''+'', CHR ''-''}"
    by (simp_all add: format_zone_def Let_def)
  obtain h1 h2 where h: "pad 2 (\<bar>k\<bar> div 60) = [h1, h2]" using length_pad [of 2 "\<bar>k\<bar> div 60"] by (auto simp: length_Suc_conv numeral_2_eq_2)
  obtain m1 m2 where m: "pad 2 (\<bar>k\<bar> mod 60) = [m1, m2]" using length_pad [of 2 "\<bar>k\<bar> mod 60"] by (auto simp: length_Suc_conv numeral_2_eq_2)
  have p: "parse_uint [h1, h2] 0 23 = Some (\<bar>k\<bar> div 60)" "parse_uint [m1, m2] 0 59 = Some (\<bar>k\<bar> mod 60)"
    using parse_uint_pad [of "\<bar>k\<bar> div 60" 2 0 23] parse_uint_pad [of "\<bar>k\<bar> mod 60" 2 0 59] g h m by simp_all
  have v: "(\<bar>k\<bar> div 60 * 60 + \<bar>k\<bar> mod 60) * 60 = 60 * \<bar>k\<bar>"
    unfolding div_mult_mod_eq by simp
  show "parse_zone 23 59 (format_zone off) = Some off"
    using p v k g(1) h m by (auto simp: format_zone_def parse_zone_def Let_def)
qed

lemma explicit_pads:
  "\<exists>a b c d. pad 4 n = [a, b, c, d]" "\<exists>a b. pad 2 n = [a, b]"
  using length_pad [of 4 n] length_pad [of 2 n] by (auto simp: length_Suc_conv numeral_eq_Suc)

lemma frac_split:
  assumes "0 \<le> n" "n < 1000000000" "z \<noteq> []" "hd z \<in> {CHR ''Z'', CHR ''+'', CHR ''-''}" "rest = format_frac n @ z"
    and frac: "frac = (case rest of
        c # d # ds \<Rightarrow> if (c = CHR ''.'' \<or> (False \<and> c = CHR '','')) \<and> is_digit d then takeWhile is_digit (d # ds) else []
      | _ \<Rightarrow> [])"
  shows "parse_nanos frac = n \<and> (if frac = [] then rest else drop (Suc (length frac)) rest) = z"
proof (cases "n = 0")
  case True
  have "parse_nanos [] = 0" by (simp add: parse_nanos_def numeral_eq_Suc)
  moreover have "frac = []" using assms(3,4,5) frac True by (auto simp: format_frac_def split: list.splits)
  ultimately show ?thesis using True assms(5) by (simp add: format_frac_def)
next
  case False
  obtain ds where ds: "format_frac n = CHR ''.'' # ds" "ds \<noteq> []" "list_all is_digit ds" "parse_nanos ds = n"
    using format_frac_ok [OF assms(1,2) False] .
  have "\<not> is_digit (hd z)" using assms(4) by (auto simp: is_digit_def)
  then have "takeWhile is_digit (ds @ z) = ds" using ds(3) assms(3) by (cases z) (auto simp: list_all_iff takeWhile_append)
  then have "frac = ds" using frac assms(5) ds(1-3) by (cases ds) auto
  then show ?thesis using ds assms(5) by simp
qed

lemma marshal_time_parse:
  assumes "marshal_time off t = Some b" "zone_ok off"
  shows "parseRFC3339 b = Some t"
proof -
  define loc sod where "loc = t div 1000000000 + off" and "sod = loc mod 86400"
  obtain y m d where ymd: "civil (loc div 86400) = (y, m, d)" by (metis prod_cases3)
  note c = civil_ok [OF ymd]
  have y: "0 \<le> y" "y \<le> 9999" and b: "b = pad 4 y @ ''-'' @ pad 2 m @ ''-'' @ pad 2 d @ ''T'' @ pad 2 (sod div 3600) @ '':'' @
        pad 2 (sod div 60 mod 60) @ '':'' @ pad 2 (sod mod 60) @ format_frac (t mod 1000000000) @ format_zone off"
    using assms(1) ymd by (auto simp: marshal_time_def Let_def loc_def sod_def split: if_splits)
  have sod: "0 \<le> sod" "sod < 86400" by (simp_all add: sod_def)
  have "days_in m y \<le> 31" by (simp add: days_in_def)
  then have dom: "d \<le> 31" using c(5) by simp
  have u: "parse_uint (pad 4 y) 0 9999 = Some y" "parse_uint (pad 2 m) 1 12 = Some m" "parse_uint (pad 2 d) 1 31 = Some d"
    "parse_uint (pad 2 (sod div 3600)) 0 23 = Some (sod div 3600)" "parse_uint (pad 2 (sod div 60 mod 60)) 0 59 = Some (sod div 60 mod 60)"
    "parse_uint (pad 2 (sod mod 60)) 0 59 = Some (sod mod 60)"
    using y c(2-4) dom sod by (auto intro!: parse_uint_pad)
  define rest where "rest = format_frac (t mod 1000000000) @ format_zone off"
  note z = format_zone_ok [OF assms(2)]
  obtain a1 a2 a3 a4 m1 m2 d1 d2 h1 h2 i1 i2 s1 s2 where e: "pad 4 y = [a1, a2, a3, a4]" "pad 2 m = [m1, m2]" "pad 2 d = [d1, d2]"
      "pad 2 (sod div 3600) = [h1, h2]" "pad 2 (sod div 60 mod 60) = [i1, i2]" "pad 2 (sod mod 60) = [s1, s2]"
    using explicit_pads by metis
  have b': "b = a1 # a2 # a3 # a4 # CHR ''-'' # m1 # m2 # CHR ''-'' # d1 # d2 # CHR ''T'' # h1 # h2 # CHR '':'' # i1 # i2 # CHR '':'' # s1 # s2 # rest"
    using b e by (simp add: rest_def)
  have v: "(days_civil y m d * 86400 + sod div 3600 * 3600 + sod div 60 mod 60 * 60 + sod mod 60 - off) * 1000000000 + t mod 1000000000 = t"
  proof -
    have "sod div 3600 * 3600 + sod div 60 mod 60 * 60 + sod mod 60 = sod"
    proof -
      have "sod div 3600 = sod div 60 div 60" by (simp flip: zdiv_zmult2_eq)
      then show ?thesis using div_mult_mod_eq [of "sod div 60" 60] div_mult_mod_eq [of sod 60] by linarith
    qed
    then have "days_civil y m d * 86400 + sod div 3600 * 3600 + sod div 60 mod 60 * 60 + sod mod 60 = loc"
      using c(1) div_mult_mod_eq [of loc 86400] unfolding sod_def by linarith
    then show ?thesis by (simp add: loc_def)
  qed
  define frac where "frac = (case rest of
        c # d # ds \<Rightarrow> if (c = CHR ''.'' \<or> (False \<and> c = CHR '','')) \<and> is_digit d then takeWhile is_digit (d # ds) else []
      | _ \<Rightarrow> [])"
  have f: "parse_nanos frac = t mod 1000000000" "(if frac = [] then rest else drop (Suc (length frac)) rest) = format_zone off"
    using frac_split [OF _ _ z(3,4) rest_def frac_def] by simp_all
  have parts: "\<not> length b < 19" "drop 19 b = rest" "take 4 b = [a1, a2, a3, a4]" "take 2 (drop 5 b) = [m1, m2]" "take 2 (drop 8 b) = [d1, d2]"
    "take 2 (drop 11 b) = [h1, h2]" "take 2 (drop 14 b) = [i1, i2]" "take 2 (drop 17 b) = [s1, s2]"
    "b ! 4 = CHR ''-''" "b ! 7 = CHR ''-''" "b ! 10 = CHR ''T''" "b ! 13 = CHR '':''" "b ! 16 = CHR '':''"
    by (simp_all add: b' numeral_eq_Suc)
  show ?thesis
    unfolding parseRFC3339_def parse_timestamp_def Let_def if_False parts(2-) u [unfolded e] frac_def [symmetric] f z(1)
    using parts(1) c(5) v by simp
qed

section \<open>Every parsed time can be written\<close>

definition year_start :: "int \<Rightarrow> int" where
  "year_start p = 365 * p + p div 4 - p div 100 + p div 400"

lemma div_step: "0 < k \<Longrightarrow> y div k - (y - 1) div k = (if y mod k = 0 then 1 else 0)" for y k :: int
proof -
  assume k: "0 < k"
  define q r where "q = y div k" and "r = y mod k"
  have y: "y = k * q + r" "0 \<le> r" "r < k" using k by (simp_all add: q_def r_def)
  have "(y - 1) div k = (if r = 0 then q - 1 else q)"
  proof (cases "r = 0")
    case True
    then have "y - 1 = k * (q - 1) + (k - 1)" using y(1) by (simp add: algebra_simps)
    then show ?thesis using True k int_div_pos_eq [of "y - 1" k "q - 1" "k - 1"] by simp
  next
    case False
    then have "y - 1 = k * q + (r - 1)" using y(1) by simp
    then show ?thesis using False y(2,3) int_div_pos_eq [of "y - 1" k q "r - 1"] by simp
  qed
  then show ?thesis by (simp add: q_def r_def)
qed

lemma year_start_step: "year_start y - year_start (y - 1) = (if is_leap y then 366 else 365)"
proof -
  have m: "y mod 100 = 0 \<Longrightarrow> y mod 4 = 0" "y mod 400 = 0 \<Longrightarrow> y mod 100 = 0"
  proof -
    have d: "4 dvd (100 :: int)" "100 dvd (400 :: int)" by simp_all
    show "y mod 100 = 0 \<Longrightarrow> y mod 4 = 0" by (metis d(1) mod_0 mod_mod_cancel)
    show "y mod 400 = 0 \<Longrightarrow> y mod 100 = 0" by (metis d(2) mod_0 mod_mod_cancel)
  qed
  have "year_start y - year_start (y - 1) =
      365 + (y div 4 - (y - 1) div 4) - (y div 100 - (y - 1) div 100) + (y div 400 - (y - 1) div 400)"
  proof -
    have "(365 * y + a - b + c) - (365 * (y - 1) + a' - b' + c') = 365 + (a - a') - (b - b') + (c - c')" for a b c a' b' c' :: int
      by simp
    then show ?thesis unfolding year_start_def by blast
  qed
  also have "\<dots> = 365 + (if y mod 4 = 0 then 1 else 0) - (if y mod 100 = 0 then 1 else 0) + (if y mod 400 = 0 then 1 else 0)"
    by (simp only: div_step zero_less_numeral)
  also have "\<dots> = (if is_leap y then 366 else 365)"
    using m unfolding is_leap_def by (cases "y mod 4 = 0"; cases "y mod 100 = 0"; cases "y mod 400 = 0") (simp_all only: simp_thms if_True if_False)
  finally show ?thesis .
qed

lemma year_start_mono: "p \<le> q \<Longrightarrow> year_start p \<le> year_start q"
proof (induction q rule: int_ge_induct)
  case (step i)
  then show ?case using year_start_step [of "i + 1"] by (auto split: if_splits)
qed simp

lemma year_unique:
  assumes "year_start (y - 1) + a = year_start (z - 1) + b"
    and "0 \<le> a" "a \<le> (if is_leap y then 365 else 364)" "0 \<le> b" "b \<le> (if is_leap z then 365 else 364)"
  shows "y = z"
proof -
  have less: False if "y < z" "year_start (y - 1) + a = year_start (z - 1) + b" "a \<le> (if is_leap y then 365 else 364)" "0 \<le> b" for y z a b
    using year_start_mono [of y "z - 1"] year_start_step [of y] that by (auto split: if_splits)
  show ?thesis using less [of y z a b] less [of z y b a] assms by (cases y z rule: linorder_cases) auto
qed

lemma day_of_year:
  assumes "1 \<le> m" "m \<le> 12" "1 \<le> d" "d \<le> days_in m y"
  shows "days_civil y m d + 719162 = year_start (y - 1) + (month_start y m + d - 1)"
    "0 \<le> month_start y m + d - 1" "month_start y m + d - 1 \<le> (if is_leap y then 365 else 364)"
proof -
  show "days_civil y m d + 719162 = year_start (y - 1) + (month_start y m + d - 1)"
    by (simp add: days_civil_def year_start_def month_start_def Let_def)
  have "m \<in> {1, 2, 3, 4, 5, 6, 7, 8, 9, 10, 11, 12}" using assms(1,2) by simp presburger
  then have "0 \<le> month_start y m \<and> month_start y m + days_in m y \<le> (if is_leap y then 366 else 365)"
    by (elim insertE) (simp_all add: month_start_eval days_in_def)
  then show "0 \<le> month_start y m + d - 1" "month_start y m + d - 1 \<le> (if is_leap y then 365 else 364)"
    using assms(3,4) by (auto split: if_splits)
qed

lemma civil_year_unique:
  assumes "1 \<le> m" "m \<le> 12" "1 \<le> d" "d \<le> days_in m y" "civil (days_civil y m d) = (y', m', d')"
  shows "y' = y"
proof -
  obtain yd where yd: "civil_year (days_civil y m d + 719162) = (y', yd)" using assms(5) by (auto simp: civil_def Let_def split: prod.splits)
  note c = civil_year_ok [OF yd] and day = day_of_year [OF assms(1-4)]
  have "year_start (y' - 1) + yd = year_start (y - 1) + (month_start y m + d - 1)" using c(1) day(1) by (simp add: year_start_def)
  then show ?thesis using year_unique [OF _ c(2,3) day(2,3)] by blast
qed

lemma parse_uint_range: "parse_uint s lo hi = Some n \<Longrightarrow> lo \<le> n \<and> n \<le> hi"
  by (auto simp: parse_uint_def split: option.splits if_splits)

lemma parse_zone_ok: "parse_zone 23 59 z = Some off \<Longrightarrow> zone_ok off"
  by (auto simp: parse_zone_def zone_ok_def split: if_splits list.splits option.splits dest!: parse_uint_range)

lemma digits_range:
  "list_all is_digit ds \<Longrightarrow> 0 \<le> v \<Longrightarrow> 0 \<le> foldl (\<lambda>v c. 10 * v + (of_char c - 48)) v ds \<and>
     foldl (\<lambda>v c. 10 * v + (of_char c - 48)) v ds < (v + 1) * 10 ^ length ds" for v :: int
proof (induction ds arbitrary: v)
  case Nil
  then show ?case by simp
next
  case (Cons c ds)
  have c: "48 \<le> (of_char c :: int)" "(of_char c :: int) \<le> 57"
  proof -
    have "(of_char c :: int) = int (of_char c)" by (simp only: of_nat_of_char)
    moreover have "48 \<le> (of_char c :: nat)" "(of_char c :: nat) \<le> 57" using Cons.prems(1) by (simp_all add: is_digit_def Let_def)
    ultimately show "48 \<le> (of_char c :: int)" "(of_char c :: int) \<le> 57" by linarith+
  qed
  then have "0 \<le> 10 * v + (of_char c - 48)" using Cons.prems(2) by simp
  note IH = Cons.IH [OF _ this]
  have "(10 * v + (of_char c - 48) + 1) * 10 ^ length ds \<le> (v + 1) * 10 * 10 ^ length ds"
    using c by (intro mult_right_mono) auto
  moreover have "0 \<le> foldl (\<lambda>v c. 10 * v + (of_char c - 48)) (10 * v + (of_char c - 48)) ds \<and>
      foldl (\<lambda>v c. 10 * v + (of_char c - 48)) (10 * v + (of_char c - 48)) ds < (10 * v + (of_char c - 48) + 1) * 10 ^ length ds"
    using IH Cons.prems(1) by simp
  ultimately show ?case unfolding foldl_Cons list.size add_Suc_right add_0_right power_Suc mult.assoc [symmetric] by (meson less_le_trans)
qed

lemma parse_nanos_range: "list_all is_digit ds \<Longrightarrow> 0 \<le> parse_nanos ds \<and> parse_nanos ds < 1000000000"
proof -
  assume ds: "list_all is_digit ds"
  define xs where "xs = take 9 (ds @ replicate 9 (CHR ''0''))"
  have "is_digit (CHR ''0'')" by (simp add: is_digit_def)
  then have "list_all is_digit xs" "length xs = 9" using ds by (auto simp: xs_def list_all_iff dest: in_set_takeD)
  then show ?thesis using digits_range [of xs 0] unfolding parse_nanos_def xs_def [symmetric] by simp
qed

lemma parsed_time_written:
  assumes "parseRFC3339 b = Some t"
  shows "\<exists>off. zone_ok off \<and> marshal_time off t \<noteq> None"
proof -
  define rest where "rest = drop 19 b"
  define frac where "frac = (case rest of
        c # d # ds \<Rightarrow> if (c = CHR ''.'' \<or> (False \<and> c = CHR '','')) \<and> is_digit d then takeWhile is_digit (d # ds) else []
      | _ \<Rightarrow> [])"
  define zone where "zone = (if frac = [] then rest else drop (Suc (length frac)) rest)"
  obtain y m d h i s off where p: "parse_uint (take 4 b) 0 9999 = Some y" "parse_uint (take 2 (drop 5 b)) 1 12 = Some m"
      "parse_uint (take 2 (drop 8 b)) 1 31 = Some d" "parse_uint (take 2 (drop 11 b)) 0 23 = Some h"
      "parse_uint (take 2 (drop 14 b)) 0 59 = Some i" "parse_uint (take 2 (drop 17 b)) 0 59 = Some s"
      "parse_zone 23 59 zone = Some off" "d \<le> days_in m y"
      "t = (days_civil y m d * 86400 + h * 3600 + i * 60 + s - off) * 1000000000 + parse_nanos frac"
    using assms unfolding parseRFC3339_def parse_timestamp_def Let_def if_False
      rest_def [symmetric] frac_def [symmetric] zone_def [symmetric]
    by (auto split: if_splits option.splits)
  note r = p(1-6) [THEN parse_uint_range]
  have "list_all is_digit frac" by (auto simp: frac_def list_all_iff dest: set_takeWhileD split: list.split)
  then have n: "0 \<le> parse_nanos frac" "parse_nanos frac < 1000000000" using parse_nanos_range by auto
  define sod where "sod = h * 3600 + i * 60 + s"
  have sod: "0 \<le> sod" "sod < 86400" using r unfolding sod_def by linarith+
  have "t div 1000000000 + off = 86400 * days_civil y m d + sod"
    using p(9) n int_div_pos_eq [of t 1000000000 "days_civil y m d * 86400 + sod - off" "parse_nanos frac"] by (simp add: sod_def)
  then have loc: "(t div 1000000000 + off) div 86400 = days_civil y m d" using sod by simp
  obtain y' m' d' where c: "civil (days_civil y m d) = (y', m', d')" by (metis prod_cases3)
  have "y' = y" using civil_year_unique [OF _ _ _ p(8) c] r by simp
  moreover have z: "zone_ok off" using parse_zone_ok [OF p(7)] .
  ultimately have "marshal_time off t \<noteq> None"
    using c loc r format_zone_ok(2) [OF z] by (simp add: marshal_time_def Let_def)
  then show ?thesis using z by blast
qed

end
