(* ===== verification/Event_Codec.thy ===== *)
theory Event_Codec
  imports Events Go_Compact Go_Calendar
begin

text \<open>
  \<open>json.Marshal\<close> of an event, as the Kafka producer calls it, and the round trip with the
  \<open>json.Unmarshal\<close> of the consumers. A \<open>time.Time\<close> is written in the offset of its
  location, which the instant of the model does not carry: it is the argument \<open>off\<close>.
\<close>

section \<open>Encoding\<close>

definition member :: "bytes \<Rightarrow> bytes \<Rightarrow> bytes" where
  "member name v = quote # name @ quote # CHR '':'' # v"

text \<open>A nil \<open>json.RawMessage\<close> is written as \<open>null\<close>.\<close>

definition Marshal_event :: "int \<Rightarrow> event \<Rightarrow> bytes option" where
  "Marshal_event off e =
     (case (marshal_time off (Timestamp e), if Payload e = [] then Some ''null'' else marshal_raw (Payload e)) of
        (Some ts, Some p) \<Rightarrow>
          Some (CHR ''{'' # member ''tenantId'' (quote_string (TenantID e)) @ '','' @
                member ''eventId'' (quote_string (EventID e)) @ '','' @
                member ''type'' (quote_string (Type e)) @ '','' @
                member ''timestamp'' (quote # ts @ [quote]) @ '','' @
                member ''payload'' p @ ''}'')
      | _ \<Rightarrow> None)"

section \<open>Scanning what was written\<close>

text \<open>Characters that stand for themselves in a literal.\<close>

definition plain :: "char \<Rightarrow> bool" where
  "plain c \<longleftrightarrow> c \<noteq> quote \<and> c \<noteq> backslash \<and> 32 \<le> (of_char c :: nat)"

lemma scan_str_plain: "list_all plain p \<Longrightarrow> scan_str (p @ quote # t) = Some (p, t)"
  by (rule literal_scan) (induction p; auto simp: plain_def intro: literal.intros)

lemma plain_chars [simp]:
  "plain (CHR ''-'')" "plain (CHR ''T'')" "plain (CHR '':'')" "plain (CHR ''.'')" "plain (CHR ''Z'')" "plain (CHR ''+'')"
  by (simp_all add: plain_def quote_def backslash_def)

lemma is_digit_plain: "is_digit c \<Longrightarrow> plain c"
  by (auto simp: plain_def is_digit_def quote_def backslash_def Let_def)

lemma pad_plain [simp]: "list_all plain (pad k n)"
  using pad_digits [of k n] is_digit_plain by (auto simp: list_all_iff)

lemma format_plain [simp]: "list_all plain (format_frac n)" "list_all plain (format_zone off)"
proof -
  have "list_all plain (rev (dropWhile P (rev xs)))" if "list_all plain xs" for P xs
    using that by (auto simp: list_all_iff dest: set_dropWhileD)
  then show "list_all plain (format_frac n)" by (simp add: format_frac_def)
  show "list_all plain (format_zone off)" by (simp add: format_zone_def Let_def)
qed

lemma time_plain: "marshal_time off t = Some b \<Longrightarrow> list_all plain b"
  by (auto simp: marshal_time_def Let_def simp del: list_all_iff split: prod.splits if_splits)

definition reads :: "int \<Rightarrow> bytes \<Rightarrow> bool" where
  "reads d v \<longleftrightarrow> (\<exists>n. \<forall>t. ends t \<longrightarrow> scan_value n d (v @ t) = Some t) \<and> v \<noteq> [] \<and> \<not> is_ws (hd v)"

lemma reads_literal: "(\<And>t. scan_str (b @ quote # t) = Some (b, t)) \<Longrightarrow> reads d (quote # b @ [quote])"
proof -
  assume b: "\<And>t. scan_str (b @ quote # t) = Some (b, t)"
  have "quote \<noteq> CHR ''[''" "quote \<noteq> CHR ''{''" "\<not> is_ws quote" by (simp_all add: quote_def is_ws_def)
  then show ?thesis using b unfolding reads_def by (intro conjI exI [of _ "Suc 0"]) simp_all
qed

lemma scan_last_member:
  assumes "reads d v" "\<And>t. scan_str (name @ quote # t) = Some (name, t)"
  shows "\<exists>n. scan_members n d (member name v @ CHR ''}'' # t) = Some ([(name, v)], t)"
proof -
  obtain n where "\<And>t. ends t \<Longrightarrow> scan_value n d (v @ t) = Some t" using assms(1) by (auto simp: reads_def)
  then have n: "scan_value n d (v @ CHR ''}'' # t) = Some (CHR ''}'' # t)" by (simp add: ends_def)
  have "skip_ws (v @ CHR ''}'' # t) = v @ CHR ''}'' # t" using assms(1) by (cases v) (auto simp: reads_def skip_ws_Cons)
  then show ?thesis using n assms(2) by (intro exI [of _ "Suc n"]) (simp add: member_def Let_def skip_ws_Cons is_ws_def)
qed

lemma scan_next_member:
  assumes "reads d v" "\<And>t. scan_str (name @ quote # t) = Some (name, t)" "\<exists>n. scan_members n d ms = Some (xs, t)" "\<not> is_ws (hd ms)"
  shows "\<exists>n. scan_members n d (member name v @ '','' @ ms) = Some ((name, v) # xs, t)"
proof -
  obtain n where n: "\<And>t. ends t \<Longrightarrow> scan_value n d (v @ t) = Some t" using assms(1) by (auto simp: reads_def)
  obtain m where m: "scan_members m d ms = Some (xs, t)" using assms(3) by blast
  have v: "scan_value (max n m) d (v @ CHR '','' # ms) = Some (CHR '','' # ms)"
    by (rule scan_value_mono [OF n]) (simp_all add: ends_def)
  have ms: "scan_members (max n m) d ms = Some (xs, t)" by (rule scan_members_mono [OF m]) simp
  have "ms \<noteq> []" using m by (cases m) auto
  then have "skip_ws ms = ms" using assms(4) by (cases ms) (simp_all add: skip_ws_Cons)
  moreover have "skip_ws (v @ CHR '','' # ms) = v @ CHR '','' # ms" using assms(1) by (cases v) (auto simp: reads_def skip_ws_Cons)
  ultimately show ?thesis using v ms assms(2)
    by (intro exI [of _ "Suc (max n m)"]) (simp add: member_def Let_def skip_ws_Cons is_ws_def)
qed

lemma scan_object:
  assumes "\<exists>n. scan_members n 1 ms = Some (xs, [])" "ms \<noteq> []" "hd ms = quote"
  shows "json_Valid (CHR ''{'' # ms)" "decoder_next (CHR ''{'' # ms) = Value (CHR ''{'' # ms) []" "raw_object (CHR ''{'' # ms) = Some xs"
proof -
  obtain n where n: "scan_members n 1 ms = Some (xs, [])" using assms(1) by blast
  obtain ms' where ms: "ms = quote # ms'" using assms(2,3) by (cases ms) auto
  have sk: "skip_ws ms = ms" "skip_ws (CHR ''{'' # ms) = CHR ''{'' # ms" by (simp_all add: ms skip_ws_Cons is_ws_def quote_def)
  have "scan_value (Suc n) 0 (CHR ''{'' # ms) = Some []"
    using n sk(1) by (simp add: ms maxNestingDepth_def quote_def)
  from scan_value_fuel [OF this] have v: "scan_value (scan_fuel (CHR ''{'' # ms)) 0 (CHR ''{'' # ms) = Some []" .
  have "skip_ws [] = []" by (simp add: skip_ws_def)
  then show "json_Valid (CHR ''{'' # ms)" "decoder_next (CHR ''{'' # ms) = Value (CHR ''{'' # ms) []"
    unfolding json_Valid_def decoder_next_def Let_def sk(2) v by (simp_all add: slice_def)
  show "raw_object (CHR ''{'' # ms) = Some xs"
    using scan_members_fuel [OF n] sk(1) by (simp add: raw_object_def ms quote_def)
qed

section \<open>Decoding the fields\<close>

lemma field_names:
  "fold_name (unquote_body ''tenantId'') = ''tenantid''" "fold_name (unquote_body ''eventId'') = ''eventid''"
  "fold_name (unquote_body ''type'') = ''type''" "fold_name (unquote_body ''timestamp'') = ''timestamp''"
  "fold_name (unquote_body ''payload'') = ''payload''"
  by code_simp+

lemma name_literals:
  "scan_str (''tenantId'' @ quote # t) = Some (''tenantId'', t)" "scan_str (''eventId'' @ quote # t) = Some (''eventId'', t)"
  "scan_str (''type'' @ quote # t) = Some (''type'', t)" "scan_str (''timestamp'' @ quote # t) = Some (''timestamp'', t)"
  "scan_str (''payload'' @ quote # t) = Some (''payload'', t)"
  by (rule scan_str_plain; simp add: plain_def quote_def backslash_def)+

lemma reads_string: "reads d (quote_string s)"
  unfolding quote_string_def by (rule reads_literal) (rule scan_str_escape)

lemma string_field_quoted: "utf8_Valid s \<Longrightarrow> string_field old (quote_string s) = Some s"
  by (simp add: string_field_def raw_string_def quote_string_def scan_str_escape unquote_body_def unquote_escape utf8_Valid_def
      quote_def [symmetric]) (simp add: quote_def)

lemma time_field_quoted:
  assumes "marshal_time off t = Some b" "zone_ok off"
  shows "time_field old (quote # b @ [quote]) = Some t"
  using marshal_time_parse [OF assms] scan_str_plain [OF time_plain [OF assms(1)], of "[]"]
  by (simp add: time_field_def raw_string_def quote_def [symmetric]) (simp add: quote_def)

text \<open>
  What an event must satisfy to survive the trip: its strings are well-formed UTF-8 and its
  payload is a JSON value without white space around it, one level deep in the envelope.
\<close>

definition wire_ok :: "event \<Rightarrow> bool" where
  "wire_ok e \<longleftrightarrow> utf8_Valid (TenantID e) \<and> utf8_Valid (EventID e) \<and> utf8_Valid (Type e) \<and>
     (\<exists>n. scan_value n 1 (Payload e) = Some [])"

lemma Unmarshal_Marshal:
  assumes "Marshal_event off e = Some v" "zone_ok off" "wire_ok e"
  shows "Unmarshal_event v = Some (e\<lparr>Payload := compact_from False (Payload e)\<rparr>)"
proof -
  obtain n where n: "scan_value n 1 (Payload e) = Some []" using assms(3) by (auto simp: wire_ok_def)
  note p = compact_value [OF n]
  obtain ts where ts: "marshal_time off (Timestamp e) = Some ts" and v: "v = CHR ''{'' # member ''tenantId'' (quote_string (TenantID e)) @ '','' @
      member ''eventId'' (quote_string (EventID e)) @ '','' @ member ''type'' (quote_string (Type e)) @ '','' @
      member ''timestamp'' (quote # ts @ [quote]) @ '','' @ member ''payload'' (compact_from False (Payload e)) @ ''}''"
    using assms(1) p(5) by (auto simp: Marshal_event_def marshal_raw_def split: option.splits if_splits)
  have rt: "reads 1 (quote # ts @ [quote])" by (rule reads_literal) (rule scan_str_plain [OF time_plain [OF ts]])
  have rp: "reads 1 (compact_from False (Payload e))" unfolding reads_def using p(1-4) by auto
  have hd: "\<not> is_ws (hd (member nm x @ y))" for nm x y by (simp add: member_def is_ws_def quote_def)
  define xs where "xs = [(''tenantId'', quote_string (TenantID e)), (''eventId'', quote_string (EventID e)),
      (''type'', quote_string (Type e)), (''timestamp'', quote # ts @ [quote]), (''payload'', compact_from False (Payload e))]"
  have "\<exists>n. scan_members n 1 (tl v) = Some (xs, [])"
    unfolding v xs_def list.sel
    by (intro scan_next_member scan_last_member reads_string rt rp name_literals hd)
  moreover have "tl v \<noteq> []" "hd (tl v) = quote" "CHR ''{'' # tl v = v" by (simp_all add: v member_def)
  ultimately have o: "json_Valid v" "decoder_next v = Value v []" "raw_object v = Some xs"
    using scan_object [of "tl v" xs] by simp_all
  have "v \<noteq> ''null''" by (simp add: v)
  moreover have "decode_members False zero_event xs = Some (e\<lparr>Payload := compact_from False (Payload e)\<rparr>)"
    using assms(3) unfolding xs_def wire_ok_def
    by (simp add: decode_member_def field_names string_field_quoted time_field_quoted [OF ts assms(2)] zero_event_def del: unquote_from.simps)
  ultimately show ?thesis using o by (simp add: Unmarshal_event_def decode_struct_def)
qed

section \<open>What was accepted survives\<close>

lemma utf8_Nil [simp]: "utf8_Valid []"
  by (simp add: utf8_Valid_def)

lemma string_field_utf8: "string_field old v = Some x \<Longrightarrow> utf8_Valid old \<Longrightarrow> utf8_Valid x"
  by (auto simp: string_field_def raw_string_def unquote_body_def utf8_Valid_def dest: unquote_utf8 split: if_splits list.splits)

text \<open>
  The type of an event that came out of \<open>encoding/json\<close>: strings are well-formed UTF-8,
  the time is the zero time or one that RFC 3339 can write, the payload is absent or a
  JSON value with no white space around it.
\<close>

definition well_typed :: "event \<Rightarrow> bool" where
  "well_typed e \<longleftrightarrow> utf8_Valid (TenantID e) \<and> utf8_Valid (EventID e) \<and> utf8_Valid (Type e) \<and>
     (Timestamp e = time_zero \<or> (\<exists>b. parseRFC3339 b = Some (Timestamp e))) \<and>
     (Payload e = [] \<or> (\<exists>n. scan_value n 1 (Payload e) = Some []))"

lemma well_typed_zero [simp]: "well_typed zero_event"
  by (simp add: well_typed_def zero_event_def)

lemma well_typed_wire: "well_typed e \<Longrightarrow> Payload e \<noteq> [] \<Longrightarrow> wire_ok e"
  by (simp add: well_typed_def wire_ok_def)

lemma decode_member_typed:
  assumes "decode_member envelope e m = Some e'" "well_typed e" "\<exists>n. scan_value n 1 (snd m) = Some []"
  shows "well_typed e'"
proof -
  have time: "time_field old v = Some t \<Longrightarrow> t = old \<or> (\<exists>b. parseRFC3339 b = Some t)" for old v t
    by (auto simp: time_field_def split: if_splits option.splits)
  show ?thesis
    using assms by (auto simp: decode_member_def well_typed_def Let_def split: if_splits dest: string_field_utf8 dest!: time)
qed

lemma decode_members_typed:
  "decode_members envelope e ms = Some e' \<Longrightarrow> well_typed e \<Longrightarrow> \<forall>m \<in> set ms. \<exists>n. scan_value n 1 (snd m) = Some [] \<Longrightarrow> well_typed e'"
  by (induction ms arbitrary: e) (auto split: option.splits dest: decode_member_typed)

lemma raw_object_values: "raw_object v = Some ms \<Longrightarrow> (k, x) \<in> set ms \<Longrightarrow> \<exists>n. scan_value n 1 x = Some []"
  by (auto simp: raw_object_def dest: scan_members_values split: list.splits if_splits)

lemma decode_struct_typed: "decode_struct envelope v = Some e \<Longrightarrow> well_typed e"
  by (auto simp: decode_struct_def split: if_splits option.splits
      dest!: decode_members_typed dest: raw_object_values intro: well_typed_zero)

text \<open>A well-typed event can be encoded, in the offset that its time was written in.\<close>

lemma zero_time_written: "zone_ok 0" "marshal_time 0 time_zero \<noteq> None"
  by code_simp+

text \<open>A value that may be nested at some depth may be nested less deeply.\<close>

lemma scan_shallow_aux:
  "(\<forall>d s r. scan_value n (d + 1) s = Some r \<longrightarrow> scan_value n d s = Some r) \<and>
   (\<forall>d s p. scan_elems n (d + 1) s = Some p \<longrightarrow> scan_elems n d s = Some p) \<and>
   (\<forall>d s p. scan_members n (d + 1) s = Some p \<longrightarrow> scan_members n d s = Some p)"
proof (induction n)
  case 0
  then show ?case by simp
next
  case (Suc n)
  then have v: "\<And>d s r. scan_value n (d + 1) s = Some r \<Longrightarrow> scan_value n d s = Some r"
    and e: "\<And>d s p. scan_elems n (d + 1) s = Some p \<Longrightarrow> scan_elems n d s = Some p"
    and m: "\<And>d s p. scan_members n (d + 1) s = Some p \<Longrightarrow> scan_members n d s = Some p"
    by blast+
  have "scan_value (Suc n) d s = Some r" if a: "scan_value (Suc n) (d + 1) s = Some r" for d s r
  proof -
    obtain c cs where s: "s = c # cs" using a by (cases s) auto
    have "d < maxNestingDepth" if "c \<in> {CHR ''['', CHR ''{''}"
      using that a s by (auto split: if_splits)
    then show ?thesis
      using a s e [of "d + 1"] m [of "d + 1"] by (cases "skip_ws cs") (auto split: if_splits simp: add.commute quote_def)
  qed
  moreover have "scan_elems (Suc n) d s = Some p" if "scan_elems (Suc n) (d + 1) s = Some p" for d s p
    using that by (auto split: list.splits option.splits if_splits dest!: v e)
  moreover have "scan_members (Suc n) d s = Some p" if "scan_members (Suc n) (d + 1) s = Some p" for d s p
    using that by (auto simp: Let_def split: list.splits option.splits if_splits dest!: v m)
  ultimately show ?case by blast
qed

lemma member_value_valid: "scan_value n 1 p = Some [] \<Longrightarrow> json_Valid p"
  using scan_shallow_aux [of n, THEN conjunct1, rule_format, of 0 p "[]"] json_Valid_value compact_value(4) by simp

lemma well_typed_encodes:
  assumes "well_typed e"
  shows "\<exists>off v. zone_ok off \<and> Marshal_event off e = Some v"
proof -
  obtain off ts where "zone_ok off" "marshal_time off (Timestamp e) = Some ts"
    using assms zero_time_written parsed_time_written unfolding well_typed_def by (metis option.exhaust)
  moreover have "\<exists>p. (if Payload e = [] then Some ''null'' else marshal_raw (Payload e)) = Some p"
    using assms member_value_valid by (auto simp: well_typed_def marshal_raw_def)
  ultimately show ?thesis by (auto simp: Marshal_event_def)
qed

lemma Decode_wire:
  assumes "Decode now data tid mx = (e, None)" "utf8_Valid tid"
  shows "wire_ok e" "\<exists>off v. zone_ok off \<and> Marshal_event off e = Some v"
proof -
  obtain v input where v: "decode_struct True v = Some input" "e = input\<lparr>TenantID := tid\<rparr>"
    using assms(1) by (auto simp: Decode_def Let_def split: decoded.splits option.splits if_splits)
  have e: "well_typed e" using decode_struct_typed [OF v(1)] v(2) assms(2) by (simp add: well_typed_def)
  moreover have "Payload e \<noteq> []" using Decode_None [OF assms(1)] by (simp add: valid_event_def)
  ultimately show "wire_ok e" by (rule well_typed_wire)
  show "\<exists>off v. zone_ok off \<and> Marshal_event off e = Some v" using e by (rule well_typed_encodes)
qed

lemma Unmarshal_typed: "Unmarshal_event v = Some e \<Longrightarrow> well_typed e"
  by (auto simp: Unmarshal_event_def split: if_splits decoded.splits dest: decode_struct_typed)

lemma compact_payload:
  assumes "Decode now data tid mx = (e, None)" "utf8_Valid tid"
  shows "compact_from False (Payload e) \<noteq> []" "compact_from False (Payload e) \<noteq> ''null''" "json_Valid (compact_from False (Payload e))"
proof -
  have ok: "Payload e \<noteq> ''null''" "json_Valid (Payload e)" using Decode_None [OF assms(1)] by (auto simp: valid_event_def)
  obtain n where n: "scan_value n 1 (Payload e) = Some []" using Decode_wire(1) [OF assms] by (auto simp: wire_ok_def)
  show "compact_from False (Payload e) \<noteq> []" by (rule compact_value(2) [OF n])
  show "compact_from False (Payload e) \<noteq> ''null''" using compact_null [OF n] ok(1) by blast
  show "json_Valid (compact_from False (Payload e))" by (rule compact_valid [OF ok(2)])
qed

section \<open>Properties\<close>

text \<open>
  C7: an event survives the topic. Every event the API accepted for a tenant whose ID is
  well-formed UTF-8 can be encoded, in the offset its time was written in; and whatever
  offset it is encoded in (whole minutes, as every parsed time has), the consumers decode
  the same tenant, event ID, type and time, and a payload that is the compacted form of what
  the client sent: still a JSON value, and not \<open>null\<close>.
\<close>

theorem accepted_event_roundtrip:
  assumes "Decode now data tid mx = (e, None)" "utf8_Valid tid"
  shows "(\<exists>off v. zone_ok off \<and> Marshal_event off e = Some v) \<and>
    (\<forall>off v. zone_ok off \<longrightarrow> Marshal_event off e = Some v \<longrightarrow>
       Unmarshal_event v = Some (e\<lparr>Payload := compact_from False (Payload e)\<rparr>) \<and>
       json_Valid (compact_from False (Payload e)) \<and> compact_from False (Payload e) \<noteq> ''null'')"
  using Decode_wire [OF assms] Unmarshal_Marshal compact_payload [OF assms] by auto

theorem accepted_event_roundtrip_witness:
  "\<exists>e off v. Decode 1735689600000000000 sample_body ''acme'' 100 = (e, None) \<and> Marshal_event off e = Some v \<and>
     (\<exists>p. Unmarshal_event v = Some (e\<lparr>Payload := p\<rparr>))"
proof -
  have "utf8_Valid ''acme''" by code_simp
  from accepted_event_roundtrip [OF sample_decodes this] sample_decodes show ?thesis by blast
qed

text \<open>
  C10: the type of what consumers read. Whatever bytes a message carries, if they decode
  then the event is well typed: its tenant, event ID and type are well-formed UTF-8, its
  time is the zero time or one that RFC 3339 writes, its payload is absent or one JSON
  value; so it can always be encoded again, and an encoding of an event with a payload
  decodes to it, with the payload compacted.
\<close>

theorem consumed_event_well_typed:
  assumes "Unmarshal_event v = Some e"
  shows "well_typed e \<and> (\<exists>off w. zone_ok off \<and> Marshal_event off e = Some w) \<and>
    (\<forall>off w. zone_ok off \<longrightarrow> Marshal_event off e = Some w \<longrightarrow> Payload e \<noteq> [] \<longrightarrow>
       Unmarshal_event w = Some (e\<lparr>Payload := compact_from False (Payload e)\<rparr>))"
  using Unmarshal_typed [OF assms] well_typed_encodes Unmarshal_Marshal well_typed_wire by blast

text \<open>A message that lacks most fields: \<open>{"type":"t","payload":[1]}\<close>.\<close>

definition sample_partial :: bytes where
  "sample_partial = ''{'' @ quote # ''type'' @ quote # '':'' @ quote # ''t'' @ quote # '','' @
     quote # ''payload'' @ quote # '': [1] }''"

lemma sample_partial_decodes: "Unmarshal_event sample_partial = Some (zero_event\<lparr>Type := ''t'', Payload := ''[1]''\<rparr>)"
  by code_simp

theorem consumed_event_well_typed_witness:
  "\<exists>e off w. Unmarshal_event sample_partial = Some e \<and> well_typed e \<and> Marshal_event off e = Some w"
  using consumed_event_well_typed [OF sample_partial_decodes] sample_partial_decodes by blast

end
