(* ===== verification/Kafka_Consumer.thy ===== *)
theory Kafka_Consumer
  imports Event_Codec
begin

text \<open>
  \<open>internal/kafka/producer.go\<close>: the producer's \<open>PublishBatch\<close> and the consumer loops, one
  message at a time (\<open>runSingle\<close>) and in batches (\<open>runBatch\<close>), with dead-lettering,
  commits and backoff.

  The Kafka client, the handlers, the clock, the timer and the context are the operations
  of \<open>consumer_env\<close>, functions of a world \<open>'w\<close>. The consumer runs on a pair of the world
  and a log of its effects, to which every operation that took effect is appended: the
  theorems are statements about that log. The loops run until the context is done; their
  fuel counts rounds, and \<open>Running\<close> says that it ran out: what holds of the log for every
  fuel holds at every moment of an endless run. Tracing spans and the text of errors are
  left out: the value of the header \<open>pulse-error\<close> is the error itself.
\<close>

named_theorems consumer_defs "definitions of the consumer operations"

section \<open>Errors and messages\<close>

text \<open>
  Error values with their chains: \<open>Wrap\<close> for \<open>fmt.Errorf\<close> with \<open>%w\<close>, \<open>Joined\<close> for
  \<open>errors.Join\<close>, and the two types that \<open>errors.As\<close> is asked for.
\<close>

datatype go_error =
    Opaque bytes
  | Wrap bytes go_error
  | Joined "go_error list"
  | DeadLetterError go_error
  | BatchDeadLetterError "event list" go_error

text \<open>\<open>errors.As\<close>: the error itself, then what it wraps, depth first.\<close>

fun as_dead_letter :: "go_error \<Rightarrow> bool" and as_dead_letters :: "go_error list \<Rightarrow> bool" where
  "as_dead_letter (Opaque _) = False"
| "as_dead_letter (Wrap _ e) = as_dead_letter e"
| "as_dead_letter (Joined es) = as_dead_letters es"
| "as_dead_letter (DeadLetterError _) = True"
| "as_dead_letter (BatchDeadLetterError _ e) = as_dead_letter e"
| "as_dead_letters [] = False"
| "as_dead_letters (e # es) = (as_dead_letter e \<or> as_dead_letters es)"

fun as_batch_dead_letter :: "go_error \<Rightarrow> (event list \<times> go_error) option"
and as_batch_dead_letters :: "go_error list \<Rightarrow> (event list \<times> go_error) option" where
  "as_batch_dead_letter (Opaque _) = None"
| "as_batch_dead_letter (Wrap _ e) = as_batch_dead_letter e"
| "as_batch_dead_letter (Joined es) = as_batch_dead_letters es"
| "as_batch_dead_letter (DeadLetterError e) = as_batch_dead_letter e"
| "as_batch_dead_letter (BatchDeadLetterError evs e) = Some (evs, e)"
| "as_batch_dead_letters [] = None"
| "as_batch_dead_letters (e # es) =
     (case as_batch_dead_letter e of Some r \<Rightarrow> Some r | None \<Rightarrow> as_batch_dead_letters es)"

datatype header_value = Raw bytes | ErrText go_error

record message =
  m_Key :: bytes
  m_Value :: bytes
  m_Headers :: "(bytes \<times> header_value) list"

section \<open>The producer\<close>

text \<open>
  The producer as it is configured: every replica acknowledges a write, which is not
  asynchronous, and the partition is chosen by a hash of the key.
\<close>

datatype balancer = Hash

datatype required_acks = RequireAll

record producer =
  pr_topic :: bytes
  pr_brokers :: "bytes list"
  pr_Balancer :: balancer
  pr_RequiredAcks :: required_acks
  pr_Async :: bool
  pr_BatchSize :: int
  pr_BatchTimeout :: duration

definition NewProducer :: "bytes list \<Rightarrow> bytes \<Rightarrow> producer" where
  "NewProducer brokers topic =
     \<lparr>pr_topic = topic, pr_brokers = brokers, pr_Balancer = Hash, pr_RequiredAcks = RequireAll, pr_Async = False,
      pr_BatchSize = 100, pr_BatchTimeout = 5 * Millisecond\<rparr>"

text \<open>
  \<open>Ready\<close>: \<open>dial\<close> connects to a broker (\<open>None\<close> if it fails), \<open>close\<close> says whether closing the
  connection succeeds. Only the first broker is asked.
\<close>

definition producer_Ready :: "(bytes \<Rightarrow> 'c option) \<Rightarrow> ('c \<Rightarrow> bool) \<Rightarrow> producer \<Rightarrow> go_error option" where
  "producer_Ready dial close p =
     (case pr_brokers p of
        [] \<Rightarrow> Some (Opaque ''kafka brokers are not configured'')
      | b # _ \<Rightarrow>
          (case dial b of
             None \<Rightarrow> Some (Opaque ''dial'')
           | Some conn \<Rightarrow> if close conn then None else Some (Opaque ''close'')))"

definition event_message :: "bytes \<Rightarrow> (bytes \<times> bytes) list \<Rightarrow> event \<Rightarrow> message" where
  "event_message b carrier e =
     \<lparr>m_Key = TenantID e, m_Value = b,
      m_Headers = map (\<lambda>(k, v). (k, Raw v)) carrier @ [(''event-id'', Raw (EventID e))]\<rparr>"

text \<open>\<open>zone e\<close> is the offset of the location that the event's timestamp carries.\<close>

fun encode_messages :: "(event \<Rightarrow> int) \<Rightarrow> (bytes \<times> bytes) list \<Rightarrow> event list \<Rightarrow> message list option" where
  "encode_messages zone carrier [] = Some []"
| "encode_messages zone carrier (e # es) =
     (case Marshal_event (zone e) e of
        None \<Rightarrow> None
      | Some b \<Rightarrow> map_option (Cons (event_message b carrier e)) (encode_messages zone carrier es))"

text \<open>\<open>write\<close> is \<open>writer.WriteMessages\<close>: whether it succeeded, and the new world.\<close>

definition PublishBatch ::
  "(event \<Rightarrow> int) \<Rightarrow> (bytes \<times> bytes) list \<Rightarrow> (message list \<Rightarrow> 'w \<Rightarrow> bool \<times> 'w) \<Rightarrow> event list \<Rightarrow> 'w
     \<Rightarrow> go_error option \<times> 'w" where
  "PublishBatch zone carrier write batch w =
     (if length batch = 0 then (None, w)
      else case encode_messages zone carrier batch of
        None \<Rightarrow> (Some (Opaque ''marshal''), w)
      | Some messages \<Rightarrow>
          (case write messages w of
             (True, w') \<Rightarrow> (None, w')
           | (False, w') \<Rightarrow> (Some (Opaque ''write''), w')))"

section \<open>The consumer and its effects\<close>

record consumer =
  co_batchHandler :: bool
  co_batchSize :: int
  co_batchTimeout :: duration
  co_dlq :: bool
  co_metrics :: bool
  co_group :: bytes
  co_worker :: bytes

record 'w consumer_env =
  ce_fetch :: "duration option \<Rightarrow> 'w \<Rightarrow> message option \<times> 'w"
  ce_commit :: "message list \<Rightarrow> 'w \<Rightarrow> bool \<times> 'w"
  ce_write :: "message list \<Rightarrow> 'w \<Rightarrow> bool \<times> 'w"
  ce_handler :: "event \<Rightarrow> 'w \<Rightarrow> go_error option \<times> 'w"
  ce_batchHandler :: "event list \<Rightarrow> 'w \<Rightarrow> go_error option \<times> 'w"
  ce_wait :: "duration \<Rightarrow> 'w \<Rightarrow> bool \<times> 'w"
  ce_done :: "'w \<Rightarrow> bool"
  ce_now :: "'w \<Rightarrow> instant"

datatype effect =
    Fetched message
  | Committed "message list"
  | DeadLettered "message list"
  | Handled event "go_error option"
  | HandledBatch "event list" "go_error option"
  | Waited duration
  | Recorded bytes bool bool

datatype 'w run = State (world: 'w) (log: "effect list")

definition fetch :: "'w consumer_env \<Rightarrow> duration option \<Rightarrow> 'w run \<Rightarrow> message option \<times> 'w run" where
  "fetch env timeout s =
     (case ce_fetch env timeout (world s) of
        (None, w) \<Rightarrow> (None, State w (log s))
      | (Some m, w) \<Rightarrow> (Some m, State w (log s @ [Fetched m])))"

definition commit :: "'w consumer_env \<Rightarrow> message list \<Rightarrow> 'w run \<Rightarrow> bool \<times> 'w run" where
  "commit env ms s =
     (case ce_commit env ms (world s) of
        (ok, w) \<Rightarrow> (ok, State w (if ok then log s @ [Committed ms] else log s)))"

definition dlq_write :: "'w consumer_env \<Rightarrow> message list \<Rightarrow> 'w run \<Rightarrow> bool \<times> 'w run" where
  "dlq_write env ms s =
     (case ce_write env ms (world s) of
        (ok, w) \<Rightarrow> (ok, State w (if ok then log s @ [DeadLettered ms] else log s)))"

definition handle :: "'w consumer_env \<Rightarrow> event \<Rightarrow> 'w run \<Rightarrow> go_error option \<times> 'w run" where
  "handle env e s = (case ce_handler env e (world s) of (r, w) \<Rightarrow> (r, State w (log s @ [Handled e r])))"

definition handle_batch :: "'w consumer_env \<Rightarrow> event list \<Rightarrow> 'w run \<Rightarrow> go_error option \<times> 'w run" where
  "handle_batch env es s =
     (case ce_batchHandler env es (world s) of (r, w) \<Rightarrow> (r, State w (log s @ [HandledBatch es r])))"

text \<open>\<open>wait\<close>: true when the timer fired, false when the context was done first.\<close>

definition wait_for :: "'w consumer_env \<Rightarrow> duration \<Rightarrow> 'w run \<Rightarrow> bool \<times> 'w run" where
  "wait_for env d s = (case ce_wait env d (world s) of (fired, w) \<Rightarrow> (fired, State w (log s @ [Waited d])))"

definition ctx_done :: "'w consumer_env \<Rightarrow> 'w run \<Rightarrow> bool" where
  "ctx_done env s = ce_done env (world s)"

definition recordProcessing :: "consumer \<Rightarrow> bool \<Rightarrow> go_error option \<Rightarrow> 'w run \<Rightarrow> 'w run" where
  "recordProcessing c processed err s =
     (if \<not> co_metrics c then s
      else
        let worker = (if co_worker c = [] then co_group c else co_worker c)
        in State (world s) (log s @ [Recorded worker processed (err \<noteq> None)]))"

definition SetBatchHandler :: "int \<Rightarrow> duration \<Rightarrow> consumer \<Rightarrow> consumer" where
  "SetBatchHandler sz timeout c =
     c\<lparr>co_batchHandler := True,
       co_batchSize := (if sz < 1 then 1 else sz),
       co_batchTimeout := (if timeout \<le> 0 then 10 * Millisecond else timeout)\<rparr>"

section \<open>Dead letters\<close>

definition dead_letter_message :: "go_error \<Rightarrow> message \<Rightarrow> message" where
  "dead_letter_message cause msg = msg\<lparr>m_Headers := m_Headers msg @ [(''pulse-error'', ErrText cause)]\<rparr>"

definition writeDeadLetter ::
  "'w consumer_env \<Rightarrow> consumer \<Rightarrow> message \<Rightarrow> go_error \<Rightarrow> 'w run \<Rightarrow> go_error option \<times> 'w run" where
  "writeDeadLetter env c msg cause s =
     (if \<not> co_dlq c then (Some cause, s)
      else case dlq_write env [dead_letter_message cause msg] s of
        (True, s1) \<Rightarrow> (None, s1)
      | (False, s1) \<Rightarrow> (Some (Opaque ''write''), s1))"

definition deadLetter ::
  "'w consumer_env \<Rightarrow> consumer \<Rightarrow> message \<Rightarrow> go_error \<Rightarrow> 'w run \<Rightarrow> go_error option \<times> 'w run" where
  "deadLetter env c msg cause s =
     (case writeDeadLetter env c msg cause s of
        (Some err, s1) \<Rightarrow> (Some err, s1)
      | (None, s1) \<Rightarrow>
          (case commit env [msg] s1 of
             (True, s2) \<Rightarrow> (None, s2)
           | (False, s2) \<Rightarrow> (Some (Opaque ''commit''), s2)))"

definition event_key :: "event \<Rightarrow> bytes" where
  "event_key e = TenantID e @ CHR 0x00 # EventID e"

text \<open>The loop of \<open>deadLetterBatch\<close>: the set \<open>failed\<close> as a list, the messages chosen.\<close>

fun pick_failed :: "go_error \<Rightarrow> bytes list \<Rightarrow> message list \<Rightarrow> message list \<times> bytes list" where
  "pick_failed cause failed [] = ([], failed)"
| "pick_failed cause failed (m # ms) =
     (case Unmarshal_event (m_Value m) of
        None \<Rightarrow> pick_failed cause failed ms
      | Some e \<Rightarrow>
          if event_key e \<notin> set failed then pick_failed cause failed ms
          else case pick_failed cause (removeAll (event_key e) failed) ms of
                 (out, rest) \<Rightarrow> (dead_letter_message cause m # out, rest))"

definition deadLetterBatch ::
  "'w consumer_env \<Rightarrow> message list \<Rightarrow> event list \<Rightarrow> go_error \<Rightarrow> 'w run \<Rightarrow> go_error option \<times> 'w run" where
  "deadLetterBatch env messages evs cause s =
     (let failed = remdups (map event_key evs) in
      if length failed = 0 then (Some (Opaque ''batch dead-letter error contains no events''), s)
      else case pick_failed cause failed messages of
        (dlqMessages, rest) \<Rightarrow>
          if length rest \<noteq> 0
          then (Some (Opaque ''batch dead-letter events were not found in kafka batch''), s)
          else case dlq_write env dlqMessages s of
            (True, s1) \<Rightarrow> (None, s1)
          | (False, s1) \<Rightarrow> (Some (Opaque ''write''), s1))"

section \<open>One message\<close>

definition processMessage ::
  "'w consumer_env \<Rightarrow> consumer \<Rightarrow> message \<Rightarrow> 'w run \<Rightarrow> (bool \<times> go_error option) \<times> 'w run" where
  "processMessage env c msg s =
     (case Unmarshal_event (m_Value msg) of
        None \<Rightarrow> (case deadLetter env c msg (Wrap ''decode kafka event'' (Opaque ''json'')) s of
                   (err, s1) \<Rightarrow> ((False, err), s1))
      | Some event \<Rightarrow>
          (case Validate (ce_now env (world s)) 0 event of
             Some err \<Rightarrow> (case deadLetter env c msg (Wrap ''validate kafka event'' (Opaque ''event'')) s of
                            (err, s1) \<Rightarrow> ((False, err), s1))
           | None \<Rightarrow>
               (case handle env event s of
                  (Some err, s1) \<Rightarrow>
                    if co_dlq c \<and> as_dead_letter err then
                      (case dlq_write env [dead_letter_message err msg] s1 of
                         (False, s2) \<Rightarrow> ((False, Some (Opaque ''write'')), s2)
                       | (True, s2) \<Rightarrow>
                           (case commit env [msg] s2 of
                              (False, s3) \<Rightarrow> ((False, Some (Opaque ''commit'')), s3)
                            | (True, s3) \<Rightarrow> ((False, None), s3)))
                    else ((False, Some err), s1)
                | (None, s1) \<Rightarrow>
                    (case commit env [msg] s1 of
                       (False, s2) \<Rightarrow> ((False, Some (Opaque ''commit'')), s2)
                     | (True, s2) \<Rightarrow> ((True, None), s2)))))"

datatype 'a loop = Finished 'a | Stopped | Running

definition next_backoff :: "duration \<Rightarrow> duration" where
  "next_backoff b = (if b < 30 * Second then b * 2 else b)"

fun runSingle :: "'w consumer_env \<Rightarrow> consumer \<Rightarrow> nat \<Rightarrow> duration \<Rightarrow> 'w run \<Rightarrow> unit loop \<times> 'w run" where
  "runSingle env c 0 backoff s = (Running, s)"
| "runSingle env c (Suc n) backoff s =
     (case fetch env None s of
        (None, s1) \<Rightarrow>
          if ctx_done env s1 then (Stopped, s1)
          else (case wait_for env backoff s1 of
                  (False, s2) \<Rightarrow> (Stopped, s2)
                | (True, s2) \<Rightarrow> runSingle env c n (next_backoff backoff) s2)
      | (Some msg, s1) \<Rightarrow>
          (case processMessage env c msg s1 of
             ((processed, processErr), s2) \<Rightarrow>
               let s3 = recordProcessing c processed processErr s2 in
               if processErr \<noteq> None then
                 (case wait_for env backoff s3 of
                    (False, s4) \<Rightarrow> (Stopped, s4)
                  | (True, s4) \<Rightarrow> runSingle env c n (next_backoff backoff) s4)
               else runSingle env c n Second s3))"

section \<open>Batches\<close>

text \<open>
  \<open>fetchBatch\<close> after its first message: at most \<open>batchSize\<close> messages until the deadline.
  The recursion is on the room left.
\<close>

fun fetch_more ::
  "'w consumer_env \<Rightarrow> nat \<Rightarrow> instant \<Rightarrow> message list \<Rightarrow> 'w run \<Rightarrow> message list option \<times> 'w run" where
  "fetch_more env 0 deadline messages s = (Some messages, s)"
| "fetch_more env (Suc room) deadline messages s =
     (let remaining = time_Sub deadline (ce_now env (world s)) in
      if remaining \<le> 0 then (Some messages, s)
      else case fetch env (Some remaining) s of
        (None, s1) \<Rightarrow> if ctx_done env s1 then (None, s1) else (Some messages, s1)
      | (Some m, s1) \<Rightarrow> fetch_more env room deadline (messages @ [m]) s1)"

definition fetchBatch :: "'w consumer_env \<Rightarrow> consumer \<Rightarrow> 'w run \<Rightarrow> message list option \<times> 'w run" where
  "fetchBatch env c s =
     (case fetch env None s of
        (None, s1) \<Rightarrow> (None, s1)
      | (Some first, s1) \<Rightarrow>
          fetch_more env (nat (co_batchSize c - 1)) (time_Add (ce_now env (world s1)) (co_batchTimeout c)) [first] s1)"

fun decodeBatch ::
  "'w consumer_env \<Rightarrow> consumer \<Rightarrow> message list \<Rightarrow> 'w run \<Rightarrow> (message list \<times> event list) option \<times> 'w run" where
  "decodeBatch env c [] s = (Some ([], []), s)"
| "decodeBatch env c (m # ms) s =
     (case Unmarshal_event (m_Value m) of
        None \<Rightarrow>
          (case writeDeadLetter env c m (Wrap ''decode kafka event'' (Opaque ''json'')) s of
             (Some err, s1) \<Rightarrow> (None, s1)
           | (None, s1) \<Rightarrow>
               (case decodeBatch env c ms s1 of
                  (r, s2) \<Rightarrow> (map_option (\<lambda>(ps, es). (m # ps, es)) r, s2)))
      | Some e \<Rightarrow>
          (case Validate (ce_now env (world s)) 0 e of
             Some err \<Rightarrow>
               (case writeDeadLetter env c m (Wrap ''validate kafka event'' (Opaque ''event'')) s of
                  (Some err, s1) \<Rightarrow> (None, s1)
                | (None, s1) \<Rightarrow>
                    (case decodeBatch env c ms s1 of
                       (r, s2) \<Rightarrow> (map_option (\<lambda>(ps, es). (m # ps, es)) r, s2)))
           | None \<Rightarrow>
               (case decodeBatch env c ms s of
                  (r, s2) \<Rightarrow> (map_option (\<lambda>(ps, es). (m # ps, e # es)) r, s2))))"

fun decode_loop ::
  "'w consumer_env \<Rightarrow> consumer \<Rightarrow> nat \<Rightarrow> message list \<Rightarrow> duration \<Rightarrow> 'w run
     \<Rightarrow> (message list \<times> event list \<times> duration) loop \<times> 'w run" where
  "decode_loop env c 0 messages backoff s = (Running, s)"
| "decode_loop env c (Suc n) messages backoff s =
     (case decodeBatch env c messages s of
        (Some (ps, es), s1) \<Rightarrow> (Finished (ps, es, backoff), s1)
      | (None, s1) \<Rightarrow>
          if ctx_done env s1 then (Stopped, s1)
          else (case wait_for env backoff s1 of
                  (False, s2) \<Rightarrow> (Stopped, s2)
                | (True, s2) \<Rightarrow> decode_loop env c n messages (next_backoff backoff) s2))"

fun commitMessages ::
  "'w consumer_env \<Rightarrow> nat \<Rightarrow> message list \<Rightarrow> duration \<Rightarrow> 'w run \<Rightarrow> unit loop \<times> 'w run" where
  "commitMessages env 0 messages backoff s = (Running, s)"
| "commitMessages env (Suc n) messages backoff s =
     (case commit env messages s of
        (True, s1) \<Rightarrow> (Finished (), s1)
      | (False, s1) \<Rightarrow>
          (case wait_for env backoff s1 of
             (False, s2) \<Rightarrow> (Stopped, s2)
           | (True, s2) \<Rightarrow> commitMessages env n messages backoff s2))"

text \<open>The loop around the batch handler; it ends when the batch is handled or dead-lettered.\<close>

fun handle_loop ::
  "'w consumer_env \<Rightarrow> consumer \<Rightarrow> nat \<Rightarrow> message list \<Rightarrow> event list \<Rightarrow> duration \<Rightarrow> 'w run
     \<Rightarrow> duration loop \<times> 'w run" where
  "handle_loop env c 0 messages batch backoff s = (Running, s)"
| "handle_loop env c (Suc n) messages batch backoff s =
     (case handle_batch env batch s of
        (None, s1) \<Rightarrow> (Finished backoff, s1)
      | (Some err, s1) \<Rightarrow>
          (case (if co_dlq c then as_batch_dead_letter err else None) of
             Some (evs, cause) \<Rightarrow>
               (case deadLetterBatch env messages evs cause s1 of
                  (None, s2) \<Rightarrow> (Finished backoff, s2)
                | (Some dlqErr, s2) \<Rightarrow>
                    (case wait_for env backoff s2 of
                       (False, s3) \<Rightarrow> (Stopped, s3)
                     | (True, s3) \<Rightarrow> handle_loop env c n messages batch (next_backoff backoff) s3))
           | None \<Rightarrow>
               (case wait_for env backoff s1 of
                  (False, s2) \<Rightarrow> (Stopped, s2)
                | (True, s2) \<Rightarrow> handle_loop env c n messages batch (next_backoff backoff) s2)))"

fun record_all :: "consumer \<Rightarrow> event list \<Rightarrow> 'w run \<Rightarrow> 'w run" where
  "record_all c [] s = s"
| "record_all c (e # es) s = record_all c es (recordProcessing c True None s)"

fun runBatch :: "'w consumer_env \<Rightarrow> consumer \<Rightarrow> nat \<Rightarrow> duration \<Rightarrow> 'w run \<Rightarrow> unit loop \<times> 'w run" where
  "runBatch env c 0 backoff s = (Running, s)"
| "runBatch env c (Suc n) backoff s =
     (case fetchBatch env c s of
        (None, s1) \<Rightarrow>
          if ctx_done env s1 then (Stopped, s1)
          else (case wait_for env backoff s1 of
                  (False, s2) \<Rightarrow> (Stopped, s2)
                | (True, s2) \<Rightarrow> runBatch env c n (next_backoff backoff) s2)
      | (Some messages, s1) \<Rightarrow>
          (case decode_loop env c n messages backoff s1 of
             (Running, s2) \<Rightarrow> (Running, s2)
           | (Stopped, s2) \<Rightarrow> (Stopped, s2)
           | (Finished (processed, batch, backoff1), s2) \<Rightarrow>
               if length batch = 0 then
                 (case commitMessages env n processed backoff1 s2 of
                    (Running, s3) \<Rightarrow> (Running, s3)
                  | (Stopped, s3) \<Rightarrow> (Stopped, s3)
                  | (Finished _, s3) \<Rightarrow> runBatch env c n Second s3)
               else
                 (case handle_loop env c n messages batch backoff1 s2 of
                    (Running, s3) \<Rightarrow> (Running, s3)
                  | (Stopped, s3) \<Rightarrow> (Stopped, s3)
                  | (Finished backoff2, s3) \<Rightarrow>
                      (case commitMessages env n processed backoff2 s3 of
                         (Running, s4) \<Rightarrow> (Running, s4)
                       | (Stopped, s4) \<Rightarrow> (Stopped, s4)
                       | (Finished _, s4) \<Rightarrow> runBatch env c n Second (record_all c batch s4)))))"

definition Run :: "'w consumer_env \<Rightarrow> consumer \<Rightarrow> nat \<Rightarrow> 'w run \<Rightarrow> unit loop \<times> 'w run" where
  "Run env c n s =
     (if co_batchHandler c \<and> 1 < co_batchSize c then runBatch env c n Second s
      else runSingle env c n Second s)"

lemmas [consumer_defs] = fetch_def commit_def dlq_write_def handle_def handle_batch_def wait_for_def
  recordProcessing_def writeDeadLetter_def deadLetter_def deadLetterBatch_def

section \<open>What the steps append to the log\<close>

text \<open>The backoff doubles from one second and stays at 32.\<close>

definition backoff_ok :: "duration \<Rightarrow> bool" where
  "backoff_ok d \<longleftrightarrow> d \<in> {Second, 2 * Second, 4 * Second, 8 * Second, 16 * Second, 32 * Second}"

lemma backoff_ok_Second [simp]: "backoff_ok Second"
  by (simp add: backoff_ok_def)

lemma backoff_ok_next [simp]: "backoff_ok b \<Longrightarrow> backoff_ok (next_backoff b)"
  by (auto simp: backoff_ok_def next_backoff_def Second_def)

text \<open>Effects that neither fetch nor commit, and whose waits are in the schedule.\<close>

fun calm :: "effect \<Rightarrow> bool" where
  "calm (Fetched _) = False"
| "calm (Committed _) = False"
| "calm (Waited d) = backoff_ok d"
| "calm _ = True"

definition adds :: "'w run \<Rightarrow> 'w run \<Rightarrow> bool" where
  "adds s s' \<longleftrightarrow> (\<exists>x. log s' = log s @ x \<and> list_all calm x)"

lemma adds_refl [simp]: "adds s s"
  by (simp add: adds_def)

lemma adds_trans [trans]: "adds s t \<Longrightarrow> adds t u \<Longrightarrow> adds s u"
  unfolding adds_def by fastforce

lemma adds_one: "calm e \<Longrightarrow> adds s (State w (log s @ [e]))"
  by (simp add: adds_def)

lemma adds_same: "adds s (State w (log s))"
  by (simp add: adds_def)

lemma dlq_write_adds: "dlq_write env ms s = (r, s') \<Longrightarrow> adds s s'"
  by (auto simp: dlq_write_def adds_one adds_same split: prod.splits)

lemma handle_batch_adds: "handle_batch env es s = (r, s') \<Longrightarrow> adds s s'"
  by (auto simp: handle_batch_def adds_one split: prod.splits)

lemma wait_for_adds: "wait_for env d s = (r, s') \<Longrightarrow> backoff_ok d \<Longrightarrow> adds s s'"
  by (auto simp: wait_for_def adds_one split: prod.splits)

lemma recordProcessing_adds: "adds s (recordProcessing c p e s)"
  by (auto simp: recordProcessing_def adds_one Let_def)

lemma writeDeadLetter_adds: "writeDeadLetter env c m cause s = (r, s') \<Longrightarrow> adds s s'"
  by (auto simp: writeDeadLetter_def dest: dlq_write_adds split: if_splits prod.splits bool.splits)

lemma deadLetterBatch_adds: "deadLetterBatch env ms evs cause s = (r, s') \<Longrightarrow> adds s s'"
  by (auto simp: deadLetterBatch_def Let_def dest: dlq_write_adds split: if_splits prod.splits bool.splits)

lemma decodeBatch_adds: "decodeBatch env c ms s = (r, s') \<Longrightarrow> adds s s'"
proof (induction ms arbitrary: s r s')
  case Nil
  then show ?case by simp
next
  case (Cons m ms)
  then show ?case
    by (auto split: option.splits prod.splits dest!: writeDeadLetter_adds intro: adds_trans)
qed

lemma decode_loop_adds: "decode_loop env c n ms b s = (r, s') \<Longrightarrow> backoff_ok b \<Longrightarrow> adds s s'"
proof (induction n arbitrary: b s)
  case 0
  then show ?case by simp
next
  case (Suc n)
  obtain d s1 where d: "decodeBatch env c ms s = (d, s1)" by (cases "decodeBatch env c ms s")
  obtain f s2 where f: "wait_for env b s1 = (f, s2)" by (cases "wait_for env b s1")
  have "adds s s1" "adds s1 s2" using decodeBatch_adds [OF d] wait_for_adds [OF f Suc.prems(2)] .
  then show ?case
    using Suc.prems Suc.IH [of "next_backoff b" s2] d f
    by (auto split: option.splits if_splits bool.splits intro: adds_trans)
qed

lemma handle_loop_adds: "handle_loop env c n ms es b s = (r, s') \<Longrightarrow> backoff_ok b \<Longrightarrow> adds s s'"
proof (induction n arbitrary: b s)
  case 0
  then show ?case by simp
next
  case (Suc n)
  obtain h s1 where h: "handle_batch env es s = (h, s1)" by (cases "handle_batch env es s")
  have s1: "adds s s1" using handle_batch_adds [OF h] .
  have w: "adds s s'" if "wait_for env b t = (f, t')" "adds s t"
      "(case f of False \<Rightarrow> (Stopped, t') | True \<Rightarrow> handle_loop env c n ms es (next_backoff b) t') = (r, s')" for f t t'
  proof -
    have "adds s t'" using that(2) wait_for_adds [OF that(1) Suc.prems(2)] by (rule adds_trans)
    then show ?thesis using that(3) Suc.IH [of "next_backoff b" t'] Suc.prems(2) by (auto split: bool.splits intro: adds_trans)
  qed
  show ?case
  proof (cases h)
    case None
    then show ?thesis using Suc.prems s1 h by auto
  next
    case (Some err)
    show ?thesis
    proof (cases "if co_dlq c then as_batch_dead_letter err else None")
      case None
      then show ?thesis using Suc.prems(1) h Some s1 w by (fastforce split: prod.splits)
    next
      case (Some t)
      obtain evs cause where t: "t = (evs, cause)" by (cases t)
      obtain q s2 where q: "deadLetterBatch env ms evs cause s1 = (q, s2)" by (cases "deadLetterBatch env ms evs cause s1")
      have "adds s s2" using s1 deadLetterBatch_adds [OF q] by (rule adds_trans)
      then show ?thesis
        using Suc.prems(1) h \<open>h = Some err\<close> Some t q w by (fastforce split: prod.splits option.splits)
    qed
  qed
qed

lemma commitMessages_adds:
  "commitMessages env n ms b s = (r, s') \<Longrightarrow> backoff_ok b \<Longrightarrow>
     (case r of Finished _ \<Rightarrow> \<exists>t. adds s t \<and> log s' = log t @ [Committed ms] | _ \<Rightarrow> adds s s')"
proof (induction n arbitrary: s)
  case 0
  then show ?case by auto
next
  case (Suc n)
  obtain k s1 where k: "commit env ms s = (k, s1)" by (cases "commit env ms s")
  show ?case
  proof (cases k)
    case True
    then show ?thesis using Suc.prems k by (auto simp: commit_def split: prod.splits intro!: exI [of _ s])
  next
    case False
    then have s1: "adds s s1" using k by (auto simp: commit_def adds_same split: prod.splits)
    obtain f s2 where f: "wait_for env b s1 = (f, s2)" by (cases "wait_for env b s1")
    have "adds s s2" using s1 wait_for_adds [OF f Suc.prems(2)] by (rule adds_trans)
    then show ?thesis
      using Suc.IH [of s2] Suc.prems k False f
      by (auto split: bool.splits loop.splits intro: adds_trans)
  qed
qed

section \<open>What the log says of a message\<close>

definition dead_lettered :: "effect list \<Rightarrow> message \<Rightarrow> bool" where
  "dead_lettered l m \<longleftrightarrow> (\<exists>ms cause. DeadLettered ms \<in> set l \<and> dead_letter_message cause m \<in> set ms)"

definition key_dead_lettered :: "effect list \<Rightarrow> event \<Rightarrow> bool" where
  "key_dead_lettered l e \<longleftrightarrow>
     (\<exists>m e'. dead_lettered l m \<and> Unmarshal_event (m_Value m) = Some e' \<and> event_key e' = event_key e)"

text \<open>
  The handler took a batch with the event and reported success, or reported a failed part
  of which every event was dead-lettered.
\<close>

definition settled :: "effect list \<Rightarrow> event \<Rightarrow> bool" where
  "settled l e \<longleftrightarrow>
     (\<exists>es. e \<in> set es \<and>
        (HandledBatch es None \<in> set l \<or>
         (\<exists>err evs cause. HandledBatch es (Some err) \<in> set l \<and> as_batch_dead_letter err = Some (evs, cause) \<and>
            (\<forall>f \<in> set evs. key_dead_lettered l f))))"

definition accounted :: "effect list \<Rightarrow> message \<Rightarrow> bool" where
  "accounted l m \<longleftrightarrow> dead_lettered l m \<or> (\<exists>e. Unmarshal_event (m_Value m) = Some e \<and> settled l e)"

lemma dead_lettered_append: "dead_lettered l m \<Longrightarrow> dead_lettered (l @ x) m"
  by (auto simp: dead_lettered_def)

lemma key_dead_lettered_append: "key_dead_lettered l e \<Longrightarrow> key_dead_lettered (l @ x) e"
  unfolding key_dead_lettered_def using dead_lettered_append by blast

lemma settledI:
  "e \<in> set es \<Longrightarrow> HandledBatch es None \<in> set l \<Longrightarrow> settled l e"
  "e \<in> set es \<Longrightarrow> HandledBatch es (Some err) \<in> set l \<Longrightarrow> as_batch_dead_letter err = Some (evs, cause) \<Longrightarrow>
     \<forall>f \<in> set evs. key_dead_lettered l f \<Longrightarrow> settled l e"
  unfolding settled_def by blast+

lemma settled_append: "settled l e \<Longrightarrow> settled (l @ x) e"
proof -
  assume "settled l e"
  then consider es where "e \<in> set es" "HandledBatch es None \<in> set l"
    | es err evs cause where "e \<in> set es" "HandledBatch es (Some err) \<in> set l"
        "as_batch_dead_letter err = Some (evs, cause)" "\<forall>f \<in> set evs. key_dead_lettered l f"
    unfolding settled_def by blast
  then show "settled (l @ x) e"
  proof cases
    case 1
    then show ?thesis by (intro settledI(1) [of e es]) simp_all
  next
    case 2
    then show ?thesis
      by (intro settledI(2) [of e es err _ evs cause]) (simp_all add: key_dead_lettered_append)
  qed
qed

lemma accounted_append: "accounted l m \<Longrightarrow> accounted (l @ x) m"
  unfolding accounted_def using dead_lettered_append settled_append by blast

lemma addsD: "adds s s' \<Longrightarrow> \<exists>x. log s' = log s @ x"
  by (auto simp: adds_def)

lemma accounted_adds: "adds s s' \<Longrightarrow> accounted (log s) m \<Longrightarrow> accounted (log s') m"
  using addsD accounted_append by metis

lemma dead_lettered_adds: "adds s s' \<Longrightarrow> dead_lettered (log s) m \<Longrightarrow> dead_lettered (log s') m"
  using addsD dead_lettered_append by metis

fun fetched :: "effect list \<Rightarrow> message list" where
  "fetched [] = []"
| "fetched (Fetched m # l) = m # fetched l"
| "fetched (_ # l) = fetched l"

fun committed :: "effect list \<Rightarrow> message list" where
  "committed [] = []"
| "committed (Committed ms # l) = ms @ committed l"
| "committed (_ # l) = committed l"

lemma fetched_append [simp]: "fetched (a @ b) = fetched a @ fetched b"
  by (induction a rule: fetched.induct) auto

lemma committed_append [simp]: "committed (a @ b) = committed a @ committed b"
  by (induction a rule: committed.induct) auto

lemma calm_quiet: "list_all calm x \<Longrightarrow> fetched x = [] \<and> committed x = []"
proof (induction x)
  case (Cons e x)
  then show ?case by (cases e) auto
qed simp

lemma adds_quiet: "adds s s' \<Longrightarrow> fetched (log s') = fetched (log s) \<and> committed (log s') = committed (log s)"
  by (auto simp: adds_def dest!: calm_quiet)

text \<open>Every commit comes after its messages were accounted for, and every wait is in the schedule.\<close>

definition log_ok :: "effect list \<Rightarrow> bool" where
  "log_ok l \<longleftrightarrow> (\<forall>l1 ms l2. l = l1 @ Committed ms # l2 \<longrightarrow> (\<forall>m \<in> set ms. accounted l1 m)) \<and>
     (\<forall>d. Waited d \<in> set l \<longrightarrow> backoff_ok d)"

lemma log_ok_Nil [simp]: "log_ok []"
  by (simp add: log_ok_def)

lemma log_ok_snoc:
  assumes "log_ok l" "\<And>ms. e = Committed ms \<Longrightarrow> \<forall>m \<in> set ms. accounted l m" "\<And>d. e = Waited d \<Longrightarrow> backoff_ok d"
  shows "log_ok (l @ [e])"
  unfolding log_ok_def
proof (intro conjI allI impI)
  fix l1 ms l2
  assume eq: "l @ [e] = l1 @ Committed ms # l2"
  show "\<forall>m \<in> set ms. accounted l1 m"
  proof (cases l2 rule: rev_cases)
    case Nil
    then show ?thesis using eq assms(2) by simp
  next
    case (snoc l2' x)
    then have "l = l1 @ Committed ms # l2'" using eq by simp
    then show ?thesis using assms(1) by (auto simp: log_ok_def)
  qed
next
  fix d
  assume "Waited d \<in> set (l @ [e])"
  then show "backoff_ok d" using assms(1,3) by (auto simp: log_ok_def)
qed

lemma log_ok_calm: "log_ok l \<Longrightarrow> list_all calm x \<Longrightarrow> log_ok (l @ x)"
proof (induction x arbitrary: l)
  case Nil
  then show ?case by simp
next
  case (Cons e x)
  have "log_ok (l @ [e])" using Cons.prems by (intro log_ok_snoc) auto
  from Cons.IH [OF this] Cons.prems show ?case by simp
qed

lemma log_ok_adds: "adds s s' \<Longrightarrow> log_ok (log s) \<Longrightarrow> log_ok (log s')"
  by (auto simp: adds_def log_ok_calm)

section \<open>Dead-lettering a part of a batch\<close>

lemma pick_failed_rest:
  "pick_failed cause failed ms = (out, rest) \<Longrightarrow> set rest \<subseteq> set failed \<and>
     (\<forall>k \<in> set failed. k \<in> set rest \<or>
        (\<exists>m e. m \<in> set ms \<and> dead_letter_message cause m \<in> set out \<and>
           Unmarshal_event (m_Value m) = Some e \<and> event_key e = k))"
proof (induction cause failed ms arbitrary: out rest rule: pick_failed.induct)
  case (1 cause failed)
  then show ?case by simp
next
  case (2 cause failed m ms)
  show ?case
  proof (cases "Unmarshal_event (m_Value m)")
    case None
    then show ?thesis using 2(1) [OF None] 2(4) by fastforce
  next
    case (Some e)
    show ?thesis
    proof (cases "event_key e \<in> set failed")
      case False
      then show ?thesis using 2(2) [OF Some] 2(4) Some by fastforce
    next
      case True
      obtain out' rest' where *: "pick_failed cause (removeAll (event_key e) failed) ms = (out', rest')"
        by fastforce
      have r: "out = dead_letter_message cause m # out'" "rest = rest'" using 2(4) Some True * by auto
      have IH: "set rest' \<subseteq> set (removeAll (event_key e) failed) \<and>
          (\<forall>k \<in> set (removeAll (event_key e) failed). k \<in> set rest' \<or>
            (\<exists>m e. m \<in> set ms \<and> dead_letter_message cause m \<in> set out' \<and>
               Unmarshal_event (m_Value m) = Some e \<and> event_key e = k))"
        using 2(3) [OF Some] True * by simp
      show ?thesis
      proof (intro conjI ballI)
        show "set rest \<subseteq> set failed" using IH r(2) by auto
        fix k assume k: "k \<in> set failed"
        show "k \<in> set rest \<or> (\<exists>m' e. m' \<in> set (m # ms) \<and> dead_letter_message cause m' \<in> set out \<and>
           Unmarshal_event (m_Value m') = Some e \<and> event_key e = k)"
        proof (cases "k = event_key e")
          case True
          then show ?thesis using Some r(1) by (intro disjI2 exI [of _ m] exI [of _ e]) simp
        next
          case False
          then have "k \<in> set (removeAll (event_key e) failed)" using k by simp
          then have "k \<in> set rest' \<or> (\<exists>m' e. m' \<in> set ms \<and> dead_letter_message cause m' \<in> set out' \<and>
              Unmarshal_event (m_Value m') = Some e \<and> event_key e = k)" using IH by blast
          then show ?thesis unfolding r list.set by blast
        qed
      qed
    qed
  qed
qed

lemma deadLetterBatch_ok:
  assumes "deadLetterBatch env ms evs cause s = (None, s')" "f \<in> set evs"
  shows "key_dead_lettered (log s') f"
proof -
  obtain out rest where p: "pick_failed cause (remdups (map event_key evs)) ms = (out, rest)" by fastforce
  have d: "rest = []" "DeadLettered out \<in> set (log s')"
    using assms(1) p by (auto simp: deadLetterBatch_def dlq_write_def Let_def split: if_splits prod.splits bool.splits)
  have "event_key f \<in> set (remdups (map event_key evs))" using assms(2) by simp
  then obtain m e where "dead_letter_message cause m \<in> set out" "Unmarshal_event (m_Value m) = Some e" "event_key e = event_key f"
    using pick_failed_rest [OF p] d(1) by fastforce
  with d(2) show ?thesis unfolding key_dead_lettered_def dead_lettered_def by blast
qed

section \<open>A round of the batch loop\<close>

lemma writeDeadLetter_ok: "writeDeadLetter env c m cause s = (None, s') \<Longrightarrow> dead_lettered (log s') m"
  unfolding dead_lettered_def
  by (rule exI [of _ "[dead_letter_message cause m]"], rule exI [of _ cause])
    (auto simp: writeDeadLetter_def dlq_write_def split: if_splits prod.splits bool.splits)

definition decoded_or_dead :: "effect list \<Rightarrow> event list \<Rightarrow> message \<Rightarrow> bool" where
  "decoded_or_dead l es m \<longleftrightarrow> dead_lettered l m \<or> (\<exists>e \<in> set es. Unmarshal_event (m_Value m) = Some e)"

lemma decodeBatch_ok:
  "decodeBatch env c ms s = (Some (ps, es), s') \<Longrightarrow> ps = ms \<and> (\<forall>m \<in> set ms. decoded_or_dead (log s') es m)"
proof (induction ms arbitrary: s ps es)
  case Nil
  then show ?case by simp
next
  case (Cons m ms)
  have dead: ?case if "writeDeadLetter env c m cause s = (None, s1)"
      "decodeBatch env c ms s1 = (Some (ps', es), s')" "ps = m # ps'" for cause s1 ps'
  proof -
    have "dead_lettered (log s') m"
      using dead_lettered_adds [OF decodeBatch_adds [OF that(2)] writeDeadLetter_ok [OF that(1)]] .
    with Cons.IH [OF that(2)] that(3) show ?thesis by (simp add: decoded_or_dead_def)
  qed
  show ?case
  proof (cases "Unmarshal_event (m_Value m)")
    case None
    then show ?thesis using Cons.prems dead by (fastforce split: prod.splits option.splits)
  next
    case (Some e)
    show ?thesis
    proof (cases "Validate (ce_now env (world s)) 0 e")
      case None
      then obtain es' where d: "decodeBatch env c ms s = (Some (tl ps, es'), s')" "es = e # es'" "ps = m # tl ps"
        using Cons.prems Some by (auto split: prod.splits)
      have "tl ps = ms" "\<forall>m \<in> set ms. decoded_or_dead (log s') es' m" using Cons.IH [OF d(1)] by auto
      then show ?thesis using d Some by (auto simp: decoded_or_dead_def)
    next
      case bad: (Some err)
      then show ?thesis using Cons.prems Some dead by (fastforce split: prod.splits option.splits)
    qed
  qed
qed

lemma decode_loop_ok:
  "decode_loop env c n ms b s = (Finished (ps, es, b'), s') \<Longrightarrow> backoff_ok b \<Longrightarrow>
     ps = ms \<and> (\<forall>m \<in> set ms. decoded_or_dead (log s') es m) \<and> backoff_ok b'"
proof (induction n arbitrary: b s)
  case 0
  then show ?case by simp
next
  case (Suc n)
  then show ?case
    by (auto split: prod.splits option.splits if_splits bool.splits dest!: decodeBatch_ok)
qed

lemma handle_batch_log: "handle_batch env es s = (r, s') \<Longrightarrow> HandledBatch es r \<in> set (log s')"
  by (auto simp: handle_batch_def split: prod.splits)

lemma handle_loop_ok:
  "handle_loop env c n ms es b s = (Finished b', s') \<Longrightarrow> backoff_ok b \<Longrightarrow>
     (\<forall>e \<in> set es. settled (log s') e) \<and> backoff_ok b'"
proof (induction n arbitrary: b s)
  case 0
  then show ?case by simp
next
  case (Suc n)
  obtain h s1 where h: "handle_batch env es s = (h, s1)" by (cases "handle_batch env es s")
  have retry: ?case if "wait_for env b t = (f, t')"
      "(case f of False \<Rightarrow> (Stopped, t') | True \<Rightarrow> handle_loop env c n ms es (next_backoff b) t') = (Finished b', s')" for f t t'
    using that(2) Suc.IH [of "next_backoff b" t'] Suc.prems(2) by (auto split: bool.splits)
  show ?case
  proof (cases h)
    case None
    then show ?thesis
      using Suc.prems h handle_batch_log [OF h] by (auto intro: settledI(1))
  next
    case (Some err)
    show ?thesis
    proof (cases "if co_dlq c then as_batch_dead_letter err else None")
      case None
      then show ?thesis using Suc.prems(1) h Some retry by (fastforce split: prod.splits)
    next
      case bd: (Some t)
      obtain evs cause where t: "t = (evs, cause)" by (cases t)
      obtain q s2 where q: "deadLetterBatch env ms evs cause s1 = (q, s2)"
        by (cases "deadLetterBatch env ms evs cause s1")
      show ?thesis
      proof (cases q)
        case None
        have hb: "HandledBatch es (Some err) \<in> set (log s2)"
          using handle_batch_log [OF h] Some addsD [OF deadLetterBatch_adds [OF q]] by auto
        have "\<forall>f \<in> set evs. key_dead_lettered (log s2) f" using deadLetterBatch_ok q None by blast
        then have "\<forall>e \<in> set es. settled (log s2) e"
          using settledI(2) [OF _ hb] bd t by (auto split: if_splits)
        then show ?thesis using Suc.prems h Some bd t q None by auto
      next
        case err: (Some dlqErr)
        then show ?thesis using Suc.prems(1) h Some bd t q retry by (fastforce split: prod.splits)
      qed
    qed
  qed
qed

lemma fetch_more_log:
  "fetch_more env room dl ms s = (r, s') \<Longrightarrow>
     \<exists>x. log s' = log s @ map Fetched x \<and> (case r of Some out \<Rightarrow> out = ms @ x | None \<Rightarrow> ctx_done env s')"
proof (induction room arbitrary: ms s)
  case 0
  then show ?case by auto
next
  case (Suc room)
  show ?case
  proof (cases "time_Sub dl (ce_now env (world s)) \<le> 0")
    case True
    then show ?thesis using Suc.prems by auto
  next
    case False
    obtain f s1 where f: "fetch env (Some (time_Sub dl (ce_now env (world s)))) s = (f, s1)"
      by (cases "fetch env (Some (time_Sub dl (ce_now env (world s)))) s")
    show ?thesis
    proof (cases f)
      case None
      then have "log s1 = log s" using f by (auto simp: fetch_def split: prod.splits option.splits)
      then show ?thesis using Suc.prems False f None by (auto simp: Let_def split: if_splits)
    next
      case (Some m)
      then have l: "log s1 = log s @ [Fetched m]" using f by (auto simp: fetch_def split: prod.splits option.splits)
      have "fetch_more env room dl (ms @ [m]) s1 = (r, s')" using Suc.prems False f Some by (simp add: Let_def)
      from Suc.IH [OF this] obtain x where
        "log s' = log s1 @ map Fetched x \<and> (case r of Some out \<Rightarrow> out = (ms @ [m]) @ x | None \<Rightarrow> ctx_done env s')" by blast
      then show ?thesis using l by (intro exI [of _ "m # x"]) (auto split: option.splits)
    qed
  qed
qed

lemma fetchBatch_log:
  assumes "fetchBatch env c s = (r, s')"
  shows "\<exists>x. log s' = log s @ map Fetched x \<and> (case r of Some out \<Rightarrow> out = x | None \<Rightarrow> x = [] \<or> ctx_done env s')"
proof -
  obtain f s1 where f: "fetch env None s = (f, s1)" by (cases "fetch env None s")
  show ?thesis
  proof (cases f)
    case None
    then have "log s1 = log s" using f by (auto simp: fetch_def split: prod.splits option.splits)
    then show ?thesis using assms f None by (auto simp: fetchBatch_def)
  next
    case (Some m)
    then have l: "log s1 = log s @ [Fetched m]" using f by (auto simp: fetch_def split: prod.splits option.splits)
    have "fetch_more env (nat (co_batchSize c - 1)) (time_Add (ce_now env (world s1)) (co_batchTimeout c)) [m] s1 = (r, s')"
      using assms f Some by (simp add: fetchBatch_def)
    from fetch_more_log [OF this] obtain x where
      "log s' = log s1 @ map Fetched x \<and> (case r of Some out \<Rightarrow> out = [m] @ x | None \<Rightarrow> ctx_done env s')" by blast
    then show ?thesis using l by (intro exI [of _ "m # x"]) (auto split: option.splits)
  qed
qed

lemma record_all_adds: "adds s (record_all c es s)"
proof (induction es arbitrary: s)
  case Nil
  then show ?case by simp
next
  case (Cons e es)
  then show ?case using recordProcessing_adds adds_trans by (metis record_all.simps(2))
qed

text \<open>Between rounds everything fetched is committed; at any moment the commits are a prefix.\<close>

definition round_ok :: "'w run \<Rightarrow> bool" where
  "round_ok s \<longleftrightarrow> log_ok (log s) \<and> committed (log s) = fetched (log s)"

definition run_ok :: "'w run \<Rightarrow> bool" where
  "run_ok s \<longleftrightarrow> log_ok (log s) \<and> prefix (committed (log s)) (fetched (log s))"

lemma round_run_ok: "round_ok s \<Longrightarrow> run_ok s"
  by (simp add: round_ok_def run_ok_def)

lemma adds_run_ok: "adds s s' \<Longrightarrow> run_ok s \<Longrightarrow> run_ok s'"
  using adds_quiet log_ok_adds by (metis run_ok_def)

lemma adds_round_ok: "adds s s' \<Longrightarrow> round_ok s \<Longrightarrow> round_ok s'"
  using adds_quiet log_ok_adds by (metis round_ok_def)

lemma fetched_map [simp]: "fetched (map Fetched x) = x" "committed (map Fetched x) = []"
  by (induction x) auto

lemma log_ok_fetched: "log_ok l \<Longrightarrow> log_ok (l @ map Fetched x)"
proof (induction x arbitrary: l)
  case (Cons m x)
  from Cons.IH [OF log_ok_snoc [OF Cons.prems, of "Fetched m"]] show ?case by simp
qed simp

lemma committed_round:
  assumes "log_ok (log t)" "fetched (log t) = committed (log t) @ ms" "\<forall>m \<in> set ms. accounted (log t) m"
    and "log s' = log t @ [Committed ms]"
  shows "round_ok s'"
  using log_ok_snoc [OF assms(1), of "Committed ms"] assms by (simp add: round_ok_def)

lemma commit_round:
  assumes "commitMessages env n ms b s = (r, s')" "backoff_ok b" "log_ok (log s)"
    and "fetched (log s) = committed (log s) @ ms" "\<forall>m \<in> set ms. accounted (log s) m"
  shows "run_ok s' \<and> (\<forall>u. r = Finished u \<longrightarrow> round_ok s')"
proof -
  have keep: "log_ok (log t) \<and> fetched (log t) = committed (log t) @ ms \<and> (\<forall>m \<in> set ms. accounted (log t) m)"
    if "adds s t" for t
    using assms(3-5) log_ok_adds [OF that] adds_quiet [OF that] accounted_adds [OF that] by auto
  show ?thesis
  proof (cases r)
    case (Finished u)
    then obtain t where t: "adds s t" "log s' = log t @ [Committed ms]"
      using commitMessages_adds [OF assms(1,2)] by auto
    then have "round_ok s'" using keep [OF t(1)] by (intro committed_round [OF _ _ _ t(2)]) auto
    then show ?thesis by (simp add: round_run_ok)
  next
    case Stopped
    then show ?thesis using commitMessages_adds [OF assms(1,2)] keep [of s'] by (simp add: run_ok_def)
  next
    case Running
    then show ?thesis using commitMessages_adds [OF assms(1,2)] keep [of s'] by (simp add: run_ok_def)
  qed
qed

lemma accounted_decoded:
  "decoded_or_dead l es m \<Longrightarrow> \<forall>e \<in> set es. settled l e \<Longrightarrow> accounted l m"
  by (auto simp: decoded_or_dead_def accounted_def)

lemma decoded_or_dead_adds: "adds s s' \<Longrightarrow> decoded_or_dead (log s) es m \<Longrightarrow> decoded_or_dead (log s') es m"
  using dead_lettered_adds by (auto simp: decoded_or_dead_def)

lemma runBatch_ok: "runBatch env c n b s = (r, s') \<Longrightarrow> backoff_ok b \<Longrightarrow> round_ok s \<Longrightarrow> run_ok s'"
proof (induction n arbitrary: b s)
  case 0
  then show ?case by (simp add: round_run_ok)
next
  case (Suc n)
  obtain f s1 where f: "fetchBatch env c s = (f, s1)" by (cases "fetchBatch env c s")
  obtain x where x: "log s1 = log s @ map Fetched x" "case f of Some out \<Rightarrow> out = x | None \<Rightarrow> x = [] \<or> ctx_done env s1"
    using fetchBatch_log [OF f] by blast
  have s1: "log_ok (log s1)" "fetched (log s1) = committed (log s1) @ x"
    using Suc.prems(3) x(1) log_ok_fetched by (auto simp: round_ok_def)
  then have run1: "run_ok s1" by (simp add: run_ok_def)
  show ?case
  proof (cases f)
    case None
    show ?thesis
    proof (cases "ctx_done env s1")
      case True
      then show ?thesis using Suc.prems(1) f None run1 by simp
    next
      case False
      obtain q s2 where q: "wait_for env b s1 = (q, s2)" by (cases "wait_for env b s1")
      have "round_ok s1" using s1 x(2) None False by (simp add: round_ok_def)
      then have "round_ok s2" using adds_round_ok wait_for_adds [OF q Suc.prems(2)] by blast
      then show ?thesis
        using Suc.prems f None False q Suc.IH [of "next_backoff b" s2] by (auto simp: round_run_ok split: bool.splits)
    qed
  next
    case (Some ms)
    then have ms: "ms = x" using x(2) by simp
    obtain d s2 where d: "decode_loop env c n ms b s1 = (d, s2)" by (cases "decode_loop env c n ms b s1")
    have a2: "adds s1 s2" using decode_loop_adds [OF d Suc.prems(2)] .
    have s2: "log_ok (log s2)" "fetched (log s2) = committed (log s2) @ ms" "run_ok s2"
      using log_ok_adds [OF a2 s1(1)] adds_quiet [OF a2] s1(2) ms adds_run_ok [OF a2 run1] by auto
    show ?thesis
    proof (cases d)
      case (Finished t)
      obtain ps es b1 where t: "t = (ps, es, b1)" by (cases t)
      note dl = decode_loop_ok [OF d [unfolded Finished t] Suc.prems(2)]
      have ps: "ps = ms" and dec: "\<forall>m \<in> set ms. decoded_or_dead (log s2) es m" and b1: "backoff_ok b1" using dl by auto
      show ?thesis
      proof (cases "es = []")
        case True
        obtain k s3 where k: "commitMessages env n ms b1 s2 = (k, s3)" by (cases "commitMessages env n ms b1 s2")
        have "\<forall>m \<in> set ms. accounted (log s2) m" using dec True accounted_decoded by fastforce
        note cr = commit_round [OF k b1 s2(1,2) this]
        show ?thesis
          using Suc.prems(1) f Some d Finished t True ps k cr Suc.IH [of Second s3] by (auto split: loop.splits)
      next
        case False
        obtain h s3 where h: "handle_loop env c n ms es b1 s2 = (h, s3)" by (cases "handle_loop env c n ms es b1 s2")
        have a3: "adds s2 s3" using handle_loop_adds [OF h b1] .
        have s3: "log_ok (log s3)" "fetched (log s3) = committed (log s3) @ ms" "run_ok s3"
          using log_ok_adds [OF a3 s2(1)] adds_quiet [OF a3] s2(2) adds_run_ok [OF a3 s2(3)] by auto
        show ?thesis
        proof (cases h)
          case fin: (Finished b2)
          obtain k s4 where k: "commitMessages env n ms b2 s3 = (k, s4)" by (cases "commitMessages env n ms b2 s3")
          note hl = handle_loop_ok [OF h [unfolded fin] b1]
          have "\<forall>m \<in> set ms. accounted (log s3) m"
            using dec hl accounted_decoded decoded_or_dead_adds [OF a3] by blast
          note cr = commit_round [OF k conjunct2 [OF hl] s3(1,2) this]
          have rec: "round_ok s4 \<Longrightarrow> round_ok (record_all c es s4)" using adds_round_ok record_all_adds by blast
          show ?thesis
            using Suc.prems(1) f Some d Finished t False ps h fin k cr rec Suc.IH [of Second "record_all c es s4"]
            by (auto split: loop.splits)
        qed (use Suc.prems(1) f Some d Finished t False h s3(3) in auto)
      qed
    qed (use Suc.prems(1) f Some d s2(3) in auto)
  qed
qed

section \<open>One message at a time\<close>

lemma dead_lettered_single: "dead_lettered [Handled e r, DeadLettered [dead_letter_message cause m], Committed ms] m"
  "dead_lettered [DeadLettered [dead_letter_message cause m], Committed ms] m"
  by (auto simp: dead_lettered_def)

lemma deadLetter_log:
  assumes "deadLetter env c msg cause s = (err, s')"
  shows "\<exists>x. log s' = log s @ x \<and> (err = None \<longrightarrow> x = [DeadLettered [dead_letter_message cause msg], Committed [msg]]) \<and>
    (err \<noteq> None \<longrightarrow> x = [] \<or> x = [DeadLettered [dead_letter_message cause msg]])"
  using assms
  by (auto simp: deadLetter_def writeDeadLetter_def dlq_write_def commit_def split: if_splits prod.splits bool.splits)

lemma processMessage_log:
  assumes "processMessage env c msg s = ((processed, err), s')"
  shows "\<exists>x. log s' = log s @ x \<and> (err = None \<longrightarrow> committed x = [msg]) \<and> (err \<noteq> None \<longrightarrow> committed x = []) \<and>
    (processed \<longrightarrow> err = None \<and> (\<exists>e. Unmarshal_event (m_Value msg) = Some e \<and> Handled e None \<in> set x)) \<and>
    (err = None \<and> \<not> processed \<longrightarrow> dead_lettered x msg) \<and> (\<forall>d. Waited d \<notin> set x) \<and> fetched x = []"
proof (cases "\<exists>cause. processed = False \<and> deadLetter env c msg cause s = (err, s')")
  case True
  then obtain cause where "\<not> processed" "deadLetter env c msg cause s = (err, s')" by blast
  then show ?thesis using deadLetter_log [of env c msg cause s err s'] by (auto simp: dead_lettered_single)
next
  case False
  then obtain e where e: "Unmarshal_event (m_Value msg) = Some e" "Validate (ce_now env (world s)) 0 e = None"
    using assms by (auto simp: processMessage_def split: option.splits prod.splits)
  obtain h w1 where h: "ce_handler env e (world s) = (h, w1)" by fastforce
  show ?thesis
  proof (cases h)
    case None
    then show ?thesis
      using assms e h
      by (auto simp: processMessage_def handle_def commit_def split: prod.splits bool.splits)
  next
    case (Some herr)
    then show ?thesis
      using assms e h
      by (auto simp: processMessage_def handle_def commit_def dlq_write_def dead_lettered_single
          split: prod.splits bool.splits if_splits)
  qed
qed

lemma runSingle_waits:
  "runSingle env c n b s = (r, s') \<Longrightarrow> backoff_ok b \<Longrightarrow> \<forall>d. Waited d \<in> set (log s) \<longrightarrow> backoff_ok d \<Longrightarrow>
     \<forall>d. Waited d \<in> set (log s') \<longrightarrow> backoff_ok d"
proof (induction n arbitrary: b s)
  case 0
  then show ?case by simp
next
  case (Suc n)
  have waits: "\<forall>d. Waited d \<in> set (log t') \<longrightarrow> backoff_ok d"
    if "wait_for env b t = (q, t')" "\<forall>d. Waited d \<in> set (log t) \<longrightarrow> backoff_ok d" for t q t'
    using that Suc.prems(2) by (auto simp: wait_for_def split: prod.splits)
  obtain f s1 where f: "fetch env None s = (f, s1)" by (cases "fetch env None s")
  have s1: "\<forall>d. Waited d \<in> set (log s1) \<longrightarrow> backoff_ok d"
    using f Suc.prems(3) by (auto simp: fetch_def split: prod.splits option.splits)
  show ?case
  proof (cases f)
    case None
    obtain q s2 where q: "wait_for env b s1 = (q, s2)" by (cases "wait_for env b s1")
    show ?thesis
      using Suc.prems(1,2) f None q s1 waits [OF q s1] Suc.IH [of "next_backoff b" s2]
      by (auto split: if_splits bool.splits)
  next
    case (Some msg)
    obtain p e s2 where p: "processMessage env c msg s1 = ((p, e), s2)"
      by (metis prod.exhaust)
    define s3 where "s3 = recordProcessing c p e s2"
    have "\<forall>d. Waited d \<in> set (log s2) \<longrightarrow> backoff_ok d" using processMessage_log [OF p] s1 by auto
    then have s3: "\<forall>d. Waited d \<in> set (log s3) \<longrightarrow> backoff_ok d"
      by (auto simp: s3_def recordProcessing_def Let_def)
    obtain q s4 where q: "wait_for env b s3 = (q, s4)" by (cases "wait_for env b s3")
    have "(if e \<noteq> None then (case q of False \<Rightarrow> (Stopped, s4) | True \<Rightarrow> runSingle env c n (next_backoff b) s4)
        else runSingle env c n Second s3) = (r, s')"
      using Suc.prems(1) f Some p q by (cases e) (simp_all add: Let_def s3_def)
    then show ?thesis
      using Suc.prems(2) s3 waits [OF q s3] Suc.IH [of "next_backoff b" s4] Suc.IH [of Second s3]
      by (simp split: if_splits bool.splits)
  qed
qed

section \<open>Steps that succeed\<close>

lemma writeDeadLetter_total:
  assumes "co_dlq c" "\<forall>ms w. fst (ce_write env ms w)"
  shows "\<exists>s'. writeDeadLetter env c m cause s = (None, s')"
proof -
  obtain w where "ce_write env [dead_letter_message cause m] (world s) = (True, w)"
    using assms(2) by (metis prod.collapse)
  then show ?thesis using assms(1) by (simp add: writeDeadLetter_def dlq_write_def)
qed

lemma decodeBatch_total:
  assumes "co_dlq c" "\<forall>ms w. fst (ce_write env ms w)"
  shows "\<exists>es s'. decodeBatch env c ms s = (Some (ms, es), s')"
proof (induction ms arbitrary: s)
  case Nil
  then show ?case by simp
next
  case (Cons m ms)
  have *: "\<exists>s1 es s2. writeDeadLetter env c m cause s = (None, s1) \<and> decodeBatch env c ms s1 = (Some (ms, es), s2)" for cause
    using writeDeadLetter_total [OF assms] Cons.IH by metis
  show ?case
  proof (cases "Unmarshal_event (m_Value m)")
    case None
    then show ?thesis using * [of "Wrap ''decode kafka event'' (Opaque ''json'')"] by auto
  next
    case (Some e)
    show ?thesis
    proof (cases "Validate (ce_now env (world s)) 0 e")
      case None
      then show ?thesis using Some Cons.IH [of s] by auto
    next
      case bad: (Some err)
      then show ?thesis using Some * [of "Wrap ''validate kafka event'' (Opaque ''event'')"] by auto
    qed
  qed
qed

lemma handle_batch_total:
  assumes "\<forall>es w. fst (ce_batchHandler env es w) = None"
  shows "\<exists>s'. handle_batch env es s = (None, s')"
proof -
  obtain w where "ce_batchHandler env es (world s) = (None, w)" using assms by (metis prod.collapse)
  then show ?thesis by (simp add: handle_batch_def)
qed

lemma commit_total:
  assumes "\<forall>ms w. fst (ce_commit env ms w)"
  shows "\<exists>s'. commit env ms s = (True, s') \<and> log s' = log s @ [Committed ms]"
proof -
  obtain w where "ce_commit env ms (world s) = (True, w)" using assms by (metis prod.collapse)
  then show ?thesis by (simp add: commit_def)
qed

section \<open>Sample messages\<close>

definition sample_event :: "bytes \<Rightarrow> event" where
  "sample_event i = \<lparr>TenantID = ''acme'', EventID = i, Type = ''t'', Timestamp = 0, Payload = ''{}''\<rparr>"

definition sample_value :: "bytes \<Rightarrow> bytes" where
  "sample_value i =
     ''{'' @ quote # ''tenantId'' @ quote # '':'' @ quote # ''acme'' @ quote # '','' @
     quote # ''eventId'' @ quote # '':'' @ quote # i @ quote # '','' @
     quote # ''type'' @ quote # '':'' @ quote # ''t'' @ quote # '','' @
     quote # ''timestamp'' @ quote # '':'' @ quote # ''1970-01-01T00:00:00Z'' @ quote # '','' @
     quote # ''payload'' @ quote # '':{}}''"

definition sample_message :: "bytes \<Rightarrow> message" where
  "sample_message i = \<lparr>m_Key = ''acme'', m_Value = sample_value i, m_Headers = []\<rparr>"

lemma sample_unmarshal:
  "Unmarshal_event (sample_value ''a'') = Some (sample_event ''a'')"
  "Unmarshal_event (sample_value ''b'') = Some (sample_event ''b'')"
  by code_simp+

lemma sample_validate: "Validate 0 0 (sample_event ''a'') = None" "Validate 0 0 (sample_event ''b'') = None"
  by code_simp+

text \<open>
  A client that hands out two messages and then only errors; commits and dead letters
  succeed, the handlers fail on the events that \<open>bad\<close> selects. The world counts fetches.
\<close>

definition sample_consumer_env :: "(event \<Rightarrow> bool) \<Rightarrow> nat consumer_env" where
  "sample_consumer_env bad =
     \<lparr>ce_fetch = \<lambda>_ w. ((if w = 0 then Some (sample_message ''a'') else if w = 1 then Some (sample_message ''b'') else None), w + 1),
      ce_commit = \<lambda>_ w. (True, w), ce_write = \<lambda>_ w. (True, w),
      ce_handler = \<lambda>e w. (if bad e then Some (Opaque ''down'') else None, w),
      ce_batchHandler = \<lambda>es w. (if list_ex bad es then Some (Opaque ''down'') else None, w),
      ce_wait = \<lambda>_ w. (True, w), ce_done = \<lambda>w. 2 < w, ce_now = \<lambda>_. 0\<rparr>"

definition sample_consumer :: consumer where
  "sample_consumer = \<lparr>co_batchHandler = True, co_batchSize = 2, co_batchTimeout = Second, co_dlq = True,
     co_metrics = False, co_group = ''g'', co_worker = []\<rparr>"

lemma EventID_sample: "EventID (sample_event i) = i"
  by (simp add: sample_event_def)

lemmas sample_defs = sample_consumer_env_def sample_consumer_def sample_message_def sample_unmarshal sample_validate

section \<open>Properties\<close>

text \<open>
  C2: batch mode is at least once and in order. At every moment of every run, whatever the
  client, the handler and the timers do, the committed messages are exactly the first ones
  fetched, in order and without a gap; and each commit comes after every message in it was
  accounted for: dead-lettered because it could not be decoded, or handled in a batch that
  succeeded, or in one whose failed events were all dead-lettered first.
\<close>

theorem batch_commits_only_accounted:
  "prefix (committed (log (snd (runBatch env c n Second (State w []))))) (fetched (log (snd (runBatch env c n Second (State w []))))) \<and>
   (\<forall>l1 ms l2. log (snd (runBatch env c n Second (State w []))) = l1 @ Committed ms # l2 \<longrightarrow>
      (\<forall>m \<in> set ms. accounted l1 m))"
proof -
  have "run_ok (snd (runBatch env c n Second (State w [])))"
    by (rule runBatch_ok [OF prod.collapse [symmetric] backoff_ok_Second]) (simp add: round_ok_def)
  then show ?thesis by (auto simp: run_ok_def log_ok_def)
qed

lemma sample_batch_run:
  "log (snd (runBatch (sample_consumer_env (\<lambda>_. False)) sample_consumer 2 Second (State 0 []))) =
     [Fetched (sample_message ''a''), Fetched (sample_message ''b''),
      HandledBatch [sample_event ''a'', sample_event ''b''] None,
      Committed [sample_message ''a'', sample_message ''b'']]"
  by (simp add: sample_defs numeral_2_eq_2 fetchBatch_def fetch_def ctx_done_def wait_for_def handle_batch_def commit_def
      recordProcessing_def time_defs Let_def)

theorem batch_commits_only_accounted_witness:
  "accounted [Fetched (sample_message ''a''), Fetched (sample_message ''b''),
     HandledBatch [sample_event ''a'', sample_event ''b''] None] (sample_message ''b'')"
  using batch_commits_only_accounted [of "sample_consumer_env (\<lambda>_. False)" sample_consumer 2 0, unfolded sample_batch_run]
  by simp

text \<open>
  C30: a batch gets through. If the batch handler succeeds, dead letters can be written (or
  none is needed) and commits succeed, then a fetched batch is committed whole within the
  round, and the loop goes on with its backoff reset.
\<close>

theorem batch_round_completes:
  assumes "fetchBatch env c s = (Some ms, s1)" "co_dlq c"
    and "\<forall>ms w. fst (ce_write env ms w)" "\<forall>ms w. fst (ce_commit env ms w)"
    and "\<forall>es w. fst (ce_batchHandler env es w) = None"
  shows "\<exists>s'. runBatch env c (Suc (Suc n)) b s = runBatch env c (Suc n) Second s' \<and>
    committed (log s') = committed (log s) @ ms"
proof -
  obtain es s2 where d: "decodeBatch env c ms s1 = (Some (ms, es), s2)"
    using decodeBatch_total [OF assms(2,3)] by blast
  obtain s3 where h: "handle_batch env es s2 = (None, s3)"
    using handle_batch_total [OF assms(5)] by blast
  obtain s4 s5 where k: "commit env ms s2 = (True, s4)" "commit env ms s3 = (True, s5)"
    "log s4 = log s2 @ [Committed ms]" "log s5 = log s3 @ [Committed ms]"
    using commit_total [OF assms(4)] by metis
  have q: "committed (log s1) = committed (log s)" using fetchBatch_log [OF assms(1)] by auto
  note a2 = decodeBatch_adds [OF d] and a3 = handle_batch_adds [OF h]
  show ?thesis
  proof (cases "es = []")
    case True
    have "runBatch env c (Suc (Suc n)) b s = runBatch env c (Suc n) Second s4"
      using assms(1) d k(1) True by simp
    moreover have "committed (log s4) = committed (log s) @ ms" using k(3) adds_quiet [OF a2] q by simp
    ultimately show ?thesis by blast
  next
    case False
    have "runBatch env c (Suc (Suc n)) b s = runBatch env c (Suc n) Second (record_all c es s5)"
      using assms(1) d h k(2) False by simp
    moreover have "committed (log (record_all c es s5)) = committed (log s) @ ms"
      using k(4) adds_quiet [OF a2] adds_quiet [OF a3] q adds_quiet [OF record_all_adds, of c es s5] by simp
    ultimately show ?thesis by blast
  qed
qed

theorem batch_round_completes_witness:
  "\<exists>s'. runBatch (sample_consumer_env (\<lambda>_. False)) sample_consumer (Suc (Suc 0)) Second (State 0 []) =
       runBatch (sample_consumer_env (\<lambda>_. False)) sample_consumer (Suc 0) Second s' \<and>
     committed (log s') = committed (log (State 0 [])) @ [sample_message ''a'', sample_message ''b'']"
proof -
  have "fetchBatch (sample_consumer_env (\<lambda>_. False)) sample_consumer (State 0 []) =
      (Some [sample_message ''a'', sample_message ''b''],
       State 2 [Fetched (sample_message ''a''), Fetched (sample_message ''b'')])"
    by (simp add: sample_defs fetchBatch_def fetch_def ctx_done_def time_defs Let_def)
  from batch_round_completes [OF this, of 0 Second] show ?thesis
    by (simp add: sample_consumer_env_def sample_consumer_def list_ex_iff)
qed

text \<open>
  A single message. \<open>processMessage\<close> commits the message exactly when it reports no
  error; it counts it as processed only if the handler took its event without error; and
  a message committed without being processed was written to the dead-letter topic first.
\<close>

theorem process_message_commits:
  assumes "processMessage env c msg s = ((processed, err), s')"
  shows "\<exists>x. log s' = log s @ x \<and> (if err = None then committed x = [msg] else committed x = []) \<and>
    (processed \<longrightarrow> err = None \<and> (\<exists>e. Unmarshal_event (m_Value msg) = Some e \<and> Handled e None \<in> set x)) \<and>
    (err = None \<and> \<not> processed \<longrightarrow> dead_lettered x msg)"
  using processMessage_log [OF assms] by auto

theorem process_message_commits_witness:
  "\<exists>x s'. processMessage (sample_consumer_env (\<lambda>_. False)) sample_consumer (sample_message ''a'') (State 0 []) =
     ((True, None), s') \<and> log s' = x \<and> committed x = [sample_message ''a'']"
proof -
  have "processMessage (sample_consumer_env (\<lambda>_. False)) sample_consumer (sample_message ''a'') (State 0 []) =
      ((True, None), State 0 [Handled (sample_event ''a'') None, Committed [sample_message ''a'']])"
    by (simp add: sample_defs processMessage_def handle_def commit_def)
  with process_message_commits [OF this] show ?thesis by auto
qed

text \<open>
  The pauses of the consumer loops, single and batch, are one second doubled at most
  five times: never less than a second and never more than 32, however long it runs.
\<close>

theorem consumer_backoff_bounded:
  assumes "Waited d \<in> set (log (snd (Run env c n (State w []))))"
  shows "Second \<le> d \<and> d \<le> 32 * Second"
proof -
  have "backoff_ok d"
  proof (cases "co_batchHandler c \<and> 1 < co_batchSize c")
    case True
    have "run_ok (snd (runBatch env c n Second (State w [])))"
      by (rule runBatch_ok [OF prod.collapse [symmetric] backoff_ok_Second]) (simp add: round_ok_def)
    then show ?thesis using assms True by (simp add: Run_def run_ok_def log_ok_def)
  next
    case False
    have "\<forall>d. Waited d \<in> set (log (snd (runSingle env c n Second (State w [])))) \<longrightarrow> backoff_ok d"
      by (rule runSingle_waits [OF prod.collapse [symmetric] backoff_ok_Second]) simp
    then show ?thesis using assms False by (auto simp: Run_def)
  qed
  then show ?thesis by (auto simp: backoff_ok_def Second_def)
qed

lemma sample_single_run:
  "log (snd (runSingle (sample_consumer_env (\<lambda>e. EventID e = ''a'')) (sample_consumer\<lparr>co_batchHandler := False\<rparr>) 2 Second (State 0 []))) =
     [Fetched (sample_message ''a''), Handled (sample_event ''a'') (Some (Opaque ''down'')), Waited Second,
      Fetched (sample_message ''b''), Handled (sample_event ''b'') None, Committed [sample_message ''b'']]"
  by (simp add: sample_defs numeral_2_eq_2 processMessage_def fetch_def ctx_done_def wait_for_def handle_def commit_def
      recordProcessing_def EventID_sample Let_def)

theorem consumer_backoff_bounded_witness: "Second \<le> Second \<and> Second \<le> 32 * Second"
  by (rule consumer_backoff_bounded [of Second "sample_consumer_env (\<lambda>e. EventID e = ''a'')"
        "sample_consumer\<lparr>co_batchHandler := False\<rparr>" 2 0])
    (simp add: Run_def sample_single_run)


end
