(* ===== verification/Consumer_Steps.thy ===== *)
theory Consumer_Steps
  imports Kafka_Consumer
begin

text \<open>
  The consumer of \<open>internal/kafka/producer.go\<close> as a state machine: its primitive effects as a
  step relation on the world and the log, and that both loops under \<open>Run\<close> take only such
  steps. Invariants of a running consumer are then proved step by step, whatever the loops
  around them do.
\<close>

section \<open>Steps\<close>

text \<open>
  Why a message that was fetched may be dead-lettered: it does not decode, its event is not
  valid at some moment, the handler of its event asked for it, or the batch handler named
  its event.
\<close>

definition rejected :: "'w consumer_env \<Rightarrow> effect list \<Rightarrow> message \<Rightarrow> bool" where
  "rejected env l m \<longleftrightarrow>
     Fetched m \<in> set l \<and>
     (case Unmarshal_event (m_Value m) of
        None \<Rightarrow> True
      | Some e \<Rightarrow>
          (\<exists>w. Validate (ce_now env w) 0 e \<noteq> None) \<or>
          (\<exists>err. Handled e (Some err) \<in> set l \<and> as_dead_letter err) \<or>
          (\<exists>es err evs cause. HandledBatch es (Some err) \<in> set l \<and> as_batch_dead_letter err = Some (evs, cause) \<and>
             event_key e \<in> event_key ` set evs))"

inductive consumer_step :: "'w consumer_env \<Rightarrow> 'w run \<Rightarrow> 'w run \<Rightarrow> bool" for env where
  step_fetch: "fetch env t s = (r, s') \<Longrightarrow> consumer_step env s s'"
| step_commit: "commit env ms s = (r, s') \<Longrightarrow> consumer_step env s s'"
| step_dlq: "dlq_write env ms s = (r, s') \<Longrightarrow>
    \<forall>x \<in> set ms. \<exists>m cause. x = dead_letter_message cause m \<and> rejected env (log s) m \<Longrightarrow> consumer_step env s s'"
| step_handle: "handle env e s = (r, s') \<Longrightarrow> consumer_step env s s'"
| step_handle_batch: "handle_batch env es s = (r, s') \<Longrightarrow> consumer_step env s s'"
| step_wait: "wait_for env d s = (r, s') \<Longrightarrow> consumer_step env s s'"
| step_record: "consumer_step env s (recordProcessing c p err s)"

lemmas step_defs = fetch_def commit_def dlq_write_def handle_def handle_batch_def wait_for_def recordProcessing_def Let_def

abbreviation consumer_reach :: "'w consumer_env \<Rightarrow> 'w run \<Rightarrow> 'w run \<Rightarrow> bool" where
  "consumer_reach env \<equiv> (consumer_step env)\<^sup>*\<^sup>*"

lemmas reach_step = r_into_rtranclp [of "consumer_step env" for env]
  and reach_trans = rtranclp_trans [of "consumer_step env" for env]

lemmas step_reach = reach_step [OF step_fetch] reach_step [OF step_commit] reach_step [OF step_handle]
  reach_step [OF step_handle_batch] reach_step [OF step_wait] reach_step [OF step_record]

text \<open>The log grows, so messages stay fetched.\<close>

lemma step_log:
  assumes "consumer_step env s s'"
  shows "\<exists>x. log s' = log s @ x"
  using assms
  by (cases rule: consumer_step.cases)
    (auto simp: step_defs
      split: prod.splits option.splits if_splits)

abbreviation fetched_in :: "'w run \<Rightarrow> message list \<Rightarrow> bool" where
  "fetched_in s ms \<equiv> \<forall>m \<in> set ms. Fetched m \<in> set (log s)"

lemma reach_log: "consumer_reach env s s' \<Longrightarrow> x \<in> set (log s) \<Longrightarrow> x \<in> set (log s')"
  by (induction rule: rtranclp_induct) (auto dest: step_log)

lemma reach_fetched: "consumer_reach env s s' \<Longrightarrow> fetched_in s ms \<Longrightarrow> fetched_in s' ms"
  using reach_log by blast

section \<open>The operations take steps\<close>

lemma dlq_write_reach:
  "dlq_write env [dead_letter_message cause m] s = (r, s') \<Longrightarrow> rejected env (log s) m \<Longrightarrow> consumer_reach env s s'"
  by (rule reach_step [OF step_dlq], assumption) (simp, blast)

lemma writeDeadLetter_reach:
  assumes "writeDeadLetter env c m cause s = (r, s')" "rejected env (log s) m"
  shows "consumer_reach env s s'"
  using assms by (auto simp: writeDeadLetter_def split: if_splits prod.splits bool.splits dest: dlq_write_reach)

lemma deadLetter_reach:
  assumes "deadLetter env c m cause s = (r, s')" "rejected env (log s) m"
  shows "consumer_reach env s s'"
proof -
  obtain e s1 where w: "writeDeadLetter env c m cause s = (e, s1)" by (cases "writeDeadLetter env c m cause s")
  obtain k s2 where k: "commit env [m] s1 = (k, s2)" by (cases "commit env [m] s1")
  show ?thesis
    using assms(1) w k writeDeadLetter_reach [OF w assms(2)] reach_trans [OF _ step_reach(2) [OF k]]
    by (auto simp: deadLetter_def split: option.splits bool.splits)
qed

lemma pick_failed_messages:
  "pick_failed cause failed ms = (out, rest) \<Longrightarrow> x \<in> set out \<Longrightarrow>
     \<exists>m \<in> set ms. \<exists>e. x = dead_letter_message cause m \<and> Unmarshal_event (m_Value m) = Some e \<and> event_key e \<in> set failed"
proof (induction cause failed ms arbitrary: out rest rule: pick_failed.induct)
  case (2 cause failed m ms)
  then show ?case by (fastforce split: option.splits if_splits prod.splits)
qed simp

lemma rejectedI:
  "Fetched m \<in> set l \<Longrightarrow> Unmarshal_event (m_Value m) = None \<Longrightarrow> rejected env l m"
  "Fetched m \<in> set l \<Longrightarrow> Unmarshal_event (m_Value m) = Some e \<Longrightarrow> Validate (ce_now env w) 0 e = Some err \<Longrightarrow> rejected env l m"
  "Fetched m \<in> set l \<Longrightarrow> Unmarshal_event (m_Value m) = Some e \<Longrightarrow> Handled e (Some err') \<in> set l \<Longrightarrow> as_dead_letter err' \<Longrightarrow>
     rejected env l m"
  "Fetched m \<in> set l \<Longrightarrow> Unmarshal_event (m_Value m) = Some e \<Longrightarrow> HandledBatch es (Some err') \<in> set l \<Longrightarrow>
     as_batch_dead_letter err' = Some (evs, cause) \<Longrightarrow> event_key e \<in> event_key ` set evs \<Longrightarrow> rejected env l m"
  unfolding rejected_def by (simp_all, blast+)

lemma deadLetterBatch_reach:
  assumes "deadLetterBatch env ms evs cause s = (r, s')"
    and "HandledBatch es (Some err) \<in> set (log s)" "as_batch_dead_letter err = Some (evs, cause)" "fetched_in s ms"
  shows "consumer_reach env s s'"
proof -
  obtain out rest where p: "pick_failed cause (remdups (map event_key evs)) ms = (out, rest)" by fastforce
  obtain q s1 where q: "dlq_write env out s = (q, s1)" by (cases "dlq_write env out s")
  have "\<exists>m cause. x = dead_letter_message cause m \<and> rejected env (log s) m" if x: "x \<in> set out" for x
  proof -
    obtain m e where m: "m \<in> set ms" "x = dead_letter_message cause m" "Unmarshal_event (m_Value m) = Some e"
      "event_key e \<in> event_key ` set evs"
      using pick_failed_messages [OF p x] by auto
    with rejectedI(4) [OF _ m(3) assms(2,3)] assms(4) show ?thesis by blast
  qed
  then have "consumer_step env s s1" by (intro step_dlq [OF q]) blast
  then show ?thesis using assms(1) p q by (auto simp: deadLetterBatch_def Let_def split: if_splits bool.splits)
qed

lemma log_handle: "handle env e s = (r, s') \<Longrightarrow> Handled e r \<in> set (log s')"
  by (auto simp: handle_def split: prod.splits)

lemma log_handle_batch: "handle_batch env es s = (r, s') \<Longrightarrow> HandledBatch es r \<in> set (log s')"
  by (auto simp: handle_batch_def split: prod.splits)

lemma processMessage_reach:
  assumes "processMessage env c m s = (r, s')" "Fetched m \<in> set (log s)"
  shows "consumer_reach env s s'"
proof (cases "Unmarshal_event (m_Value m)")
  case None
  show ?thesis
    using assms(1) None deadLetter_reach [OF _ rejectedI(1) [OF assms(2) None]] by (auto simp: processMessage_def split: prod.splits)
next
  case (Some e)
  show ?thesis
  proof (cases "Validate (ce_now env (world s)) 0 e")
    case err: (Some err)
    then show ?thesis
      using assms(1) Some deadLetter_reach [OF _ rejectedI(2) [OF assms(2) Some err]] by (auto simp: processMessage_def split: prod.splits)
  next
    case None
    obtain h s1 where h: "handle env e s = (h, s1)" by (cases "handle env e s")
    note s1 = step_reach(3) [OF h]
    have ends: "consumer_reach env s s2" if "commit env [m] t = (k, s2)" "consumer_reach env s t" for t k s2
      using that(2) step_reach(2) [OF that(1)] by (rule reach_trans)
    have dead: "consumer_reach env s t" if "h = Some err" "as_dead_letter err" "dlq_write env [dead_letter_message err m] s1 = (q, t)" for err q t
    proof -
      have "rejected env (log s1) m"
        using rejectedI(3) [OF reach_log [OF s1 assms(2)] Some] log_handle [OF h] that(1,2) by simp
      from s1 dlq_write_reach [OF that(3) this] show ?thesis by (rule reach_trans)
    qed
    show ?thesis
      using assms(1) Some None h s1 dead ends
      by (auto simp: processMessage_def split: option.splits prod.splits bool.splits if_splits)
  qed
qed

lemma fetch_more_reach: "fetch_more env room t ms s = (r, s') \<Longrightarrow> consumer_reach env s s'"
proof (induction room arbitrary: ms s)
  case (Suc room)
  obtain f s1 where f: "fetch env (Some (time_Sub t (ce_now env (world s)))) s = (f, s1)"
    by (cases "fetch env (Some (time_Sub t (ce_now env (world s)))) s")
  show ?case
    using Suc.prems f step_reach(1) [OF f] Suc.IH [of _ s1] reach_trans [OF step_reach(1) [OF f]]
    by (auto simp: Let_def split: if_splits option.splits)
qed simp

lemma fetchBatch_reach: "fetchBatch env c s = (r, s') \<Longrightarrow> consumer_reach env s s'"
  by (auto simp: fetchBatch_def split: option.splits prod.splits dest!: step_reach(1) fetch_more_reach)

lemma log_fetch: "fetch env t s = (Some m, s') \<Longrightarrow> Fetched m \<in> set (log s')"
  by (auto simp: fetch_def split: prod.splits option.splits)

lemma fetch_more_fetched: "fetch_more env room t ms s = (Some xs, s') \<Longrightarrow> fetched_in s ms \<Longrightarrow> fetched_in s' xs"
proof (induction room arbitrary: ms s)
  case (Suc room)
  obtain f s1 where f: "fetch env (Some (time_Sub t (ce_now env (world s)))) s = (f, s1)"
    by (cases "fetch env (Some (time_Sub t (ce_now env (world s)))) s")
  note old = reach_fetched [OF step_reach(1) [OF f] Suc.prems(2)]
  have more: "fetched_in s' xs" if "f = Some m" "fetch_more env room t (ms @ [m]) s1 = (Some xs, s')" for m
    using Suc.IH [OF that(2)] old log_fetch [OF f [unfolded that(1)]] by auto
  show ?case using Suc.prems f old more by (auto simp: Let_def split: if_splits option.splits)
qed simp

lemma fetchBatch_fetched: "fetchBatch env c s = (Some ms, s') \<Longrightarrow> fetched_in s' ms"
  using fetch_more_fetched [where ms = "[m]" for m]
  by (fastforce simp: fetchBatch_def split: option.splits prod.splits dest: log_fetch)

lemma decodeBatch_reach: "decodeBatch env c ms s = (r, s') \<Longrightarrow> fetched_in s ms \<Longrightarrow> consumer_reach env s s'"
proof (induction ms arbitrary: s r s')
  case (Cons m ms)
  have skip: "consumer_reach env s s2"
    if "writeDeadLetter env c m cause s = (q, s1)" "rejected env (log s) m" "decodeBatch env c ms s1 = (x, s2)" for cause q s1 x s2
    using writeDeadLetter_reach [OF that(1,2)] Cons.IH [OF that(3) reach_fetched [OF writeDeadLetter_reach [OF that(1,2)]]] Cons.prems(2)
    by (auto intro: reach_trans)
  have dead: "consumer_reach env s s1" if "writeDeadLetter env c m cause s = (q, s1)" "rejected env (log s) m" for cause q s1
    by (rule writeDeadLetter_reach [OF that])
  have m: "Fetched m \<in> set (log s)" using Cons.prems(2) by simp
  show ?case
  proof (cases "Unmarshal_event (m_Value m)")
    case None
    then show ?thesis using Cons.prems(1) skip [OF _ rejectedI(1) [OF m]] dead [OF _ rejectedI(1) [OF m]] by (auto split: option.splits prod.splits)
  next
    case (Some e)
    show ?thesis
    proof (cases "Validate (ce_now env (world s)) 0 e")
      case None
      then show ?thesis using Cons.prems Some Cons.IH [of s] by (auto split: prod.splits)
    next
      case err: (Some err)
      then show ?thesis
        using Cons.prems Some skip [OF _ rejectedI(2) [OF m Some err]] dead [OF _ rejectedI(2) [OF m Some err]]
        by (auto split: option.splits prod.splits)
    qed
  qed
qed simp

lemma record_all_reach: "consumer_reach env s (record_all c es s)"
  by (induction es arbitrary: s) (auto intro: converse_rtranclp_into_rtranclp step_record)

section \<open>The loops take steps\<close>

text \<open>A pause, after which a loop gives up or goes on.\<close>

lemma pause_reach:
  assumes "consumer_reach env s t" "\<And>u. consumer_reach env s u \<Longrightarrow> consumer_reach env u (snd (again u))"
  shows "consumer_reach env s (snd (case wait_for env b t of (False, u) \<Rightarrow> (Stopped, u) | (True, u) \<Rightarrow> again u))"
proof -
  obtain f u where f: "wait_for env b t = (f, u)" by (cases "wait_for env b t")
  have "consumer_reach env s u" using assms(1) step_reach(5) [OF f] by (rule reach_trans)
  then show ?thesis using f assms(2) [of u] by (auto intro: reach_trans split: bool.splits)
qed

lemma decode_loop_reach: "fetched_in s ms \<Longrightarrow> consumer_reach env s (snd (decode_loop env c n ms b s))"
proof (induction n arbitrary: b s)
  case (Suc n)
  obtain d s1 where d: "decodeBatch env c ms s = (d, s1)" by (cases "decodeBatch env c ms s")
  note s1 = decodeBatch_reach [OF d Suc.prems]
  note again = Suc.IH [OF reach_fetched [OF _ Suc.prems], where env1 = env]
  show ?case using d s1 pause_reach [OF s1 again, where b = b] by (auto split: option.splits)
qed simp

lemma commitMessages_reach: "consumer_reach env s (snd (commitMessages env n ms b s))"
proof (induction n arbitrary: s)
  case (Suc n)
  obtain k s1 where k: "commit env ms s = (k, s1)" by (cases "commit env ms s")
  note s1 = step_reach(2) [OF k]
  show ?case using k s1 pause_reach [OF s1 Suc.IH, where b = b] by (auto split: bool.splits)
qed simp

lemma handle_loop_reach: "fetched_in s ms \<Longrightarrow> consumer_reach env s (snd (handle_loop env c n ms es b s))"
proof (induction n arbitrary: b s)
  case (Suc n)
  obtain h s1 where h: "handle_batch env es s = (h, s1)" by (cases "handle_batch env es s")
  note s1 = step_reach(4) [OF h]
  note pause = pause_reach [OF _ Suc.IH [OF reach_fetched [OF _ Suc.prems], where env1 = env], where b = b]
  show ?case
  proof (cases h)
    case None
    then show ?thesis using h s1 by simp
  next
    case (Some err)
    show ?thesis
    proof (cases "if co_dlq c then as_batch_dead_letter err else None")
      case None
      then show ?thesis using h Some pause [OF s1] by simp
    next
      case dead: (Some t)
      obtain evs cause where t: "t = (evs, cause)" by (cases t)
      obtain q s2 where q: "deadLetterBatch env ms evs cause s1 = (q, s2)" by (cases "deadLetterBatch env ms evs cause s1")
      have "as_batch_dead_letter err = Some (evs, cause)" using dead t by (simp split: if_splits)
      from s1 deadLetterBatch_reach [OF q log_handle_batch [OF h, unfolded Some] this reach_fetched [OF s1 Suc.prems]] have s2: "consumer_reach env s s2"
        by (rule reach_trans)
      then show ?thesis using h Some dead t q pause [OF s2] by (simp split: option.splits)
    qed
  qed
qed simp

lemma runSingle_reach: "consumer_reach env s (snd (runSingle env c n b s))"
proof (induction n arbitrary: b s)
  case (Suc n)
  note pause = pause_reach [OF _ Suc.IH, where b = b]
  obtain f s1 where f: "fetch env None s = (f, s1)" by (cases "fetch env None s")
  note s1 = step_reach(1) [OF f]
  show ?case
  proof (cases f)
    case None
    then show ?thesis using f s1 pause [OF s1] by simp
  next
    case (Some msg)
    obtain p e s2 where p: "processMessage env c msg s1 = ((p, e), s2)" by (metis prod.exhaust)
    have s3: "consumer_reach env s (recordProcessing c p e s2)"
      using s1 processMessage_reach [OF p log_fetch [OF f [unfolded Some]]] step_record by (meson reach_trans rtranclp.rtrancl_into_rtrancl)
    show ?thesis
    proof (cases e)
      case None
      then show ?thesis using f Some p reach_trans [OF s3 Suc.IH [of "recordProcessing c p e s2" Second]] by simp
    next
      case err: (Some _)
      then show ?thesis using f Some p pause [OF s3] by (simp add: Let_def)
    qed
  qed
qed simp

text \<open>The commit that ends a round, and the next round.\<close>

lemma commit_then_reach:
  assumes "consumer_reach env s t" "\<And>u. consumer_reach env u (snd (R u))"
  shows "consumer_reach env s (snd (case commitMessages env n ps b t of (Running, u) \<Rightarrow> (Running, u) | (Stopped, u) \<Rightarrow> (Stopped, u)
    | (Finished _, u) \<Rightarrow> R u))"
proof -
  obtain k u where k: "commitMessages env n ps b t = (k, u)" by (cases "commitMessages env n ps b t")
  have "consumer_reach env s u" using assms(1) commitMessages_reach [of env t n ps b] k by (auto intro: reach_trans)
  then show ?thesis using k assms(2) [of u] by (auto intro: reach_trans split: loop.splits)
qed

lemma runBatch_reach: "consumer_reach env s (snd (runBatch env c n b s))"
proof (induction n arbitrary: b s)
  case (Suc n)
  obtain f s1 where f: "fetchBatch env c s = (f, s1)" by (cases "fetchBatch env c s")
  note s1 = fetchBatch_reach [OF f]
  show ?case
  proof (cases f)
    case None
    then show ?thesis using f s1 pause_reach [OF s1 Suc.IH, where b = b] by simp
  next
    case (Some ms)
    obtain d s2 where d: "decode_loop env c n ms b s1 = (d, s2)" by (cases "decode_loop env c n ms b s1")
    note ms = fetchBatch_fetched [OF f [unfolded Some]]
    have s2: "consumer_reach env s s2" using s1 decode_loop_reach [OF ms, of env c n b] d by (auto intro: reach_trans)
    show ?thesis
    proof (cases d)
      case (Finished t)
      obtain ps es b1 where t: "t = (ps, es, b1)" by (cases t)
      show ?thesis
      proof (cases "es = []")
        case True
        then show ?thesis using f Some d Finished t commit_then_reach [OF s2 Suc.IH, where b = b1 and n = n] by simp
      next
        case False
        obtain h s3 where h: "handle_loop env c n ms es b1 s2 = (h, s3)" by (cases "handle_loop env c n ms es b1 s2")
        have "consumer_reach env s1 s2" using decode_loop_reach [OF ms, of env c n b] d by simp
        from handle_loop_reach [OF reach_fetched [OF this ms], of env c n es b1] h s2
        have s3: "consumer_reach env s s3" by (auto intro: reach_trans)
        have again: "consumer_reach env u (snd (runBatch env c n Second (record_all c es u)))" for u
          using record_all_reach Suc.IH by (rule reach_trans)
        show ?thesis
          using f Some d Finished t False h s3 commit_then_reach [OF s3 again, where n = n] by (cases h) simp_all
      qed
    qed (use f Some d s2 in simp_all)
  qed
qed simp

lemma Run_reach: "consumer_reach env s (snd (Run env c n s))"
  by (simp add: Run_def runBatch_reach runSingle_reach)

section \<open>Invariants\<close>

lemma reach_invariant:
  assumes "consumer_reach env s s'" "I s" "\<And>s s'. consumer_step env s s' \<Longrightarrow> I s \<Longrightarrow> I s'"
  shows "I s'"
  using assms(1,2) by (induction rule: rtranclp_induct) (auto intro: assms(3))

lemma rejected_append: "rejected env l m \<Longrightarrow> rejected env (l @ x) m"
  unfolding rejected_def set_append Un_iff by (cases "Unmarshal_event (m_Value m)") (simp_all, blast)

definition dead_letters_rejected :: "'w consumer_env \<Rightarrow> 'w run \<Rightarrow> bool" where
  "dead_letters_rejected env s \<longleftrightarrow>
     (\<forall>ms x. DeadLettered ms \<in> set (log s) \<longrightarrow> x \<in> set ms \<longrightarrow>
        (\<exists>m cause. x = dead_letter_message cause m \<and> rejected env (log s) m))"

lemma step_dead_letters:
  assumes "consumer_step env s s'" "dead_letters_rejected env s"
  shows "dead_letters_rejected env s'"
proof -
  obtain x where x: "log s' = log s @ x" using step_log [OF assms(1)] by blast
  have new: "\<forall>y \<in> set ms. \<exists>m cause. y = dead_letter_message cause m \<and> rejected env (log s) m"
    if "DeadLettered ms \<in> set x" for ms
    using assms(1) that x
    by (cases rule: consumer_step.cases)
      (auto simp: step_defs
        split: prod.splits option.splits if_splits)
  show ?thesis
    unfolding dead_letters_rejected_def x
  proof (intro allI impI)
    fix ms y
    assume "DeadLettered ms \<in> set (log s @ x)" "y \<in> set ms"
    then have "\<exists>m cause. y = dead_letter_message cause m \<and> rejected env (log s) m"
      using new assms(2) unfolding dead_letters_rejected_def by auto
    then show "\<exists>m cause. y = dead_letter_message cause m \<and> rejected env (log s @ x) m" using rejected_append by blast
  qed
qed

lemma reach_dead_letters: "consumer_reach env (State w []) s \<Longrightarrow> dead_letters_rejected env s"
  by (erule reach_invariant [where I = "dead_letters_rejected env"], simp add: dead_letters_rejected_def, rule step_dead_letters)

lemma dead_letter_message_inject: "dead_letter_message cause m = dead_letter_message cause' m' \<Longrightarrow> m = m'"
  by (cases m; cases m') (simp add: dead_letter_message_def)

lemma reach_dead_lettered:
  assumes "consumer_reach env (State w []) s" "dead_lettered (log s) m"
  shows "rejected env (log s) m"
  using reach_dead_letters [OF assms(1)] assms(2) dead_letter_message_inject
  unfolding dead_letters_rejected_def dead_lettered_def by metis

text \<open>What is committed is accounted for at the end, not only at the moment of its commit.\<close>

lemma committed_split: "m \<in> set (committed l) \<Longrightarrow> \<exists>l1 ms l2. l = l1 @ Committed ms # l2 \<and> m \<in> set ms"
proof (induction l rule: committed.induct)
  case (2 ms l)
  show ?case
  proof (cases "m \<in> set ms")
    case True
    then show ?thesis by (metis append_Nil)
  next
    case False
    then show ?thesis using 2 by (metis Un_iff append_Cons committed.simps(2) set_append)
  qed
qed (auto, (metis append_Cons)+)

lemma committed_accounted: "log_ok l \<Longrightarrow> m \<in> set (committed l) \<Longrightarrow> accounted l m"
  using committed_split accounted_append unfolding log_ok_def by metis

section \<open>Handlers that store\<close>

text \<open>
  The contract between the consumer and a handler that stores its events: whatever the
  client, the timers and the handlers do, nothing that is stored gets lost; a batch handled
  without error is stored; and the handler asks for no dead letters.
\<close>

locale storing_handler =
  fixes env :: "'w consumer_env" and stored :: "event \<Rightarrow> 'w \<Rightarrow> bool"
  assumes fetch_keeps: "ce_fetch env t w = (r, w') \<Longrightarrow> stored e w \<Longrightarrow> stored e w'"
    and commit_keeps: "ce_commit env ms w = (ok, w') \<Longrightarrow> stored e w \<Longrightarrow> stored e w'"
    and write_keeps: "ce_write env ms w = (ok, w') \<Longrightarrow> stored e w \<Longrightarrow> stored e w'"
    and wait_keeps: "ce_wait env d w = (ok, w') \<Longrightarrow> stored e w \<Longrightarrow> stored e w'"
    and handle_keeps: "ce_handler env x w = (err, w') \<Longrightarrow> stored e w \<Longrightarrow> stored e w'"
    and batch_keeps: "ce_batchHandler env es w = (err, w') \<Longrightarrow> stored e w \<Longrightarrow> stored e w'"
    and handle_plain: "ce_handler env x w = (Some err1, w') \<Longrightarrow> \<not> as_dead_letter err1"
    and batch_plain: "ce_batchHandler env es w = (Some err1, w') \<Longrightarrow> as_batch_dead_letter err1 = None"
    and handle_stores: "ce_handler env x w = (None, w') \<Longrightarrow> stored x w'"
    and batch_stores: "ce_batchHandler env es w = (None, w') \<Longrightarrow> e \<in> set es \<Longrightarrow> stored e w'"
begin

lemma step_stored: "consumer_step env s s' \<Longrightarrow> stored e (world s) \<Longrightarrow> stored e (world s')"
  by (erule consumer_step.cases)
    (auto simp: step_defs
      split: prod.splits option.splits if_splits
      intro: fetch_keeps commit_keeps write_keeps wait_keeps handle_keeps batch_keeps)

text \<open>Every success in the log is in the store, and no error in it asks for a dead letter.\<close>

definition success_stored :: "'w run \<Rightarrow> bool" where
  "success_stored s \<longleftrightarrow>
     (\<forall>e. Handled e None \<in> set (log s) \<longrightarrow> stored e (world s)) \<and>
     (\<forall>es e. HandledBatch es None \<in> set (log s) \<longrightarrow> e \<in> set es \<longrightarrow> stored e (world s)) \<and>
     (\<forall>e err. Handled e (Some err) \<in> set (log s) \<longrightarrow> \<not> as_dead_letter err) \<and>
     (\<forall>es err. HandledBatch es (Some err) \<in> set (log s) \<longrightarrow> as_batch_dead_letter err = None)"

lemma step_success:
  assumes "consumer_step env s s'" "success_stored s"
  shows "success_stored s'"
proof -
  obtain x where x: "log s' = log s @ x" using step_log [OF assms(1)] by blast
  have new: "(\<forall>e. Handled e None \<in> set x \<longrightarrow> stored e (world s')) \<and>
     (\<forall>es e. HandledBatch es None \<in> set x \<longrightarrow> e \<in> set es \<longrightarrow> stored e (world s')) \<and>
     (\<forall>e err. Handled e (Some err) \<in> set x \<longrightarrow> \<not> as_dead_letter err) \<and>
     (\<forall>es err. HandledBatch es (Some err) \<in> set x \<longrightarrow> as_batch_dead_letter err = None)"
    using assms(1) x
    by (cases rule: consumer_step.cases)
      (auto simp: step_defs
        split: prod.splits option.splits if_splits, (blast intro: handle_stores batch_stores batch_plain dest: handle_plain)+)
  show ?thesis
    using assms(2) new step_stored [OF assms(1)] unfolding success_stored_def x set_append Un_iff by blast
qed

lemma reach_success: "consumer_reach env (State w []) s \<Longrightarrow> success_stored s"
  by (erule reach_invariant [where I = success_stored], simp add: success_stored_def, rule step_success)

lemma accounted_stored:
  assumes "consumer_reach env (State w []) s" "accounted (log s) m"
  shows "dead_lettered (log s) m \<or> (\<exists>e. Unmarshal_event (m_Value m) = Some e \<and> stored e (world s))"
  using assms(2) reach_success [OF assms(1)] unfolding accounted_def settled_def success_stored_def by fastforce

lemma dead_lettered_invalid:
  assumes "consumer_reach env (State w []) s" "dead_lettered (log s) m" "Unmarshal_event (m_Value m) = Some e"
  shows "\<exists>v. Validate (ce_now env v) 0 e \<noteq> None"
  using reach_dead_lettered [OF assms(1,2)] reach_success [OF assms(1)] assms(3)
  by (auto simp: rejected_def success_stored_def)

text \<open>What a batch consumer has committed is stored, unless the message itself is bad.\<close>

lemma committed_stored:
  assumes "m \<in> set (committed (log (snd (runBatch env c n Second (State w [])))))"
  shows "case Unmarshal_event (m_Value m) of
      None \<Rightarrow> dead_lettered (log (snd (runBatch env c n Second (State w [])))) m
    | Some e \<Rightarrow> stored e (world (snd (runBatch env c n Second (State w [])))) \<or> (\<exists>v. Validate (ce_now env v) 0 e \<noteq> None)"
proof -
  let ?s = "snd (runBatch env c n Second (State w []))"
  have reach: "consumer_reach env (State w []) ?s" by (rule runBatch_reach)
  have "run_ok ?s"
    by (rule runBatch_ok [OF prod.collapse [symmetric] backoff_ok_Second]) (simp add: round_ok_def)
  then have "accounted (log ?s) m" using committed_accounted assms by (simp add: run_ok_def)
  then show ?thesis
    using accounted_stored [OF reach] dead_lettered_invalid [OF reach] by (fastforce split: option.splits)
qed

end

section \<open>Properties\<close>

text \<open>
  C11: nothing is dead-lettered without a cause. In every run of a consumer, in either mode
  and whatever its surroundings do, what is written to the dead-letter topic is a message
  that was fetched, with one more header; and the message does not decode, or its event is not
  valid at some moment, or the handler returned an error for this event that asks for a
  dead letter, or the batch handler returned one that names this event.
\<close>

theorem dead_letters_have_cause:
  assumes "DeadLettered ms \<in> set (log (snd (Run env c n (State w []))))" "x \<in> set ms"
  shows "\<exists>m cause. x = dead_letter_message cause m \<and> rejected env (log (snd (Run env c n (State w [])))) m"
  using reach_dead_letters [OF Run_reach [of env "State w []" c n]] assms unfolding dead_letters_rejected_def by blast

definition sample_garbage :: message where
  "sample_garbage = \<lparr>m_Key = ''acme'', m_Value = ''?'', m_Headers = []\<rparr>"

definition sample_garbage_env :: "nat consumer_env" where
  "sample_garbage_env = (sample_consumer_env (\<lambda>_. False))\<lparr>ce_fetch := \<lambda>_ w. (Some sample_garbage, w + 1)\<rparr>"

lemma sample_garbage_run:
  "log (snd (Run sample_garbage_env (sample_consumer\<lparr>co_batchHandler := False\<rparr>) 1 (State 0 []))) =
     [Fetched sample_garbage,
      DeadLettered [dead_letter_message (Wrap ''decode kafka event'' (Opaque ''json'')) sample_garbage], Committed [sample_garbage]]"
proof -
  have "Unmarshal_event ''?'' = None" by code_simp
  then show ?thesis
    by (simp add: Run_def sample_garbage_env_def sample_consumer_env_def sample_consumer_def sample_garbage_def
        processMessage_def deadLetter_def writeDeadLetter_def step_defs)
qed

theorem dead_letters_have_cause_witness:
  "\<exists>m cause. dead_letter_message (Wrap ''decode kafka event'' (Opaque ''json'')) sample_garbage = dead_letter_message cause m \<and>
     rejected sample_garbage_env (log (snd (Run sample_garbage_env (sample_consumer\<lparr>co_batchHandler := False\<rparr>) 1 (State 0 [])))) m"
  by (rule dead_letters_have_cause [where ms = "[dead_letter_message (Wrap ''decode kafka event'' (Opaque ''json'')) sample_garbage]"])
    (simp_all only: sample_garbage_run list.set insert_iff simp_thms)

end
