(* ===== verification/Webhook_Security.thy ===== *)
theory Webhook_Security
  imports Events "HOL-Library.Word"
begin

unbundle bit_operations_syntax

text \<open>
  \<open>internal/webhook/hmac.go\<close> and \<open>ssrf.go\<close>, with \<open>safeDialer\<close> of \<open>resilience.go\<close>: the
  signature on a delivery, the endpoint policy, and the dialer that applies the policy to
  the address it really connects to.

  HMAC-SHA256 is the argument \<open>hmac\<close> (key, message). A \<open>net.IP\<close> is its bytes, \<open>None\<close> for
  nil; the classification methods of \<open>net.IP\<close> are written out. \<open>net/url\<close> is the argument
  \<open>parse\<close>, giving the three parts the policy reads; the DNS resolver, \<open>SplitHostPort\<close> and
  the environment are arguments as well.
\<close>

named_theorems security_defs "definitions of the webhook security checks"

section \<open>Signatures\<close>

text \<open>What is written to the MAC: the second of the timestamp, a dot, the body.\<close>

definition signed_message :: "instant \<Rightarrow> bytes \<Rightarrow> bytes" where
  "signed_message timestamp body = FormatInt (time_Unix timestamp) @ ''.'' @ body"

definition Signature :: "(bytes \<Rightarrow> bytes \<Rightarrow> bytes) \<Rightarrow> bytes \<Rightarrow> event \<Rightarrow> instant \<Rightarrow> bytes \<Rightarrow> bytes" where
  "Signature hmac secret event timestamp body =
     hex_EncodeToString (hmac secret (signed_message timestamp body))"

definition VerifySignature ::
  "(bytes \<Rightarrow> bytes \<Rightarrow> bytes) \<Rightarrow> bytes \<Rightarrow> bytes \<Rightarrow> instant \<Rightarrow> bytes \<Rightarrow> duration \<Rightarrow> instant \<Rightarrow> bool" where
  "VerifySignature hmac secret signature timestamp body tolerance now =
     (if 0 < tolerance \<and> (tolerance < time_Sub now timestamp \<or> tolerance < time_Sub timestamp now)
      then False
      else
        let expected = Signature hmac secret zero_event timestamp body in
        case (hex_DecodeString signature, hex_DecodeString expected) of
          (Some a, Some b) \<Rightarrow> a = b
        | _ \<Rightarrow> False)"

section \<open>IP addresses\<close>

type_synonym ip = "8 word list option"

definition v4InV6Prefix :: "8 word list" where
  "v4InV6Prefix = [0, 0, 0, 0, 0, 0, 0, 0, 0, 0, 0xff, 0xff]"

definition IPv6loopback :: "8 word list" where "IPv6loopback = [0, 0, 0, 0, 0, 0, 0, 0, 0, 0, 0, 0, 0, 0, 0, 1]"
definition IPv6unspecified :: "8 word list" where "IPv6unspecified = [0, 0, 0, 0, 0, 0, 0, 0, 0, 0, 0, 0, 0, 0, 0, 0]"
definition IPv4zero :: "8 word list" where "IPv4zero = v4InV6Prefix @ [0, 0, 0, 0]"

definition To4 :: "8 word list \<Rightarrow> 8 word list option" where
  "To4 b =
     (if length b = 4 then Some b
      else if length b = 16 \<and> take 12 b = v4InV6Prefix then Some (drop 12 b)
      else None)"

definition ip_Equal :: "8 word list \<Rightarrow> 8 word list \<Rightarrow> bool" where
  "ip_Equal b x =
     (if length b = length x then b = x
      else if length b = 4 \<and> length x = 16 then take 12 x = v4InV6Prefix \<and> b = drop 12 x
      else if length b = 16 \<and> length x = 4 then take 12 b = v4InV6Prefix \<and> drop 12 b = x
      else False)"

definition IsUnspecified :: "8 word list \<Rightarrow> bool" where
  "IsUnspecified b \<longleftrightarrow> ip_Equal b IPv4zero \<or> ip_Equal b IPv6unspecified"

definition IsLoopback :: "8 word list \<Rightarrow> bool" where
  "IsLoopback b = (case To4 b of Some v \<Rightarrow> v ! 0 = 127 | None \<Rightarrow> ip_Equal b IPv6loopback)"

definition IsPrivate :: "8 word list \<Rightarrow> bool" where
  "IsPrivate b =
     (case To4 b of
        Some v \<Rightarrow> v ! 0 = 10 \<or> (v ! 0 = 172 \<and> v ! 1 AND 0xf0 = 16) \<or> (v ! 0 = 192 \<and> v ! 1 = 168)
      | None \<Rightarrow> length b = 16 \<and> b ! 0 AND 0xfe = 0xfc)"

definition IsLinkLocalUnicast :: "8 word list \<Rightarrow> bool" where
  "IsLinkLocalUnicast b =
     (case To4 b of
        Some v \<Rightarrow> v ! 0 = 169 \<and> v ! 1 = 254
      | None \<Rightarrow> length b = 16 \<and> b ! 0 = 0xfe \<and> b ! 1 AND 0xc0 = 0x80)"

definition IsLinkLocalMulticast :: "8 word list \<Rightarrow> bool" where
  "IsLinkLocalMulticast b =
     (case To4 b of
        Some v \<Rightarrow> v ! 0 = 224 \<and> v ! 1 = 0 \<and> v ! 2 = 0
      | None \<Rightarrow> length b = 16 \<and> b ! 0 = 0xff \<and> b ! 1 AND 0x0f = 0x02)"

section \<open>The endpoint policy\<close>

datatype webhook_error = ErrBlockedURL | ErrResolver | ErrCircuitOpen | ErrContext | ErrMarshal | ErrSend | ErrStatus int

definition isPrivateIP :: "ip \<Rightarrow> bool" where
  "isPrivateIP ip =
     (case ip of
        None \<Rightarrow> True
      | Some b \<Rightarrow>
          if IsLoopback b \<or> IsPrivate b \<or> IsLinkLocalUnicast b \<or> IsLinkLocalMulticast b \<or> IsUnspecified b
          then True
          else case To4 b of
                 Some v \<Rightarrow> (v ! 0 = 169 \<and> v ! 1 = 254) \<or> (v ! 0 = 100 \<and> 64 \<le> v ! 1 \<and> v ! 1 \<le> 127)
               | None \<Rightarrow> False)"

definition allowPrivateEndpoints :: "(bytes \<Rightarrow> bytes) \<Rightarrow> bool" where
  "allowPrivateEndpoints getenv \<longleftrightarrow> getenv ''PULSE_ALLOW_PRIVATE_WEBHOOKS'' = ''true''"

record url =
  u_Scheme :: bytes
  u_Hostname :: bytes
  u_User :: "bytes option"

text \<open>\<open>resolver\<close> is \<open>None\<close> for a nil function; a call gives the addresses or an error.\<close>

definition ValidateEndpoint ::
  "(bytes \<Rightarrow> bytes) \<Rightarrow> (bytes \<Rightarrow> url option) \<Rightarrow> bytes \<Rightarrow> (bytes \<Rightarrow> ip list option) option \<Rightarrow> webhook_error option" where
  "ValidateEndpoint getenv parse raw resolver =
     (case parse raw of
        None \<Rightarrow> Some ErrBlockedURL
      | Some u \<Rightarrow>
          if (u_Scheme u \<noteq> ''http'' \<and> u_Scheme u \<noteq> ''https'') \<or> u_Hostname u = [] \<or> u_User u \<noteq> None
          then Some ErrBlockedURL
          else case resolver of
            None \<Rightarrow> Some ErrBlockedURL
          | Some look \<Rightarrow>
              let host = ToLower (u_Hostname u) in
              if host = ''localhost'' \<or> host = ''metadata.google.internal'' then Some ErrBlockedURL
              else case look host of
                None \<Rightarrow> Some ErrBlockedURL
              | Some ips \<Rightarrow>
                  if length ips = 0 then Some ErrBlockedURL
                  else if list_ex (\<lambda>ip. isPrivateIP ip \<and> \<not> allowPrivateEndpoints getenv) ips
                  then Some ErrBlockedURL
                  else None)"

section \<open>The dialer\<close>

text \<open>
  \<open>safeDialer\<close> up to its call of \<open>net.Dialer.DialContext\<close>: the address it connects to, or
  the error it returns without connecting.
\<close>

fun first_dialable :: "bool \<Rightarrow> ip list \<Rightarrow> ip option" where
  "first_dialable allow [] = None"
| "first_dialable allow (ip # ips) =
     (if isPrivateIP ip \<and> \<not> allow then first_dialable allow ips else Some ip)"

definition safeDialer ::
  "(bytes \<Rightarrow> bytes) \<Rightarrow> (bytes \<Rightarrow> (bytes \<times> bytes) option) \<Rightarrow> (bytes \<Rightarrow> ip list option) \<Rightarrow> bytes
     \<Rightarrow> webhook_error + ip \<times> bytes" where
  "safeDialer getenv SplitHostPort lookup address =
     (case SplitHostPort address of
        None \<Rightarrow> Inl ErrBlockedURL
      | Some (host, port) \<Rightarrow>
          (case lookup host of
             None \<Rightarrow> Inl ErrResolver
           | Some ips \<Rightarrow>
               (case first_dialable (allowPrivateEndpoints getenv) ips of
                  Some ip \<Rightarrow> Inr (ip, port)
                | None \<Rightarrow> Inl ErrBlockedURL)))"

lemmas [security_defs] = Signature_def VerifySignature_def To4_def ip_Equal_def IsUnspecified_def
  IsLoopback_def IsPrivate_def IsLinkLocalUnicast_def IsLinkLocalMulticast_def isPrivateIP_def
  v4InV6Prefix_def IPv4zero_def IPv6loopback_def IPv6unspecified_def

section \<open>Lemmas\<close>

fun dec_value :: "bytes \<Rightarrow> nat \<Rightarrow> nat" where
  "dec_value [] n = n"
| "dec_value (c # cs) n = dec_value cs (10 * n + (of_char c - 48))"

lemma dec_value_append: "dec_value (a @ b) n = dec_value b (dec_value a n)"
  by (induction a arbitrary: n) auto

lemma dec_value_nat: "dec_value (dec_nat n) 0 = n"
proof (induction n rule: dec_nat.induct)
  case (1 n)
  then show ?case by (subst dec_nat.simps) (simp add: dec_value_append)
qed

lemma dec_nat_digits: "c \<in> set (dec_nat n) \<Longrightarrow> of_char c \<in> {48..57 :: nat}"
proof (induction n rule: dec_nat.induct)
  case (1 n)
  then show ?case by (subst (asm) (2) dec_nat.simps) (auto split: if_splits)
qed

lemma FormatInt_inj: "FormatInt i = FormatInt j \<Longrightarrow> i = j"
proof -
  have minus: "CHR ''-'' # a \<noteq> dec_nat n" for a n
  proof
    assume "CHR ''-'' # a = dec_nat n"
    then have "CHR ''-'' \<in> set (dec_nat n)" by (metis list.set_intros(1))
    from dec_nat_digits [OF this] show False by simp
  qed
  have "dec_nat m = dec_nat n \<Longrightarrow> m = n" for m n by (metis dec_value_nat)
  then show "FormatInt i = FormatInt j \<Longrightarrow> i = j"
    using minus minus [symmetric] by (auto simp: FormatInt_def split: if_splits) (metis eq_nat_nat_iff linorder_not_less neg_0_le_iff_le neg_equal_iff_equal order_less_imp_le)+
qed

lemma FormatInt_no_dot: "CHR ''.'' \<notin> set (FormatInt i)"
  using dec_nat_digits [of "CHR ''.''"] by (auto simp: FormatInt_def)

lemma signed_message_inj:
  "signed_message t b = signed_message t' b' \<longleftrightarrow> time_Unix t = time_Unix t' \<and> b = b'"
  using append_sep_inj [OF FormatInt_no_dot FormatInt_no_dot, of "time_Unix t" b "time_Unix t'" b']
  by (auto simp: signed_message_def dest: FormatInt_inj)

lemma first_dialable_safe:
  "first_dialable allow ips = Some ip \<Longrightarrow> ip \<in> set ips \<and> (isPrivateIP ip \<longrightarrow> allow)"
  by (induction ips) (auto split: if_splits)

lemma first_dialable_None: "first_dialable allow ips = None \<longleftrightarrow> (\<forall>ip \<in> set ips. isPrivateIP ip \<and> \<not> allow)"
  by (induction ips) auto

text \<open>The masks of \<open>IsPrivate\<close> as ranges; all 256 bytes are evaluated.\<close>

lemma byte_mask_table:
  "list_all (\<lambda>n. let b = word_of_int n :: 8 word in (b AND 0xf0 = 16) = (16 \<le> b \<and> b \<le> 31)) [0..255]"
  by code_simp

lemma byte_mask_16: "(b :: 8 word) AND 0xf0 = 16 \<longleftrightarrow> 16 \<le> b \<and> b \<le> 31"
proof -
  have "uint b \<in> set [0..255]" using uint_lt2p [of b] by simp
  with byte_mask_table show ?thesis unfolding list_all_iff Let_def by (metis word_of_int_uint)
qed

definition mapped :: "8 word list \<Rightarrow> 8 word list" where
  "mapped v = v4InV6Prefix @ v"

lemma To4_mapped: "length v = 4 \<Longrightarrow> To4 (mapped v) = Some v"
  by (simp add: To4_def mapped_def v4InV6Prefix_def)

lemma IsUnspecified_v4: "length v = 4 \<Longrightarrow> IsUnspecified v \<longleftrightarrow> v = [0, 0, 0, 0]"
  by (auto simp: security_defs)

lemma IsUnspecified_mapped: "length v = 4 \<Longrightarrow> IsUnspecified (mapped v) \<longleftrightarrow> v = [0, 0, 0, 0]"
  by (auto simp: IsUnspecified_def ip_Equal_def mapped_def v4InV6Prefix_def IPv4zero_def IPv6unspecified_def)

section \<open>Properties\<close>

text \<open>
  C26: what a signature authenticates. A receiver checking, for time \<open>ts\<close> and body \<open>body\<close>, a
  signature made by the dispatcher for \<open>ts'\<close> and \<open>body'\<close> accepts exactly when its clock is
  within the tolerance of \<open>ts\<close> (or no tolerance is set) and either the second and the body
  are the same, or two different messages have the same HMAC: the signed encoding is
  unambiguous, so only a collision of the MAC itself lets a changed body or time through.
\<close>

theorem verify_signature_iff:
  assumes "tol < maxDuration"
  shows "VerifySignature hmac secret (Signature hmac secret e ts' body') ts body tol now \<longleftrightarrow>
    (tol \<le> 0 \<or> \<bar>now - ts\<bar> \<le> tol) \<and>
    ((time_Unix ts = time_Unix ts' \<and> body = body') \<or>
     (signed_message ts body \<noteq> signed_message ts' body' \<and>
      hmac secret (signed_message ts body) = hmac secret (signed_message ts' body')))"
proof -
  have "0 < tol \<Longrightarrow> tol < time_Sub x y \<longleftrightarrow> tol < x - y" for x y
    using assms by (intro time_Sub_gt_iff) (auto simp: minDuration_def)
  then have "(0 < tol \<and> (tol < time_Sub now ts \<or> tol < time_Sub ts now)) \<longleftrightarrow> \<not> (tol \<le> 0 \<or> \<bar>now - ts\<bar> \<le> tol)"
    by auto
  then have "VerifySignature hmac secret (Signature hmac secret e ts' body') ts body tol now \<longleftrightarrow>
      (tol \<le> 0 \<or> \<bar>now - ts\<bar> \<le> tol) \<and>
      hmac secret (signed_message ts body) = hmac secret (signed_message ts' body')"
    by (auto simp: VerifySignature_def Signature_def hex_decode_encode Let_def)
  then show ?thesis
    unfolding signed_message_inj [symmetric] by metis
qed

theorem verify_signature_iff_witness:
  "VerifySignature (\<lambda>k m. k @ m) ''key'' (Signature (\<lambda>k m. k @ m) ''key'' zero_event (5 * Second) ''body'')
    (5 * Second) ''body'' Minute (60 * Second) \<and>
   \<not> VerifySignature (\<lambda>k m. k @ m) ''key'' (Signature (\<lambda>k m. k @ m) ''key'' zero_event (5 * Second) ''body'')
    (6 * Second) ''body'' Minute (60 * Second)"
  by (subst (1 2) verify_signature_iff) (simp_all add: time_defs signed_message_inj)

text \<open>
  Exactly which IPv4 addresses the policy blocks, and that an address and its
  IPv4-mapped IPv6 form are always treated alike: 0.0.0.0, 127/8, 10/8, 172.16/12,
  192.168/16, 169.254/16 (the metadata service included), 100.64/10 and 224.0.0/24.
\<close>

theorem blocked_ipv4:
  "isPrivateIP (Some (mapped [a, b, c, d])) = isPrivateIP (Some [a, b, c, d]) \<and>
   (isPrivateIP (Some [a, b, c, d]) \<longleftrightarrow>
      [a, b, c, d] = [0, 0, 0, 0] \<or> a = 127 \<or> a = 10 \<or> (a = 172 \<and> 16 \<le> b \<and> b \<le> 31) \<or>
      (a = 192 \<and> b = 168) \<or> (a = 169 \<and> b = 254) \<or> (a = 100 \<and> 64 \<le> b \<and> b \<le> 127) \<or>
      (a = 224 \<and> b = 0 \<and> c = 0))"
proof -
  have "To4 [a, b, c, d] = Some [a, b, c, d]" by (simp add: To4_def)
  then show ?thesis
    by (auto simp: isPrivateIP_def IsLoopback_def IsPrivate_def IsLinkLocalUnicast_def
        IsLinkLocalMulticast_def To4_mapped IsUnspecified_v4 IsUnspecified_mapped byte_mask_16)
qed

text \<open>
  An endpoint passes validation exactly when it is an http or https URL with a host and
  no user information, the host is neither \<open>localhost\<close> nor the metadata name in any case,
  and a resolver was given and found at least one address, all of them public (or private
  endpoints were switched on).
\<close>

theorem validate_endpoint_iff:
  "ValidateEndpoint getenv parse raw resolver = None \<longleftrightarrow>
    (\<exists>u look ips. parse raw = Some u \<and> u_Scheme u \<in> {''http'', ''https''} \<and> u_Hostname u \<noteq> [] \<and> u_User u = None \<and>
       ToLower (u_Hostname u) \<notin> {''localhost'', ''metadata.google.internal''} \<and>
       resolver = Some look \<and> look (ToLower (u_Hostname u)) = Some ips \<and> ips \<noteq> [] \<and>
       (allowPrivateEndpoints getenv \<or> (\<forall>ip \<in> set ips. \<not> isPrivateIP ip)))"
  (is "?l \<longleftrightarrow> ?r")
proof
  show "?l \<Longrightarrow> ?r"
    by (auto simp: ValidateEndpoint_def Let_def list_ex_iff split: option.splits if_splits)
  show "?r \<Longrightarrow> ?l"
    by (auto simp: ValidateEndpoint_def Let_def list_ex_iff)
qed

theorem validate_endpoint_iff_witness:
  "ValidateEndpoint (\<lambda>_. []) (\<lambda>_. Some \<lparr>u_Scheme = ''https'', u_Hostname = ''Example.com'', u_User = None\<rparr>) ''https://Example.com''
     (Some (\<lambda>h. if h = ''example.com'' then Some [Some [93, 184, 216, 34]] else None)) = None"
proof -
  have "\<not> isPrivateIP (Some [93, 184, 216, 34])" by code_simp
  moreover have "ToLower ''Example.com'' = ''example.com''" by code_simp
  ultimately show ?thesis unfolding validate_endpoint_iff by simp
qed



end
