(* ===== verification/Webhook_Claims.thy ===== *)
theory Webhook_Claims
  imports Go_Text
begin

text \<open>
  \<open>internal/webhook/subscription.go\<close>: subscriptions, and the delivery claims that let one
  worker at a time deliver an event to a subscription. The clock \<open>s.now\<close> is the argument
  \<open>now\<close>; \<open>crypto/rand\<close> is the argument \<open>rnd\<close>, the bytes read or \<open>None\<close>. A nil \<open>claims\<close>
  map is the empty list: reading it finds nothing, and \<open>ClaimDelivery\<close> makes it before
  writing. Each operation runs under the store's mutex, so it is one step.

  The locale \<open>delivery_claims\<close> is the contract of the three claim operations of the
  interface \<open>Store\<close>; the in-memory store is an interpretation of it here, the Postgres
  store in \<open>Persistence\<close>.
\<close>

named_theorems claim_defs "definitions of the subscription store operations"

section \<open>Data\<close>

record subscription =
  sub_ID :: bytes
  sub_TenantID :: bytes
  sub_EventType :: bytes
  sub_Endpoint :: bytes
  sub_Secret :: bytes
  sub_Enabled :: bool
  sub_CreatedAt :: instant
  sub_UpdatedAt :: instant

record delivery_claim =
  dc_tenantID :: bytes
  dc_eventID :: bytes
  dc_subscriptionID :: bytes

datatype delivery_status = deliveryPending | deliveryProcessing | deliveryCompleted

record delivery_state =
  ds_status :: delivery_status
  ds_leaseUntil :: instant

definition deliveryLease :: duration where "deliveryLease = Hour"

record subscription_store =
  ss_items :: "subscription gomap"
  ss_claims :: "(delivery_claim \<times> delivery_state) list"

section \<open>Operations\<close>

definition NewSecret :: "bytes option \<Rightarrow> bytes option" where
  "NewSecret rnd = rnd"

definition NewID :: "bytes option \<Rightarrow> bytes option" where
  "NewID rnd =
     (case NewSecret rnd of
        None \<Rightarrow> None
      | Some b \<Rightarrow> Some (''wh_'' @ RawURLEncode (take 12 b)))"

definition NewMemoryStore :: subscription_store where
  "NewMemoryStore = \<lparr>ss_items = [], ss_claims = []\<rparr>"

definition CreateSubscription :: "subscription \<Rightarrow> subscription_store \<Rightarrow> subscription \<times> subscription_store" where
  "CreateSubscription sub s = (sub, s\<lparr>ss_items := AList.update (sub_ID sub) sub (ss_items s)\<rparr>)"

definition ListSubscriptions ::
  "(subscription gomap \<Rightarrow> subscription gomap) \<Rightarrow> bytes \<Rightarrow> bytes \<Rightarrow> subscription_store \<Rightarrow> subscription list" where
  "ListSubscriptions perm tenantID eventType s =
     filter (\<lambda>sub. sub_TenantID sub = tenantID \<and> sub_EventType sub = eventType \<and> sub_Enabled sub)
       (map snd (perm (ss_items s)))"

definition ClaimDelivery :: "delivery_claim \<Rightarrow> instant \<Rightarrow> subscription_store \<Rightarrow> bool \<times> subscription_store" where
  "ClaimDelivery key now s =
     (let grant = (True, s\<lparr>ss_claims := AList.update key
                      \<lparr>ds_status = deliveryProcessing, ds_leaseUntil = time_Add now deliveryLease\<rparr>
                      (ss_claims s)\<rparr>) in
      case map_of (ss_claims s) key of
        Some state \<Rightarrow>
          if ds_status state = deliveryCompleted
             \<or> (ds_status state = deliveryProcessing \<and> now < ds_leaseUntil state)
          then (False, s) else grant
      | None \<Rightarrow> grant)"

definition CompleteDelivery :: "delivery_claim \<Rightarrow> instant \<Rightarrow> subscription_store \<Rightarrow> subscription_store" where
  "CompleteDelivery key now s =
     (case map_of (ss_claims s) key of
        None \<Rightarrow> s
      | Some state \<Rightarrow>
          if ds_status state = deliveryCompleted \<or> \<not> now < ds_leaseUntil state then s
          else s\<lparr>ss_claims := AList.update key
                   (state\<lparr>ds_status := deliveryCompleted, ds_leaseUntil := time_zero\<rparr>) (ss_claims s)\<rparr>)"

definition ReleaseDelivery :: "delivery_claim \<Rightarrow> instant \<Rightarrow> subscription_store \<Rightarrow> subscription_store" where
  "ReleaseDelivery key now s =
     (case map_of (ss_claims s) key of
        None \<Rightarrow> s
      | Some state \<Rightarrow>
          if ds_status state \<noteq> deliveryProcessing \<or> \<not> now < ds_leaseUntil state then s
          else s\<lparr>ss_claims := AList.update key
                   (state\<lparr>ds_status := deliveryPending, ds_leaseUntil := time_zero\<rparr>) (ss_claims s)\<rparr>)"

lemmas [claim_defs] = CreateSubscription_def ListSubscriptions_def ClaimDelivery_def
  CompleteDelivery_def ReleaseDelivery_def

section \<open>The contract of the claim operations\<close>

text \<open>
  What a claim is at a time, whatever the store: free to take, leased until an instant, or
  done for good.
\<close>

datatype claim_view = Free | Leased instant | Done

datatype claim_op = Claim delivery_claim | Complete delivery_claim | Release delivery_claim

text \<open>One operation of a history, with the result of a claim; a history with its results.\<close>

fun claim_step ::
  "(delivery_claim \<Rightarrow> instant \<Rightarrow> 's \<Rightarrow> bool \<times> 's) \<Rightarrow> (delivery_claim \<Rightarrow> instant \<Rightarrow> 's \<Rightarrow> 's)
     \<Rightarrow> (delivery_claim \<Rightarrow> instant \<Rightarrow> 's \<Rightarrow> 's) \<Rightarrow> claim_op \<Rightarrow> instant \<Rightarrow> 's \<Rightarrow> bool \<times> 's" where
  "claim_step claim complete release (Claim k) t s = claim k t s"
| "claim_step claim complete release (Complete k) t s = (False, complete k t s)"
| "claim_step claim complete release (Release k) t s = (False, release k t s)"

fun claim_history ::
  "(delivery_claim \<Rightarrow> instant \<Rightarrow> 's \<Rightarrow> bool \<times> 's) \<Rightarrow> (delivery_claim \<Rightarrow> instant \<Rightarrow> 's \<Rightarrow> 's)
     \<Rightarrow> (delivery_claim \<Rightarrow> instant \<Rightarrow> 's \<Rightarrow> 's) \<Rightarrow> 's \<Rightarrow> (instant \<times> claim_op) list \<Rightarrow> bool list \<times> 's" where
  "claim_history claim complete release s [] = ([], s)"
| "claim_history claim complete release s ((t, c) # cs) =
     (case claim_step claim complete release c t s of
        (r, s') \<Rightarrow> (case claim_history claim complete release s' cs of (rs, s'') \<Rightarrow> (r # rs, s'')))"

fun op_times :: "instant \<Rightarrow> (instant \<times> claim_op) list \<Rightarrow> bool" where
  "op_times t [] = True"
| "op_times t ((u, c) # cs) = (t \<le> u \<and> op_times u cs)"

text \<open>The key an operation is about; the claims of \<open>k\<close> that succeeded in a history.\<close>

fun op_key :: "claim_op \<Rightarrow> delivery_claim" where
  "op_key (Claim k) = k"
| "op_key (Complete k) = k"
| "op_key (Release k) = k"

fun granted :: "delivery_claim \<Rightarrow> (instant \<times> claim_op) list \<Rightarrow> bool list \<Rightarrow> instant list" where
  "granted k ((t, c) # cs) (r # rs) = (if c = Claim k \<and> r then t # granted k cs rs else granted k cs rs)"
| "granted k cs rs = []"

text \<open>
  The contract. \<open>known s k\<close> says that the store accepts claims of \<open>k\<close>: the in-memory store
  takes any key, PostgreSQL only one whose tenant and subscription exist.
\<close>

locale delivery_claims =
  fixes claim :: "delivery_claim \<Rightarrow> instant \<Rightarrow> 's \<Rightarrow> bool \<times> 's"
    and complete :: "delivery_claim \<Rightarrow> instant \<Rightarrow> 's \<Rightarrow> 's"
    and release :: "delivery_claim \<Rightarrow> instant \<Rightarrow> 's \<Rightarrow> 's"
    and view :: "'s \<Rightarrow> instant \<Rightarrow> delivery_claim \<Rightarrow> claim_view"
    and known :: "'s \<Rightarrow> delivery_claim \<Rightarrow> bool"
    and invar :: "'s \<Rightarrow> bool"
  assumes view_later: "invar s \<Longrightarrow> t \<le> u \<Longrightarrow>
      view s u k = (case view s t k of Leased l \<Rightarrow> if u < l then Leased l else Free | v \<Rightarrow> v)"
    and claim_result: "invar s \<Longrightarrow> time_zero \<le> t \<Longrightarrow> fst (claim k t s) = (known s k \<and> view s t k = Free)"
    and view_claim: "invar s \<Longrightarrow> time_zero \<le> t \<Longrightarrow> view (snd (claim k t s)) t j =
      (if j = k \<and> known s k \<and> view s t k = Free then Leased (t + deliveryLease) else view s t j)"
    and view_complete: "invar s \<Longrightarrow> time_zero \<le> t \<Longrightarrow> view (complete k t s) t j =
      (if j = k \<and> view s t k \<noteq> Free then Done else view s t j)"
    and view_release: "invar s \<Longrightarrow> time_zero \<le> t \<Longrightarrow> view (release k t s) t j =
      (if j = k \<and> view s t k \<noteq> Done then Free else view s t j)"
    and invar_claim: "invar s \<Longrightarrow> invar (snd (claim k t s))"
    and invar_complete: "invar s \<Longrightarrow> invar (complete k t s)"
    and invar_release: "invar s \<Longrightarrow> invar (release k t s)"
    and known_claim: "known (snd (claim k t s)) = known s"
    and known_complete: "known (complete k t s) = known s"
    and known_release: "known (release k t s) = known s"
begin

abbreviation apply_op where "apply_op \<equiv> claim_step claim complete release"
abbreviation op_run where "op_run \<equiv> claim_history claim complete release"

lemmas view_laws = claim_result view_claim view_complete view_release

lemma invar_apply: "invar s \<Longrightarrow> invar (snd (apply_op c t s))"
  by (cases c) (simp_all add: invar_claim invar_complete invar_release)

lemma known_apply: "known (snd (apply_op c t s)) = known s"
  by (cases c) (simp_all add: known_claim known_complete known_release)

lemma view_leased_later: "invar s \<Longrightarrow> t \<le> u \<Longrightarrow> view s t k = Leased l \<Longrightarrow> u < l \<Longrightarrow> view s u k = Leased l"
  by (simp add: view_later)

lemma view_done_later: "invar s \<Longrightarrow> t \<le> u \<Longrightarrow> view s t k = Done \<Longrightarrow> view s u k = Done"
  by (simp add: view_later)

lemma apply_op_held:
  assumes "invar s" "time_zero \<le> t" "view s t k = Leased l \<or> view s t k = Done" "c \<noteq> Release k"
  shows "(view (snd (apply_op c t s)) t k = Leased l \<or> view (snd (apply_op c t s)) t k = Done) \<and>
    (c = Claim k \<longrightarrow> \<not> fst (apply_op c t s))"
  using assms by (cases c) (auto simp: view_laws)

lemma apply_op_done:
  assumes "invar s" "time_zero \<le> t" "view s t k = Done"
  shows "view (snd (apply_op c t s)) t k = Done \<and> (c = Claim k \<longrightarrow> \<not> fst (apply_op c t s))"
  using assms by (cases c) (auto simp: view_laws)

lemma held_not_granted:
  assumes "invar s" "time_zero \<le> t" "view s t k = Leased l \<or> view s t k = Done" "op_times t cs"
    "\<forall>(u, c) \<in> set cs. u < l \<and> c \<noteq> Release k"
  shows "granted k cs (fst (op_run s cs)) = []"
  using assms
proof (induction cs arbitrary: s t)
  case Nil
  then show ?case by simp
next
  case (Cons op cs)
  obtain u c where op: "op = (u, c)" by (cases op)
  obtain r s' where r: "apply_op c u s = (r, s')" by fastforce
  obtain rs s'' where rs: "op_run s' cs = (rs, s'')" by fastforce
  have u: "t \<le> u" "op_times u cs" "u < l" "c \<noteq> Release k" using Cons.prems op by auto
  have v: "view s u k = Leased l \<or> view s u k = Done"
    using Cons.prems(3) u view_leased_later [OF Cons.prems(1) u(1)] view_done_later [OF Cons.prems(1) u(1)]
    by blast
  have tu: "time_zero \<le> u" using Cons.prems(2) u(1) by simp
  note step = apply_op_held [OF Cons.prems(1) tu v u(4), unfolded r snd_conv fst_conv]
  have "granted k cs (fst (op_run s' cs)) = []"
    using Cons.IH [of s' u] step invar_apply [OF Cons.prems(1), of c u] r tu u(2) Cons.prems(5) by simp
  then show ?case using step by (simp add: op r rs)
qed

lemma done_not_granted:
  assumes "invar s" "time_zero \<le> t" "view s t k = Done" "op_times t cs"
  shows "granted k cs (fst (op_run s cs)) = []"
  using assms
proof (induction cs arbitrary: s t)
  case Nil
  then show ?case by simp
next
  case (Cons op cs)
  obtain u c where op: "op = (u, c)" by (cases op)
  obtain r s' where r: "apply_op c u s = (r, s')" by fastforce
  obtain rs s'' where rs: "op_run s' cs = (rs, s'')" by fastforce
  have u: "t \<le> u" "op_times u cs" "time_zero \<le> u" using Cons.prems op by auto
  have v: "view s u k = Done" using view_done_later [OF Cons.prems(1) u(1) Cons.prems(3)] .
  note step = apply_op_done [OF Cons.prems(1) u(3) v, of c, unfolded r snd_conv fst_conv]
  have "granted k cs (fst (op_run s' cs)) = []"
    using Cons.IH [of s' u] step invar_apply [OF Cons.prems(1), of c u] r u by simp
  then show ?case using step by (simp add: op r rs)
qed

text \<open>A successful claim is exclusive until it is released or its hour is over.\<close>

lemma claim_exclusive:
  assumes "invar s" "time_zero \<le> t" "claim k t s = (True, s')" "op_times t cs"
    "\<forall>(u, c) \<in> set cs. u < t + deliveryLease \<and> c \<noteq> Release k"
  shows "granted k cs (fst (op_run s' cs)) = []"
proof (rule held_not_granted [OF _ assms(2) _ assms(4,5)])
  show "invar s'" using invar_claim [OF assms(1), of k t] assms(3) by simp
  show "view s' t k = Leased (t + deliveryLease) \<or> view s' t k = Done"
    using view_claim [OF assms(1,2), of k k] claim_result [OF assms(1,2), of k] assms(3) by simp
qed

text \<open>A delivery completed within its lease is never claimed again.\<close>

lemma completed_forever:
  assumes "invar s" "time_zero \<le> t" "claim k t s = (True, s1)" "t \<le> u" "u < t + deliveryLease" "op_times u cs"
  shows "granted k cs (fst (op_run (complete k u s1) cs)) = []"
proof -
  have i: "invar s1" using invar_claim [OF assms(1), of k t] assms(3) by simp
  have "view s1 t k = Leased (t + deliveryLease)"
    using view_claim [OF assms(1,2), of k k] claim_result [OF assms(1,2), of k] assms(3) by simp
  then have "view s1 u k = Leased (t + deliveryLease)" using view_leased_later [OF i assms(4)] assms(5) by blast
  then have "view (complete k u s1) u k = Done" using view_complete [OF i, of u k k] assms(2,4) by simp
  then show ?thesis
    using done_not_granted [OF invar_complete [OF i] _ _ assms(6)] assms(2,4) by simp
qed

text \<open>A released or expired claim can be taken again.\<close>

lemma released_claimable:
  assumes "invar s" "time_zero \<le> t" "view s t k \<noteq> Done" "known s k"
  shows "fst (claim k t (release k t s))"
  using assms by (simp add: claim_result invar_release view_release known_release)

lemma expired_claimable:
  assumes "invar s" "time_zero \<le> t" "claim k t s = (True, s')" "t + deliveryLease \<le> u"
  shows "fst (claim k u s')"
proof -
  have i: "invar s'" using invar_claim [OF assms(1), of k t] assms(3) by simp
  have v: "view s' t k = Leased (t + deliveryLease)"
    using view_claim [OF assms(1,2), of k k] claim_result [OF assms(1,2), of k] assms(3) by simp
  have "t \<le> u" using assms(4) by (simp add: deliveryLease_def Hour_def)
  moreover have "known s' k"
    using claim_result [OF assms(1,2), of k] known_claim [of k t s] assms(3) by simp
  ultimately show ?thesis
    using assms(2,4) by (simp add: claim_result [OF i] view_later [OF i, of t] v)
qed

end

text \<open>
  Two stores that satisfy the contract answer every history of claims of keys known to both
  alike.
\<close>

locale two_delivery_claims =
  a: delivery_claims claim complete release view known invar +
  b: delivery_claims claim' complete' release' view' known' invar'
  for claim :: "delivery_claim \<Rightarrow> instant \<Rightarrow> 's \<Rightarrow> bool \<times> 's" and complete release view known invar
  and claim' :: "delivery_claim \<Rightarrow> instant \<Rightarrow> 't \<Rightarrow> bool \<times> 't" and complete' release' view' known' invar'
begin

lemma same_view_later:
  "invar s \<Longrightarrow> invar' s' \<Longrightarrow> t \<le> u \<Longrightarrow> \<forall>k. view s t k = view' s' t k \<Longrightarrow> view s u k = view' s' u k"
  by (simp add: a.view_later b.view_later)

lemma same_step:
  assumes "invar s" "invar' s'" "time_zero \<le> t" "\<forall>k. view s t k = view' s' t k"
    and "known s (op_key c)" "known' s' (op_key c)"
  shows "fst (a.apply_op c t s) = fst (b.apply_op c t s') \<and>
    (\<forall>k. view (snd (a.apply_op c t s)) t k = view' (snd (b.apply_op c t s')) t k)"
  using assms by (cases c) (simp_all add: a.view_laws b.view_laws)

lemma same_results:
  assumes "invar s" "invar' s'" "time_zero \<le> t" "\<forall>k. view s t k = view' s' t k" "op_times t cs"
    and "\<forall>(u, c) \<in> set cs. known s (op_key c) \<and> known' s' (op_key c)"
  shows "fst (a.op_run s cs) = fst (b.op_run s' cs)"
  using assms
proof (induction cs arbitrary: s s' t)
  case Nil
  then show ?case by simp
next
  case (Cons op cs)
  obtain u c where op: "op = (u, c)" by (cases op)
  obtain r s1 where r: "a.apply_op c u s = (r, s1)" by fastforce
  obtain r' s1' where r': "b.apply_op c u s' = (r', s1')" by fastforce
  have u: "t \<le> u" "op_times u cs" "time_zero \<le> u" "known s (op_key c)" "known' s' (op_key c)"
    using Cons.prems op by auto
  have v: "\<forall>k. view s u k = view' s' u k" using same_view_later [OF Cons.prems(1,2) u(1) Cons.prems(4)] by blast
  note step = same_step [OF Cons.prems(1,2) u(3) v u(4,5), unfolded r r' fst_conv snd_conv]
  have "known s1 = known s" "known' s1' = known' s'"
    using a.known_apply [of c u s] b.known_apply [of c u s'] r r' by simp_all
  then have "fst (a.op_run s1 cs) = fst (b.op_run s1' cs)"
    using Cons.IH [of s1 s1' u] step u a.invar_apply [OF Cons.prems(1), of c u]
      b.invar_apply [OF Cons.prems(2), of c u] r r' Cons.prems(6) by simp
  then show ?case using step by (auto simp: op r r' split: prod.splits)
qed

end

section \<open>The in-memory store implements the contract\<close>

definition memory_view :: "subscription_store \<Rightarrow> instant \<Rightarrow> delivery_claim \<Rightarrow> claim_view" where
  "memory_view s t k =
     (case map_of (ss_claims s) k of
        None \<Rightarrow> Free
      | Some d \<Rightarrow>
          (case ds_status d of
             deliveryPending \<Rightarrow> Free
           | deliveryProcessing \<Rightarrow> if t < ds_leaseUntil d then Leased (ds_leaseUntil d) else Free
           | deliveryCompleted \<Rightarrow> Done))"

text \<open>A pending claim carries the zero lease.\<close>

definition claims_ok :: "subscription_store \<Rightarrow> bool" where
  "claims_ok s \<longleftrightarrow>
     (\<forall>k d. map_of (ss_claims s) k = Some d \<longrightarrow> ds_status d = deliveryPending \<longrightarrow> ds_leaseUntil d = time_zero)"

lemmas memory_claim_simps = claim_defs memory_view_def claims_ok_def map_of_update time_Add_def Let_def

interpretation memory_claims: delivery_claims ClaimDelivery CompleteDelivery ReleaseDelivery memory_view
  "\<lambda>s k. True" claims_ok
proof
  fix s t u k
  show "t \<le> u \<Longrightarrow> memory_view s u k =
      (case memory_view s t k of Leased l \<Rightarrow> if u < l then Leased l else Free | v \<Rightarrow> v)"
    by (auto simp: memory_view_def split: option.splits delivery_status.splits)
next
  fix s t k j
  assume "claims_ok s" "time_zero \<le> t"
  then show "fst (ClaimDelivery k t s) = (True \<and> memory_view s t k = Free)"
    by (auto simp: memory_claim_simps split: option.splits delivery_status.splits)
next
  fix s t k j
  assume "claims_ok s" "time_zero \<le> t"
  then show "memory_view (snd (ClaimDelivery k t s)) t j =
      (if j = k \<and> True \<and> memory_view s t k = Free then Leased (t + deliveryLease) else memory_view s t j)"
    by (auto simp: memory_claim_simps deliveryLease_def Hour_def split: option.splits delivery_status.splits)
next
  fix s t k j
  assume "claims_ok s" "time_zero \<le> t"
  then show "memory_view (CompleteDelivery k t s) t j =
      (if j = k \<and> memory_view s t k \<noteq> Free then Done else memory_view s t j)"
    by (auto simp: memory_claim_simps split: option.splits delivery_status.splits)
next
  fix s t k j
  assume "claims_ok s" "time_zero \<le> t"
  then show "memory_view (ReleaseDelivery k t s) t j =
      (if j = k \<and> memory_view s t k \<noteq> Done then Free else memory_view s t j)"
    by (auto simp: memory_claim_simps split: option.splits delivery_status.splits)
qed (auto simp: memory_claim_simps split: option.splits if_splits)

section \<open>Properties\<close>

text \<open>
  C13: a delivery is claimed by one worker at a time. After a successful claim at \<open>t\<close>, in
  any history of claims, completions and releases of any keys whose times stay within the
  one-hour lease and that does not release this key, no other claim of the key succeeds.
\<close>

theorem memory_claim_exclusive:
  assumes "claims_ok s" "time_zero \<le> t" "ClaimDelivery k t s = (True, s')" "op_times t cs"
    "\<forall>(u, c) \<in> set cs. u < t + deliveryLease \<and> c \<noteq> Release k"
  shows "granted k cs (fst (claim_history ClaimDelivery CompleteDelivery ReleaseDelivery s' cs)) = []"
  by (rule memory_claims.claim_exclusive [OF assms])

definition sample_key :: delivery_claim where
  "sample_key = \<lparr>dc_tenantID = ''acme'', dc_eventID = ''e1'', dc_subscriptionID = ''wh_1''\<rparr>"

lemma NewMemoryStore_ok: "claims_ok NewMemoryStore"
  by (simp add: claims_ok_def NewMemoryStore_def)

lemma sample_claim:
  "ClaimDelivery sample_key 0 NewMemoryStore =
     (True, NewMemoryStore\<lparr>ss_claims := [(sample_key, \<lparr>ds_status = deliveryProcessing, ds_leaseUntil = Hour\<rparr>)]\<rparr>)"
  by (simp add: ClaimDelivery_def NewMemoryStore_def time_Add_def deliveryLease_def)

theorem memory_claim_exclusive_witness:
  "granted sample_key [(7, Claim sample_key), (9, Complete sample_key), (11, Claim sample_key)]
    (fst (claim_history ClaimDelivery CompleteDelivery ReleaseDelivery
      (NewMemoryStore\<lparr>ss_claims := [(sample_key, \<lparr>ds_status = deliveryProcessing, ds_leaseUntil = Hour\<rparr>)]\<rparr>)
      [(7, Claim sample_key), (9, Complete sample_key), (11, Claim sample_key)])) = []"
  by (rule memory_claim_exclusive [OF NewMemoryStore_ok _ sample_claim])
    (simp_all add: time_defs deliveryLease_def)

text \<open>
  A delivery completed while its lease runs is never attempted again: no claim of it
  succeeds in any later history, however long, releases by other workers included.
\<close>

theorem memory_completed_forever:
  assumes "claims_ok s" "time_zero \<le> t" "ClaimDelivery k t s = (True, s1)"
    "t \<le> u" "u < t + deliveryLease" "op_times u cs"
  shows "granted k cs (fst (claim_history ClaimDelivery CompleteDelivery ReleaseDelivery (CompleteDelivery k u s1) cs)) = []"
  by (rule memory_claims.completed_forever [OF assms])

theorem memory_completed_forever_witness:
  "granted sample_key [(7 * Hour, Release sample_key), (8 * Hour, Claim sample_key)]
    (fst (claim_history ClaimDelivery CompleteDelivery ReleaseDelivery
      (CompleteDelivery sample_key 5
        (NewMemoryStore\<lparr>ss_claims := [(sample_key, \<lparr>ds_status = deliveryProcessing, ds_leaseUntil = Hour\<rparr>)]\<rparr>))
      [(7 * Hour, Release sample_key), (8 * Hour, Claim sample_key)])) = []"
  by (rule memory_completed_forever [OF NewMemoryStore_ok _ sample_claim])
    (simp_all add: time_defs deliveryLease_def)

text \<open>
  A crashed worker does not block a delivery for ever: once the hour of its lease is
  over, the next claim of the key succeeds.
\<close>

theorem memory_expired_claimable:
  assumes "claims_ok s" "time_zero \<le> t" "ClaimDelivery k t s = (True, s')" "t + deliveryLease \<le> u"
  shows "fst (ClaimDelivery k u s')"
  by (rule memory_claims.expired_claimable [OF assms])

theorem memory_expired_claimable_witness:
  "fst (ClaimDelivery sample_key Hour
    (NewMemoryStore\<lparr>ss_claims := [(sample_key, \<lparr>ds_status = deliveryProcessing, ds_leaseUntil = Hour\<rparr>)]\<rparr>))"
  by (rule memory_expired_claimable [OF NewMemoryStore_ok _ sample_claim])
    (simp_all add: time_defs deliveryLease_def)

text \<open>
  Subscriptions. What was created is listed for its tenant and event type as long as it
  is enabled, the listing never shows another tenant's or another type's subscription.
\<close>

theorem list_after_create:
  assumes "map_order perm" "gomap_ok (ss_items s)"
    and "ListSubscriptions perm tenantID eventType (snd (CreateSubscription sub s)) = out"
  shows "(sub \<in> set out \<longleftrightarrow> sub_TenantID sub = tenantID \<and> sub_EventType sub = eventType \<and> sub_Enabled sub) \<and>
    (\<forall>x \<in> set out. sub_TenantID x = tenantID \<and> sub_EventType x = eventType \<and> sub_Enabled x)"
proof -
  let ?items = "AList.update (sub_ID sub) sub (ss_items s)"
  have "(sub_ID sub, sub) \<in> set ?items" using assms(2) by (simp add: gomap_in_set map_of_update)
  then have "sub \<in> snd ` set (perm ?items)" using assms(1) by (force simp: map_order_set)
  then show ?thesis unfolding assms(3) [symmetric] ListSubscriptions_def CreateSubscription_def by simp
qed

definition sample_sub :: subscription where
  "sample_sub = \<lparr>sub_ID = ''wh_1'', sub_TenantID = ''acme'', sub_EventType = ''order'', sub_Endpoint = ''https://x'',
     sub_Secret = ''k'', sub_Enabled = True, sub_CreatedAt = 0, sub_UpdatedAt = 0\<rparr>"

theorem list_after_create_witness:
  "sample_sub \<in> set (ListSubscriptions id ''acme'' ''order'' (snd (CreateSubscription sample_sub NewMemoryStore)))"
  using list_after_create [of id NewMemoryStore "''acme''" "''order''" sample_sub, OF _ _ refl]
  by (simp add: map_order_def NewMemoryStore_def sample_sub_def)

end
