(* ===== verification/Webhook_Resilience.thy ===== *)
theory Webhook_Resilience
  imports Webhook_Security Webhook_Claims
begin

text \<open>
  \<open>internal/webhook/resilience.go\<close>: the circuit breaker, the bulkhead and the dispatcher.

  The breaker's methods run under its mutex, so each is one function of its state. The
  bulkhead is a buffered channel: its state is how many slots are taken, and an operation
  that blocks is \<open>None\<close>. \<open>Deliver\<close> runs over a world \<open>'w\<close> that only the operations of
  \<open>deliver_env\<close> read or change: the clock \<open>d.now\<close>, the resolver, the HTTP client
  (\<open>exchange\<close>: the status of the response, or \<open>None\<close> for an error), the random number
  generator, the timer raced against the context (\<open>pause\<close>: whether the timer fired
  first). It returns, besides its result and the dispatcher's new state, the list of the
  requests sent, with their answers, and of the pauses started: what the theorems speak of.
  The breaker and the bulkhead of an endpoint are shared by concurrent deliveries; \<open>Deliver\<close>
  is one delivery on its own, and \<open>slot_step\<close> interleaves many at the bulkhead.
\<close>

named_theorems resilience_defs "definitions of the breaker, bulkhead and dispatcher"

section \<open>Circuit breaker\<close>

datatype circuit_state = Closed | Open | HalfOpen

record circuit_breaker =
  cb_state :: circuit_state
  cb_failures :: int
  cb_threshold :: int
  cb_openedAt :: instant
  cb_cooldown :: duration
  cb_probeInFlight :: bool

definition NewCircuitBreaker :: "int \<Rightarrow> duration \<Rightarrow> circuit_breaker" where
  "NewCircuitBreaker threshold cooldown =
     \<lparr>cb_state = Closed, cb_failures = 0, cb_threshold = (if threshold < 1 then 3 else threshold),
      cb_openedAt = time_zero, cb_cooldown = cooldown, cb_probeInFlight = False\<rparr>"

definition Allow :: "instant \<Rightarrow> circuit_breaker \<Rightarrow> bool \<times> circuit_breaker" where
  "Allow now b =
     (let b = (if cb_state b = Open \<and> cb_cooldown b \<le> time_Sub now (cb_openedAt b)
               then b\<lparr>cb_state := HalfOpen\<rparr> else b) in
      if cb_state b = HalfOpen then
        if cb_probeInFlight b then (False, b) else (True, b\<lparr>cb_probeInFlight := True\<rparr>)
      else (cb_state b \<noteq> Open, b))"

definition Success :: "circuit_breaker \<Rightarrow> circuit_breaker" where
  "Success b = b\<lparr>cb_state := Closed, cb_failures := 0, cb_probeInFlight := False\<rparr>"

definition Failure :: "instant \<Rightarrow> circuit_breaker \<Rightarrow> circuit_breaker" where
  "Failure now b =
     (let b = b\<lparr>cb_failures := cb_failures b + 1\<rparr>;
          b = (if cb_threshold b \<le> cb_failures b then b\<lparr>cb_state := Open, cb_openedAt := now\<rparr> else b)
      in b\<lparr>cb_probeInFlight := False\<rparr>)"

section \<open>Bulkhead\<close>

record bulkhead =
  bh_limit :: int
  bh_used :: int

definition NewBulkhead :: "int \<Rightarrow> bulkhead" where
  "NewBulkhead limit = \<lparr>bh_limit = (if limit < 1 then 1 else limit), bh_used = 0\<rparr>"

text \<open>
  The \<open>select\<close> of \<open>Acquire\<close>: \<open>finished\<close> says that the context is done, \<open>pick\<close> which case
  is taken when both are ready.
\<close>

definition Acquire :: "bool \<Rightarrow> bool \<Rightarrow> bulkhead \<Rightarrow> (webhook_error option \<times> bulkhead) option" where
  "Acquire finished pick b =
     (if bh_used b < bh_limit b \<and> (\<not> finished \<or> pick) then Some (None, b\<lparr>bh_used := bh_used b + 1\<rparr>)
      else if finished then Some (Some ErrContext, b)
      else None)"

definition bulkhead_Release :: "bulkhead \<Rightarrow> bulkhead option" where
  "bulkhead_Release b = (if 0 < bh_used b then Some (b\<lparr>bh_used := bh_used b - 1\<rparr>) else None)"

section \<open>Dispatcher\<close>

record delivery =
  d_Endpoint :: bytes
  d_Secret :: bytes
  d_Event :: event

record dispatcher =
  dp_maxRetries :: int
  dp_backoff :: "duration list"
  dp_breakers :: "circuit_breaker gomap"
  dp_bulkheadLimit :: int
  dp_bulkheads :: "bulkhead gomap"
  dp_timeout :: duration

record request =
  rq_url :: bytes
  rq_headers :: "(bytes \<times> bytes) list"
  rq_body :: bytes

record 'w deliver_env =
  e_getenv :: "bytes \<Rightarrow> bytes"
  e_parse :: "bytes \<Rightarrow> url option"
  e_hmac :: "bytes \<Rightarrow> bytes \<Rightarrow> bytes"
  e_marshal :: "event \<Rightarrow> bytes option"
  e_request_ok :: "bytes \<Rightarrow> bool"
  e_now :: "'w \<Rightarrow> instant"
  e_lookup :: "'w \<Rightarrow> bytes \<Rightarrow> ip list option"
  e_context :: "'w \<Rightarrow> bool \<times> bool"
  e_exchange :: "request \<Rightarrow> 'w \<Rightarrow> int option \<times> 'w"
  e_rand :: "int \<Rightarrow> 'w \<Rightarrow> int \<times> 'w"
  e_pause :: "duration \<Rightarrow> 'w \<Rightarrow> bool \<times> 'w"

datatype deliver_event = Sent request "int option" | Paused duration

datatype deliver_result = Delivered | Failed webhook_error | Panicked | Blocked

definition NewDispatcher :: "int \<Rightarrow> int \<Rightarrow> duration \<Rightarrow> dispatcher" where
  "NewDispatcher concurrency maxRetries timeout =
     \<lparr>dp_maxRetries = (if maxRetries < 0 then 0 else maxRetries),
      dp_backoff = [Second, 5 * Second, 30 * Second, 5 * Minute, 30 * Minute],
      dp_breakers = [],
      dp_bulkheadLimit = (if concurrency < 1 then 1 else concurrency),
      dp_bulkheads = [],
      dp_timeout = timeout\<rparr>"

definition endpointCircuitBreaker :: "bytes \<Rightarrow> dispatcher \<Rightarrow> circuit_breaker \<times> dispatcher" where
  "endpointCircuitBreaker endpoint d =
     (case map_of (dp_breakers d) endpoint of
        Some b \<Rightarrow> (b, d)
      | None \<Rightarrow>
          let candidate = NewCircuitBreaker 3 Minute
          in (candidate, d\<lparr>dp_breakers := AList.update endpoint candidate (dp_breakers d)\<rparr>))"

definition endpointBulkhead :: "bytes \<Rightarrow> dispatcher \<Rightarrow> bulkhead \<times> dispatcher" where
  "endpointBulkhead endpoint d =
     (case map_of (dp_bulkheads d) endpoint of
        Some b \<Rightarrow> (b, d)
      | None \<Rightarrow>
          let candidate = NewBulkhead (dp_bulkheadLimit d)
          in (candidate, d\<lparr>dp_bulkheads := AList.update endpoint candidate (dp_bulkheads d)\<rparr>))"

text \<open>Writing back a breaker or a bulkhead that was reached through its pointer.\<close>

definition put_breaker :: "bytes \<Rightarrow> circuit_breaker \<Rightarrow> dispatcher \<Rightarrow> dispatcher" where
  "put_breaker endpoint b d = d\<lparr>dp_breakers := AList.update endpoint b (dp_breakers d)\<rparr>"

definition put_bulkhead :: "bytes \<Rightarrow> bulkhead \<Rightarrow> dispatcher \<Rightarrow> dispatcher" where
  "put_bulkhead endpoint b d = d\<lparr>dp_bulkheads := AList.update endpoint b (dp_bulkheads d)\<rparr>"

text \<open>The deferred \<open>bulkhead.Release()\<close>.\<close>

definition release_slot :: "bytes \<Rightarrow> dispatcher \<Rightarrow> dispatcher" where
  "release_slot endpoint d =
     (case map_of (dp_bulkheads d) endpoint of
        None \<Rightarrow> d
      | Some b \<Rightarrow> (case bulkhead_Release b of None \<Rightarrow> d | Some b' \<Rightarrow> put_bulkhead endpoint b' d))"

definition webhook_request :: "(bytes \<Rightarrow> bytes \<Rightarrow> bytes) \<Rightarrow> instant \<Rightarrow> delivery \<Rightarrow> bytes \<Rightarrow> request" where
  "webhook_request hmac now dlv body =
     \<lparr>rq_url = d_Endpoint dlv,
      rq_headers = [(''Content-Type'', ''application/json''),
                    (''X-Pulse-Timestamp'', FormatInt (time_Unix now)),
                    (''X-Pulse-Event-Id'', EventID (d_Event dlv)),
                    (''X-Pulse-Signature'', Signature hmac (d_Secret dlv) (d_Event dlv) now body)],
      rq_body = body\<rparr>"

definition send :: "'w deliver_env \<Rightarrow> delivery \<Rightarrow> bytes \<Rightarrow> 'w \<Rightarrow> webhook_error option \<times> 'w \<times> deliver_event list" where
  "send env dlv body w =
     (if \<not> e_request_ok env (d_Endpoint dlv) then (Some ErrSend, w, [])
      else
        let req = webhook_request (e_hmac env) (e_now env w) dlv body in
        case e_exchange env req w of
          (None, w') \<Rightarrow> (Some ErrSend, w', [Sent req None])
        | (Some status, w') \<Rightarrow>
            if status < 200 \<or> 300 \<le> status then (Some (ErrStatus status), w', [Sent req (Some status)])
            else (None, w', [Sent req (Some status)]))"

text \<open>
  The retry loop of \<open>Deliver\<close> from a given attempt on. \<open>d.backoff[attempt]\<close> out of range
  and \<open>rand.Int64N\<close> of a number that is not positive panic.
\<close>

function deliver_loop ::
  "'w deliver_env \<Rightarrow> duration list \<Rightarrow> int \<Rightarrow> delivery \<Rightarrow> bytes \<Rightarrow> int \<Rightarrow> circuit_breaker \<Rightarrow> 'w
     \<Rightarrow> deliver_result \<times> circuit_breaker \<times> 'w \<times> deliver_event list" where
  "deliver_loop env backoff maxRetries dlv body attempt b w =
     (if maxRetries < attempt then (Delivered, b, w, [])
      else case send env dlv body w of
        (None, w1, l) \<Rightarrow> (Delivered, Success b, w1, l)
      | (Some err, w1, l) \<Rightarrow>
          let b1 = Failure (e_now env w1) b in
          if attempt = maxRetries then (Failed err, b1, w1, l)
          else if attempt < 0 \<or> int (length backoff) \<le> attempt then (Panicked, b1, w1, l)
          else
            let wait = backoff ! nat attempt in
            if go_div wait 5 \<le> 0 then (Panicked, b1, w1, l)
            else case e_rand env (go_div wait 5) w1 of (j, w2) \<Rightarrow>
              case e_pause env (wait + j) w2 of
                (False, w3) \<Rightarrow> (Failed ErrContext, b1, w3, l @ [Paused (wait + j)])
              | (True, w3) \<Rightarrow>
                  (case deliver_loop env backoff maxRetries dlv body (attempt + 1) b1 w3 of
                     (r, b2, w4, l') \<Rightarrow> (r, b2, w4, l @ Paused (wait + j) # l')))"
  by pat_completeness auto

termination by (relation "measure (\<lambda>(_, _, maxRetries, _, _, attempt, _, _). nat (maxRetries + 1 - attempt))") auto

declare deliver_loop.simps [simp del]

definition Deliver ::
  "'w deliver_env \<Rightarrow> dispatcher \<Rightarrow> delivery \<Rightarrow> 'w \<Rightarrow> deliver_result \<times> dispatcher \<times> 'w \<times> deliver_event list" where
  "Deliver env d dlv w =
     (let endpoint = d_Endpoint dlv in
      case ValidateEndpoint (e_getenv env) (e_parse env) endpoint (Some (e_lookup env w)) of
        Some err \<Rightarrow> (Failed err, d, w, [])
      | None \<Rightarrow>
          let (breaker, d) = endpointCircuitBreaker endpoint d;
              (allowed, breaker) = Allow (e_now env w) breaker;
              d = put_breaker endpoint breaker d in
          if \<not> allowed then (Failed ErrCircuitOpen, d, w, [])
          else
            let (bulkhead, d) = endpointBulkhead endpoint d in
            case Acquire (fst (e_context env w)) (snd (e_context env w)) bulkhead of
              None \<Rightarrow> (Blocked, d, w, [])
            | Some (Some err, _) \<Rightarrow> (Failed err, d, w, [])
            | Some (None, taken) \<Rightarrow>
                let d = put_bulkhead endpoint taken d;
                    (r, d, w', l) =
                      (case e_marshal env (d_Event dlv) of
                         None \<Rightarrow> (Failed ErrMarshal, d, w, [])
                       | Some body \<Rightarrow>
                           (case deliver_loop env (dp_backoff d) (dp_maxRetries d) dlv body 0 breaker w of
                              (r, breaker, w', l) \<Rightarrow> (r, put_breaker endpoint breaker d, w', l)))
                in (r, release_slot endpoint d, w', l))"

lemmas [resilience_defs] = Allow_def Success_def Failure_def NewCircuitBreaker_def Acquire_def
  bulkhead_Release_def NewBulkhead_def send_def

section \<open>The breaker as a state machine\<close>

inductive breaker_reach :: "int \<Rightarrow> duration \<Rightarrow> circuit_breaker \<Rightarrow> bool" for threshold cooldown where
  new: "breaker_reach threshold cooldown (NewCircuitBreaker threshold cooldown)"
| allow: "breaker_reach threshold cooldown b \<Longrightarrow> breaker_reach threshold cooldown (snd (Allow now b))"
| success: "breaker_reach threshold cooldown b \<Longrightarrow> breaker_reach threshold cooldown (Success b)"
| failure: "breaker_reach threshold cooldown b \<Longrightarrow> breaker_reach threshold cooldown (Failure now b)"

definition breaker_ok :: "duration \<Rightarrow> circuit_breaker \<Rightarrow> bool" where
  "breaker_ok cooldown b \<longleftrightarrow> 1 \<le> cb_threshold b \<and> 0 \<le> cb_failures b \<and> cb_cooldown b = cooldown \<and>
     (cb_state b = Closed \<longleftrightarrow> cb_failures b < cb_threshold b) \<and>
     (cb_probeInFlight b \<longrightarrow> cb_state b = HalfOpen)"

lemma breaker_reach_ok: "breaker_reach threshold cooldown b \<Longrightarrow> breaker_ok cooldown b"
  by (induction rule: breaker_reach.induct) (auto simp: breaker_ok_def resilience_defs Let_def)

text \<open>The answers to a series of questions, with no outcome reported in between.\<close>

fun allow_all :: "instant list \<Rightarrow> circuit_breaker \<Rightarrow> bool list" where
  "allow_all [] b = []"
| "allow_all (t # ts) b = (case Allow t b of (r, b') \<Rightarrow> r # allow_all ts b')"

lemma allow_all_probing:
  "cb_state b = HalfOpen \<Longrightarrow> cb_probeInFlight b \<Longrightarrow> allow_all ts b = replicate (length ts) False"
  by (induction ts) (auto simp: Allow_def)

lemma Allow_probe:
  "Allow t b = (True, b') \<Longrightarrow> cb_state b \<noteq> Closed \<Longrightarrow> cb_state b' = HalfOpen \<and> cb_probeInFlight b'"
  by (cases "cb_state b") (auto simp: Allow_def Let_def split: if_splits)

lemma Failure_fold:
  assumes "cb_threshold b \<le> cb_failures b + int (length ts)" "ts \<noteq> []"
  shows "cb_state (fold Failure ts b) = Open \<and> cb_openedAt (fold Failure ts b) = last ts \<and>
    \<not> cb_probeInFlight (fold Failure ts b) \<and> cb_cooldown (fold Failure ts b) = cb_cooldown b"
  using assms
proof (induction ts arbitrary: b)
  case Nil
  then show ?case by simp
next
  case (Cons t ts)
  show ?case
  proof (cases "ts = []")
    case True
    with Cons.prems show ?thesis by (simp add: Failure_def Let_def)
  next
    case False
    moreover have "cb_threshold (Failure t b) \<le> cb_failures (Failure t b) + int (length ts)"
      using Cons.prems by (simp add: Failure_def Let_def)
    ultimately show ?thesis
      using Cons.IH [of "Failure t b"] by (simp add: Failure_def Let_def)
  qed
qed

section \<open>Runs of the retry loop\<close>

text \<open>The executions of \<open>deliver_loop\<close>, for rule induction.\<close>

inductive deliver_run ::
  "'w deliver_env \<Rightarrow> duration list \<Rightarrow> int \<Rightarrow> delivery \<Rightarrow> bytes \<Rightarrow> int \<Rightarrow> circuit_breaker \<Rightarrow> 'w
     \<Rightarrow> deliver_result \<Rightarrow> circuit_breaker \<Rightarrow> 'w \<Rightarrow> deliver_event list \<Rightarrow> bool"
  for env backoff maxRetries dlv body where
  ok: "a \<le> maxRetries \<Longrightarrow> send env dlv body w = (None, w1, l) \<Longrightarrow>
    deliver_run env backoff maxRetries dlv body a b w Delivered (Success b) w1 l"
| exhausted: "send env dlv body w = (Some err, w1, l) \<Longrightarrow>
    deliver_run env backoff maxRetries dlv body maxRetries b w (Failed err) (Failure (e_now env w1) b) w1 l"
| panic: "a < maxRetries \<Longrightarrow> send env dlv body w = (Some err, w1, l) \<Longrightarrow>
    a < 0 \<or> int (length backoff) \<le> a \<or> go_div (backoff ! nat a) 5 \<le> 0 \<Longrightarrow>
    deliver_run env backoff maxRetries dlv body a b w Panicked (Failure (e_now env w1) b) w1 l"
| cancelled: "a < maxRetries \<Longrightarrow> send env dlv body w = (Some err, w1, l) \<Longrightarrow> 0 \<le> a \<Longrightarrow> a < int (length backoff) \<Longrightarrow>
    0 < go_div (backoff ! nat a) 5 \<Longrightarrow> e_rand env (go_div (backoff ! nat a) 5) w1 = (j, w2) \<Longrightarrow>
    e_pause env (backoff ! nat a + j) w2 = (False, w3) \<Longrightarrow>
    deliver_run env backoff maxRetries dlv body a b w (Failed ErrContext) (Failure (e_now env w1) b) w3
      (l @ [Paused (backoff ! nat a + j)])"
| again: "a < maxRetries \<Longrightarrow> send env dlv body w = (Some err, w1, l) \<Longrightarrow> 0 \<le> a \<Longrightarrow> a < int (length backoff) \<Longrightarrow>
    0 < go_div (backoff ! nat a) 5 \<Longrightarrow> e_rand env (go_div (backoff ! nat a) 5) w1 = (j, w2) \<Longrightarrow>
    e_pause env (backoff ! nat a + j) w2 = (True, w3) \<Longrightarrow>
    deliver_run env backoff maxRetries dlv body (a + 1) (Failure (e_now env w1) b) w3 r b' w' l' \<Longrightarrow>
    deliver_run env backoff maxRetries dlv body a b w r b' w' (l @ Paused (backoff ! nat a + j) # l')"

lemma deliver_loop_run:
  assumes "deliver_loop env backoff mx dlv body a b w = (r, b', w', l)" "a \<le> mx"
  shows "deliver_run env backoff mx dlv body a b w r b' w' l"
  using assms
proof (induction "nat (mx - a)" arbitrary: a b w r b' w' l)
  case 0
  then have [simp]: "a = mx" by simp
  show ?case
    using 0 by (subst (asm) deliver_loop.simps) (auto simp: Let_def intro: deliver_run.intros split: prod.splits option.splits)
next
  case (Suc n)
  obtain o1 w1 l1 where send: "send env dlv body w = (o1, w1, l1)" by (cases "send env dlv body w")
  show ?case
  proof (cases o1)
    case None
    then show ?thesis
      using Suc.prems send by (subst (asm) deliver_loop.simps) (auto intro: deliver_run.ok)
  next
    case (Some err)
    let ?b = "Failure (e_now env w1) b"
    have lt: "a < mx" using Suc.hyps(2) by simp
    obtain j w2 where rnd: "e_rand env (go_div (backoff ! nat a) 5) w1 = (j, w2)" by fastforce
    obtain c w3 where pause: "e_pause env (backoff ! nat a + j) w2 = (c, w3)" by fastforce
    obtain r4 b4 w4 l4 where rest: "deliver_loop env backoff mx dlv body (a + 1) ?b w3 = (r4, b4, w4, l4)"
      by (metis prod_cases4)
    have IH: "deliver_run env backoff mx dlv body (a + 1) ?b w3 r4 b4 w4 l4"
      using Suc.hyps(1) [OF _ rest] Suc.hyps(2) lt by simp
    show ?thesis
      using Suc.prems lt send Some rnd pause rest IH
      by (subst (asm) deliver_loop.simps)
        (auto simp: Let_def intro: deliver_run.intros split: if_splits bool.splits)
  qed
qed

text \<open>What a log says: the requests sent, the time paused.\<close>

fun sends :: "deliver_event list \<Rightarrow> int" where
  "sends [] = 0"
| "sends (Sent _ _ # l) = 1 + sends l"
| "sends (Paused _ # l) = sends l"

fun paused :: "deliver_event list \<Rightarrow> duration" where
  "paused [] = 0"
| "paused (Sent _ _ # l) = paused l"
| "paused (Paused d # l) = d + paused l"

lemma sends_append [simp]: "sends (a @ b) = sends a + sends b"
  by (induction a rule: sends.induct) auto

lemma paused_append [simp]: "paused (a @ b) = paused a + paused b"
  by (induction a rule: paused.induct) auto

lemma send_log:
  assumes "send env dlv body w = (e, w1, l)"
  shows "sends l \<le> 1 \<and> paused l = 0 \<and>
    (l = [] \<and> w1 = w \<and> e \<noteq> None \<or>
     (\<exists>x. l = [Sent (webhook_request (e_hmac env) (e_now env w) dlv body) x] \<and>
        e_exchange env (webhook_request (e_hmac env) (e_now env w) dlv body) w = (x, w1) \<and>
        (e = None \<longleftrightarrow> (\<exists>s. x = Some s \<and> 200 \<le> s \<and> s < 300))))"
  using assms by (auto simp: send_def Let_def split: if_splits prod.splits option.splits)

text \<open>The longest pause after an attempt: the backoff and a fifth of it (excluded).\<close>

definition longest_pause :: "duration list \<Rightarrow> int \<Rightarrow> duration" where
  "longest_pause backoff a = backoff ! nat a + go_div (backoff ! nat a) 5"

definition jitter_ok :: "'w deliver_env \<Rightarrow> bool" where
  "jitter_ok env \<longleftrightarrow> (\<forall>n w. 0 < n \<longrightarrow> 0 \<le> fst (e_rand env n w) \<and> fst (e_rand env n w) < n)"

text \<open>
  The timing of the environment: an exchange lasts at most the client's timeout, a pause
  no longer than asked, the generator takes no time.
\<close>

definition timely :: "duration \<Rightarrow> 'w deliver_env \<Rightarrow> bool" where
  "timely timeout env \<longleftrightarrow>
     (\<forall>req w. e_now env (snd (e_exchange env req w)) \<le> e_now env w + timeout) \<and>
     (\<forall>n w. e_now env (snd (e_rand env n w)) \<le> e_now env w) \<and>
     (\<forall>d w. e_now env (snd (e_pause env d w)) \<le> e_now env w + d)"

lemma sum_upto_first:
  fixes f :: "int \<Rightarrow> int"
  assumes "a < n"
  shows "sum_list (map f [a..n - 1]) = f a + sum_list (map f [a + 1..n - 1])"
  using assms by (simp add: upto_rec1)

lemma sum_upto_nonneg:
  fixes f :: "int \<Rightarrow> int"
  assumes "\<forall>i. a \<le> i \<and> i < n \<longrightarrow> 0 \<le> f i"
  shows "0 \<le> sum_list (map f [a..n - 1])"
  using assms by (intro sum_list_nonneg) auto

lemma deliver_run_sends:
  "deliver_run env backoff mx dlv body a b w r b' w' l \<Longrightarrow> sends l \<le> mx - a + 1"
  by (induction rule: deliver_run.induct) (auto dest!: send_log)

lemma deliver_run_requests:
  "deliver_run env backoff mx dlv body a b w r b' w' l \<Longrightarrow> Sent req x \<in> set l \<Longrightarrow>
     \<exists>now. req = webhook_request (e_hmac env) now dlv body"
  by (induction rule: deliver_run.induct) (fastforce dest: send_log)+

lemma jitter_okD: "jitter_ok env \<Longrightarrow> 0 < n \<Longrightarrow> e_rand env n w = (j, w') \<Longrightarrow> 0 \<le> j \<and> j < n"
  unfolding jitter_ok_def by (metis fst_conv)

lemma timelyD:
  "timely timeout env \<Longrightarrow> e_rand env n w1 = (j, w2) \<Longrightarrow> e_pause env d w2 = (c, w3) \<Longrightarrow> e_now env w3 \<le> e_now env w1 + d"
  unfolding timely_def by (smt (verit, ccfv_threshold) snd_conv)

lemma send_elapsed:
  assumes "send env dlv body w = (e, w1, l)" "timely timeout env" "0 \<le> timeout"
  shows "e_now env w1 \<le> e_now env w + sends l * timeout"
proof -
  have ex: "e_exchange env req w = (x, w1) \<Longrightarrow> e_now env w1 \<le> e_now env w + timeout" for req x
    using assms(2) unfolding timely_def by (metis snd_conv)
  show ?thesis using send_log [OF assms(1)] ex by auto
qed

lemma longest_pause_nonneg:
  assumes "\<forall>d \<in> set backoff. 0 \<le> d" "mx \<le> int (length backoff)" "0 \<le> a"
  shows "\<forall>i. a \<le> i \<and> i < mx \<longrightarrow> 0 \<le> longest_pause backoff i"
proof (intro allI impI)
  fix i assume "a \<le> i \<and> i < mx"
  then have "nat i < length backoff" using assms by linarith
  then have "0 \<le> backoff ! nat i" using assms(1) by simp
  then show "0 \<le> longest_pause backoff i" by (simp add: longest_pause_def go_div_nonneg)
qed

lemma deliver_run_paused:
  assumes "deliver_run env backoff mx dlv body a b w r b' w' l" "jitter_ok env" "\<forall>d \<in> set backoff. 0 \<le> d"
    and "mx \<le> int (length backoff)" "0 \<le> a"
  shows "0 \<le> paused l \<and> paused l \<le> sum_list (map (longest_pause backoff) [a..mx - 1])"
  using assms
proof (induction rule: deliver_run.induct)
  case (ok a w w1 l b)
  then show ?case
    using send_log [OF ok(2)] sum_upto_nonneg [OF longest_pause_nonneg, of backoff mx a] by simp
next
  case (exhausted w err w1 l b)
  then show ?case using send_log [OF exhausted(1)] by simp
next
  case (panic a w err w1 l b)
  then show ?case
    using send_log [OF panic(2)] sum_upto_nonneg [OF longest_pause_nonneg, of backoff mx a] by simp
next
  case (cancelled a w err w1 l j w2 w3 b)
  let ?wait = "backoff ! nat a"
  have j: "0 \<le> j" "j < go_div ?wait 5" "0 \<le> ?wait"
    using cancelled(1-7,9,10) jitter_okD [OF cancelled(8,5,6)] by auto
  have "0 \<le> sum_list (map (longest_pause backoff) [a + 1..mx - 1])"
    using cancelled by (intro sum_upto_nonneg longest_pause_nonneg) auto
  with j send_log [OF cancelled(2)] sum_upto_first [OF cancelled(1), of "longest_pause backoff"]
  show ?case by (simp add: longest_pause_def [of backoff a])
next
  case (again a w err w1 l j w2 w3 b r b' w' l')
  let ?wait = "backoff ! nat a"
  have j: "0 \<le> j" "j < go_div ?wait 5" "0 \<le> ?wait"
    using again(3,4,11) jitter_okD [OF again(10,5,6)] by auto
  have "0 \<le> paused l' \<and> paused l' \<le> sum_list (map (longest_pause backoff) [a + 1..mx - 1])"
    using again.IH again.prems again.hyps(3) by simp
  with j send_log [OF again(2)] sum_upto_first [OF again(1), of "longest_pause backoff"]
  show ?case by (simp add: longest_pause_def [of backoff a])
qed

lemma deliver_run_elapsed:
  assumes "deliver_run env backoff mx dlv body a b w r b' w' l" "timely timeout env" "0 \<le> timeout"
  shows "e_now env w' \<le> e_now env w + sends l * timeout + paused l"
  using assms
proof (induction rule: deliver_run.induct)
  case (ok a w w1 l b)
  then show ?case using send_elapsed [OF ok(2)] send_log [OF ok(2)] by simp
next
  case (exhausted w err w1 l b)
  then show ?case using send_elapsed [OF exhausted(1)] send_log [OF exhausted(1)] by simp
next
  case (panic a w err w1 l b)
  then show ?case using send_elapsed [OF panic(2)] send_log [OF panic(2)] by simp
next
  case (cancelled a w err w1 l j w2 w3 b)
  then show ?case
    using send_elapsed [OF cancelled(2) cancelled(8,9)] send_log [OF cancelled(2)] timelyD [OF cancelled(8) cancelled(6,7)] by simp
next
  case (again a w err w1 l j w2 w3 b r b' w' l')
  then show ?case
    using send_elapsed [OF again(2) again(10,11)] send_log [OF again(2)] timelyD [OF again(10) again(6,7)]
    by (simp add: algebra_simps)
qed

lemma backoff_positive:
  assumes "0 \<le> a" "a < 5"
  shows "0 < go_div ([Second, 5 * Second, 30 * Second, 5 * Minute, 30 * Minute] ! nat a) 5"
proof -
  have "a \<in> {0, 1, 2, 3, 4}" using assms by auto
  then show ?thesis by (auto simp: time_defs go_div_def nat_numeral)
qed

lemma deliver_run_no_panic:
  assumes "deliver_run env [Second, 5 * Second, 30 * Second, 5 * Minute, 30 * Minute] mx dlv body a b w r b' w' l"
    and "mx \<le> 5" "0 \<le> a"
  shows "r \<noteq> Panicked"
  using assms
proof (induction rule: deliver_run.induct)
  case (panic a w err w1 l b)
  then show ?case using backoff_positive [of a] by auto
qed auto

lemma deliver_run_result:
  assumes "deliver_run env backoff mx dlv body a b w r b' w' l"
  shows "r \<noteq> Blocked \<and> (r = Delivered \<longrightarrow> (\<exists>l0 req s. l = l0 @ [Sent req (Some s)] \<and> 200 \<le> s \<and> s < 300)) \<and>
    (r \<noteq> Delivered \<longrightarrow> (\<forall>req s. Sent req (Some s) \<in> set l \<longrightarrow> \<not> (200 \<le> s \<and> s < 300)))"
  using assms
proof (induction rule: deliver_run.induct)
  case (ok a w w1 l b)
  then show ?case using send_log [OF ok(2)] by auto
next
  case (again a w err w1 l j w2 w3 b r b' w' l')
  have "\<forall>req s. Sent req (Some s) \<in> set l \<longrightarrow> \<not> (200 \<le> s \<and> s < 300)"
    using send_log [OF again(2)] by auto
  with again.IH show ?case by auto
qed (auto dest!: send_log)

section \<open>The whole delivery\<close>

lemma dispatcher_fields:
  "dp_backoff (put_bulkhead ep x y) = dp_backoff y" "dp_maxRetries (put_bulkhead ep x y) = dp_maxRetries y"
  "dp_backoff (put_breaker ep z y) = dp_backoff y" "dp_maxRetries (put_breaker ep z y) = dp_maxRetries y"
  "dp_backoff (snd (endpointBulkhead ep y)) = dp_backoff y"
  "dp_maxRetries (snd (endpointBulkhead ep y)) = dp_maxRetries y"
  "dp_backoff (snd (endpointCircuitBreaker ep y)) = dp_backoff y"
  "dp_maxRetries (snd (endpointCircuitBreaker ep y)) = dp_maxRetries y"
  by (simp_all add: put_bulkhead_def put_breaker_def endpointBulkhead_def endpointCircuitBreaker_def Let_def
      split: option.splits)

lemma Deliver_run:
  assumes "Deliver env d dlv w = (r, d', w', l)" "0 \<le> dp_maxRetries d"
  shows "(l = [] \<and> w' = w \<and> (r = Blocked \<or> (\<exists>e. r = Failed e))) \<or>
    (\<exists>body b b'. e_marshal env (d_Event dlv) = Some body \<and>
       ValidateEndpoint (e_getenv env) (e_parse env) (d_Endpoint dlv) (Some (e_lookup env w)) = None \<and>
       fst (Allow (e_now env w) (fst (endpointCircuitBreaker (d_Endpoint dlv) d))) \<and>
       deliver_run env (dp_backoff d) (dp_maxRetries d) dlv body 0 b w r b' w' l)"
proof -
  let ?ep = "d_Endpoint dlv"
  obtain br d1 where ec: "endpointCircuitBreaker ?ep d = (br, d1)" by fastforce
  obtain ok br' where al: "Allow (e_now env w) br = (ok, br')" by fastforce
  obtain bh d2 where eb: "endpointBulkhead ?ep (put_breaker ?ep br' d1) = (bh, d2)" by fastforce
  have keep: "dp_backoff d2 = dp_backoff d \<and> dp_maxRetries d2 = dp_maxRetries d"
    using dispatcher_fields ec eb by (metis snd_conv)
  show ?thesis
  proof (cases "ValidateEndpoint (e_getenv env) (e_parse env) ?ep (Some (e_lookup env w)) = None \<and> ok")
    case False
    then show ?thesis using assms(1) ec al by (auto simp: Deliver_def Let_def split: option.splits)
  next
    case True
    note pre = assms(1) [unfolded Deliver_def Let_def ec al eb prod.case]
    show ?thesis
    proof (cases "\<exists>taken body. Acquire (fst (e_context env w)) (snd (e_context env w)) bh = Some (None, taken) \<and>
        e_marshal env (d_Event dlv) = Some body")
      case False
      then show ?thesis using pre True eb by (auto split: option.splits prod.splits)
    next
      case acq: True
      then obtain taken body where acq: "Acquire (fst (e_context env w)) (snd (e_context env w)) bh = Some (None, taken)"
          "e_marshal env (d_Event dlv) = Some body" by blast
      obtain r1 b1 w1 l1 where loop: "deliver_loop env (dp_backoff d) (dp_maxRetries d) dlv body 0 br' w = (r1, b1, w1, l1)"
        by (metis prod_cases4)
      have "r = r1 \<and> w' = w1 \<and> l = l1"
        using pre True eb acq loop keep dispatcher_fields(1,2) [of ?ep taken d2] by simp
      with deliver_loop_run [OF loop assms(2)] True acq(2) ec al show ?thesis by auto
    qed
  qed
qed

section \<open>A probe that is never reported\<close>

definition stuck :: "bytes \<Rightarrow> dispatcher \<Rightarrow> bool" where
  "stuck ep d \<longleftrightarrow> (\<exists>b. map_of (dp_breakers d) ep = Some b \<and> cb_state b = HalfOpen \<and> cb_probeInFlight b)"

fun deliver_calls ::
  "'w deliver_env \<Rightarrow> dispatcher \<Rightarrow> (delivery \<times> 'w) list \<Rightarrow> (deliver_result \<times> deliver_event list) list" where
  "deliver_calls env d [] = []"
| "deliver_calls env d ((dlv, w) # cs) =
     (case Deliver env d dlv w of (r, d', w', l) \<Rightarrow> (r, l) # deliver_calls env d' cs)"

lemma stuck_refuses:
  assumes "stuck (d_Endpoint dlv) d"
  shows "\<exists>e d'. Deliver env d dlv w = (Failed e, d', w, []) \<and> stuck (d_Endpoint dlv) d'"
  using assms
  by (cases "ValidateEndpoint (e_getenv env) (e_parse env) (d_Endpoint dlv) (Some (e_lookup env w))")
    (auto simp: stuck_def Deliver_def endpointCircuitBreaker_def Allow_def put_breaker_def map_of_update Let_def)

lemma stuck_for_ever:
  assumes "stuck ep d" "\<forall>(dlv, w) \<in> set cs. d_Endpoint dlv = ep" "(r, l) \<in> set (deliver_calls env d cs)"
  shows "l = [] \<and> (\<exists>e. r = Failed e)"
  using assms
proof (induction cs arbitrary: d)
  case Nil
  then show ?case by simp
next
  case (Cons c cs)
  obtain dlv w where c: "c = (dlv, w)" by (cases c)
  with Cons.prems have ep: "d_Endpoint dlv = ep" by simp
  obtain e d' where *: "Deliver env d dlv w = (Failed e, d', w, [])" "stuck ep d'"
    using stuck_refuses [of dlv d env w] Cons.prems(1) ep by auto
  show ?case using Cons.IH [OF *(2)] Cons.prems(2,3) by (auto simp: c *)
qed

lemma breakers_keep:
  "dp_breakers (release_slot ep d) = dp_breakers d" "dp_breakers (put_bulkhead ep x d) = dp_breakers d"
  "dp_breakers (snd (endpointBulkhead ep d)) = dp_breakers d"
  by (simp_all add: release_slot_def put_bulkhead_def endpointBulkhead_def Let_def split: option.splits)

lemma unreported_probe_sticks:
  assumes b: "map_of (dp_breakers d) (d_Endpoint dlv) = Some b" "cb_state b \<noteq> Closed" "fst (Allow (e_now env w) b)"
    and v: "ValidateEndpoint (e_getenv env) (e_parse env) (d_Endpoint dlv) (Some (e_lookup env w)) = None"
    and early: "e_marshal env (d_Event dlv) = None \<or> e_context env w = (True, False)"
  shows "stuck (d_Endpoint dlv) (fst (snd (Deliver env d dlv w)))"
proof -
  let ?ep = "d_Endpoint dlv"
  obtain b' where al: "Allow (e_now env w) b = (True, b')" using b(3) by (cases "Allow (e_now env w) b") auto
  have st: "cb_state b' = HalfOpen \<and> cb_probeInFlight b'" using Allow_probe [OF al b(2)] .
  obtain bh d2 where eb: "endpointBulkhead ?ep (put_breaker ?ep b' d) = (bh, d2)" by fastforce
  have d2: "map_of (dp_breakers d2) ?ep = Some b'"
    using breakers_keep(3) [of ?ep "put_breaker ?ep b' d"] eb by (simp add: put_breaker_def map_of_update)
  have "dp_breakers (fst (snd (Deliver env d dlv w))) = dp_breakers d2"
    using b(1) v early al eb
    by (auto simp: Deliver_def Let_def endpointCircuitBreaker_def Acquire_def breakers_keep split: option.splits)
  with d2 st show ?thesis by (simp add: stuck_def)
qed

section \<open>Concurrent deliveries at a bulkhead\<close>

text \<open>
  Many deliveries to one endpoint, each identified by a number: before \<open>Acquire\<close>, in it,
  or holding a slot until the deferred \<open>Release\<close>.
\<close>

datatype slot_pc = Outside | Waiting | Holding

inductive slot_step :: "bulkhead \<times> (nat \<Rightarrow> slot_pc) \<Rightarrow> bulkhead \<times> (nat \<Rightarrow> slot_pc) \<Rightarrow> bool" where
  arrive: "pc t = Outside \<Longrightarrow> slot_step (b, pc) (b, pc(t := Waiting))"
| acquire: "pc t = Waiting \<Longrightarrow> Acquire finished pick b = Some (None, b') \<Longrightarrow> slot_step (b, pc) (b', pc(t := Holding))"
| give_up: "pc t = Waiting \<Longrightarrow> Acquire finished pick b = Some (Some e, b') \<Longrightarrow> slot_step (b, pc) (b', pc(t := Outside))"
| release: "pc t = Holding \<Longrightarrow> bulkhead_Release b = Some b' \<Longrightarrow> slot_step (b, pc) (b', pc(t := Outside))"

inductive slot_reach :: "int \<Rightarrow> bulkhead \<times> (nat \<Rightarrow> slot_pc) \<Rightarrow> bool" for limit where
  start: "slot_reach limit (NewBulkhead limit, \<lambda>_. Outside)"
| step: "slot_reach limit s \<Longrightarrow> slot_step s s' \<Longrightarrow> slot_reach limit s'"

definition slots_ok :: "int \<Rightarrow> bulkhead \<times> (nat \<Rightarrow> slot_pc) \<Rightarrow> bool" where
  "slots_ok limit s \<longleftrightarrow> finite {t. snd s t = Holding} \<and> int (card {t. snd s t = Holding}) = bh_used (fst s) \<and>
     bh_used (fst s) \<le> bh_limit (fst s) \<and> bh_limit (fst s) = (if limit < 1 then 1 else limit)"

lemma holders_upd:
  "{u. (pc(t := x)) u = Holding} = (if x = Holding then insert t {u. pc u = Holding} else {u. pc u = Holding} - {t})"
  by auto

lemma slot_step_ok: "slot_step s s' \<Longrightarrow> slots_ok limit s \<Longrightarrow> slots_ok limit s'"
proof (induction rule: slot_step.induct)
  case (arrive pc t b)
  then have "{u. (pc(t := Waiting)) u = Holding} = {u. pc u = Holding}" unfolding holders_upd by auto
  with arrive show ?case by (simp add: slots_ok_def)
next
  case (acquire pc t finished pick b b')
  then have "card (insert t {u. pc u = Holding}) = Suc (card {u. pc u = Holding})"
    by (intro card_insert_disjoint) (auto simp: slots_ok_def)
  with acquire show ?case
    unfolding slots_ok_def by (simp only: fst_conv snd_conv holders_upd) (auto simp: Acquire_def split: if_splits)
next
  case (give_up pc t finished pick b e b')
  then have "{u. (pc(t := Outside)) u = Holding} = {u. pc u = Holding}" unfolding holders_upd by auto
  with give_up show ?case by (auto simp: slots_ok_def Acquire_def split: if_splits)
next
  case (release pc t b b')
  then have fin: "finite {u. pc u = Holding}" and used: "int (card {u. pc u = Holding}) = bh_used b"
    and t: "t \<in> {u. pc u = Holding}"
    by (auto simp: slots_ok_def)
  have "int (card ({u. pc u = Holding} - {t})) = bh_used b - 1"
    using card.remove [OF fin t] used by linarith
  with release fin show ?case
    unfolding slots_ok_def
    by (simp only: fst_conv snd_conv holders_upd) (auto simp: bulkhead_Release_def split: if_splits)
qed

lemma slot_reach_ok: "slot_reach limit s \<Longrightarrow> slots_ok limit s"
proof (induction rule: slot_reach.induct)
  case start
  then show ?case by (simp add: slots_ok_def NewBulkhead_def)
next
  case (step s s')
  then show ?case using slot_step_ok by blast
qed

section \<open>A sample environment\<close>

text \<open>The world is the time; every request takes a nanosecond and is answered with \<open>status\<close>.\<close>

definition sample_env :: "int \<Rightarrow> bool \<Rightarrow> int deliver_env" where
  "sample_env status marshals =
     \<lparr>e_getenv = \<lambda>_. [], e_parse = \<lambda>_. Some \<lparr>u_Scheme = ''https'', u_Hostname = ''x'', u_User = None\<rparr>,
      e_hmac = \<lambda>k m. k @ m, e_marshal = \<lambda>_. if marshals then Some ''{}'' else None,
      e_request_ok = \<lambda>_. True, e_now = \<lambda>w. w, e_lookup = \<lambda>_ _. Some [Some [93, 184, 216, 34]],
      e_context = \<lambda>_. (False, True), e_exchange = \<lambda>_ w. (Some status, w + 1),
      e_rand = \<lambda>n w. (0, w), e_pause = \<lambda>d w. (True, w + d)\<rparr>"

definition sample_delivery :: delivery where
  "sample_delivery = \<lparr>d_Endpoint = ''https://x'', d_Secret = ''k'', d_Event = zero_event\<rparr>"

lemma sample_timely: "timely 1 (sample_env st m)" "jitter_ok (sample_env st m)"
  by (simp_all add: timely_def jitter_ok_def sample_env_def)

lemma sample_valid:
  "ValidateEndpoint (\<lambda>_. []) (\<lambda>_. Some \<lparr>u_Scheme = ''https'', u_Hostname = ''x'', u_User = None\<rparr>) raw
     (Some (\<lambda>_. Some [Some [93, 184, 216, 34]])) = None"
proof -
  have "ToLower ''x'' = ''x''" "\<not> isPrivateIP (Some [93, 184, 216, 34])" by code_simp+
  then show ?thesis by (simp add: ValidateEndpoint_def)
qed

lemma sample_validates:
  "ValidateEndpoint (e_getenv (sample_env st m)) (e_parse (sample_env st m)) raw (Some (e_lookup (sample_env st m) w)) = None"
  by (simp add: sample_env_def sample_valid)

lemma sample_env_fields:
  "e_now (sample_env st m) w = w" "e_context (sample_env st m) w = (False, True)"
  "e_marshal (sample_env st m) ev = (if m then Some ''{}'' else None)"
  "e_request_ok (sample_env st m) u" "e_exchange (sample_env st m) req w = (Some st, w + 1)"
  by (simp_all add: sample_env_def)

section \<open>Properties\<close>

text \<open>
  The breaker's states. In every reachable state it is closed exactly while it has
  counted fewer failures than the threshold since the last success; and once it is not
  closed, letting a probe through refuses every other request, at any time, until the
  outcome of the probe is reported.
\<close>

theorem breaker_one_probe:
  assumes "breaker_reach threshold cooldown b"
  shows "(cb_state b = Closed \<longleftrightarrow> cb_failures b < cb_threshold b) \<and>
    (\<forall>t b'. cb_state b \<noteq> Closed \<longrightarrow> Allow t b = (True, b') \<longrightarrow> allow_all ts b' = replicate (length ts) False)"
  using breaker_reach_ok [OF assms] Allow_probe allow_all_probing by (auto simp: breaker_ok_def)

theorem breaker_one_probe_witness:
  "cb_state (Failure 7 (NewCircuitBreaker 1 5)) = Open \<and>
   allow_all [12, 100] (snd (Allow 12 (Failure 7 (NewCircuitBreaker 1 5)))) = [False, False]"
proof -
  have r: "breaker_reach 1 5 (Failure 7 (NewCircuitBreaker 1 5))" by (intro breaker_reach.intros)
  have s: "cb_state (Failure 7 (NewCircuitBreaker 1 5)) = Open"
    and a: "Allow 12 (Failure 7 (NewCircuitBreaker 1 5)) =
      (True, (Failure 7 (NewCircuitBreaker 1 5))\<lparr>cb_state := HalfOpen, cb_probeInFlight := True\<rparr>)"
    by (simp_all add: resilience_defs time_Sub_def minDuration_def maxDuration_def Let_def)
  show ?thesis using breaker_one_probe [OF r, of "[12, 100]"] s a by (simp add: numeral_2_eq_2)
qed

text \<open>
  After as many failures in a row as the threshold, the breaker is open: requests are
  refused until the cooldown since the last failure has passed, and then let through.
\<close>

theorem breaker_trips:
  assumes "breaker_reach threshold cooldown b" "length ts = nat (cb_threshold b)"
    and "minDuration < cooldown" "cooldown \<le> maxDuration"
  shows "cb_state (fold Failure ts b) = Open \<and> (fst (Allow now (fold Failure ts b)) \<longleftrightarrow> cooldown \<le> now - last ts)"
proof -
  have ok: "breaker_ok cooldown b" using breaker_reach_ok [OF assms(1)] .
  then have "ts \<noteq> []" "cb_threshold b \<le> cb_failures b + int (length ts)"
    using assms(2) by (auto simp: breaker_ok_def)
  from Failure_fold [OF this(2,1)] ok show ?thesis
    by (auto simp: Allow_def Let_def breaker_ok_def time_Sub_ge_iff [OF assms(3,4)])
qed

theorem breaker_trips_witness:
  "cb_state (fold Failure [1, 2, 3] (NewCircuitBreaker 3 Minute)) = Open \<and>
   (fst (Allow 100 (fold Failure [1, 2, 3] (NewCircuitBreaker 3 Minute))) \<longleftrightarrow> Minute \<le> 100 - last [1, 2, 3 :: int])"
  by (rule breaker_trips [OF breaker_reach.new]) (simp_all add: NewCircuitBreaker_def time_defs)




lemma sample_deliver_ok:
  "\<exists>d' req. Deliver (sample_env 204 True) (NewDispatcher 20 0 Second) sample_delivery 0 =
     (Delivered, d', 1, [Sent req (Some 204)])"
proof -
  have "deliver_loop (sample_env 204 True) bo 0 sample_delivery body 0 b 0 =
      (Delivered, Success b, 1,
       [Sent (webhook_request (e_hmac (sample_env 204 True)) 0 sample_delivery body) (Some 204)])" for bo body b
    by (subst deliver_loop.simps) (simp add: send_def sample_env_fields Let_def)
  then show ?thesis
    by (simp add: Deliver_def sample_validates sample_env_fields NewDispatcher_def endpointCircuitBreaker_def
        endpointBulkhead_def NewCircuitBreaker_def NewBulkhead_def Allow_def Acquire_def put_breaker_def
        put_bulkhead_def Let_def)
qed


text \<open>
  C28: success means delivered. \<open>Deliver\<close> returns nil exactly when its last request was
  answered with a 2xx status, and it reports an error only if none of its requests was, so
  a delivery reported as failed can be released and tried again without having been taken.
\<close>

theorem deliver_outcome:
  assumes "Deliver env d dlv w = (r, d', w', l)" "0 \<le> dp_maxRetries d"
  shows "(r = Delivered \<longleftrightarrow> (\<exists>req s. Sent req (Some s) \<in> set l \<and> 200 \<le> s \<and> s < 300)) \<and>
    (r = Delivered \<longrightarrow> (\<exists>l0 req s. l = l0 @ [Sent req (Some s)] \<and> 200 \<le> s \<and> s < 300))"
  using Deliver_run [OF assms]
proof
  assume "l = [] \<and> w' = w \<and> (r = Blocked \<or> (\<exists>e. r = Failed e))"
  then show ?thesis by auto
next
  assume "\<exists>body b b'. e_marshal env (d_Event dlv) = Some body \<and>
       ValidateEndpoint (e_getenv env) (e_parse env) (d_Endpoint dlv) (Some (e_lookup env w)) = None \<and>
       fst (Allow (e_now env w) (fst (endpointCircuitBreaker (d_Endpoint dlv) d))) \<and>
       deliver_run env (dp_backoff d) (dp_maxRetries d) dlv body 0 b w r b' w' l"
  then obtain body b b' where "deliver_run env (dp_backoff d) (dp_maxRetries d) dlv body 0 b w r b' w' l" by blast
  from deliver_run_result [OF this] show ?thesis by (cases "r = Delivered") (force, auto)
qed

theorem deliver_outcome_witness:
  "\<exists>d' req. Deliver (sample_env 204 True) (NewDispatcher 20 0 Second) sample_delivery 0 =
     (Delivered, d', 1, [Sent req (Some 204)]) \<and> (\<exists>req' s. Sent req' (Some s) \<in> {Sent req (Some 204)} \<and> 200 \<le> s \<and> s < 300)"
proof -
  obtain d' req where *: "Deliver (sample_env 204 True) (NewDispatcher 20 0 Second) sample_delivery 0 =
      (Delivered, d', 1, [Sent req (Some 204)])"
    using sample_deliver_ok by blast
  from deliver_outcome [OF *] * show ?thesis by (simp add: NewDispatcher_def)
qed

text \<open>
  C38: a probe that is not reported blocks its endpoint for ever. If the breaker of an
  endpoint is not closed and lets a delivery through, and that delivery ends before its
  first request (the context is done at the bulkhead, or the event cannot be serialised),
  then every later delivery to the endpoint, at any time, fails without sending anything.
\<close>

theorem unreported_probe_blocks_endpoint:
  assumes "map_of (dp_breakers d) (d_Endpoint dlv) = Some b" "cb_state b \<noteq> Closed" "fst (Allow (e_now env w) b)"
    and "ValidateEndpoint (e_getenv env) (e_parse env) (d_Endpoint dlv) (Some (e_lookup env w)) = None"
    and "e_marshal env (d_Event dlv) = None \<or> e_context env w = (True, False)"
    and "\<forall>(dlv', w') \<in> set calls. d_Endpoint dlv' = d_Endpoint dlv"
    and "(r, l) \<in> set (deliver_calls env' (fst (snd (Deliver env d dlv w))) calls)"
  shows "l = [] \<and> (\<exists>e. r = Failed e)"
  by (rule stuck_for_ever [OF unreported_probe_sticks [OF assms(1-5)] assms(6,7)])

theorem unreported_probe_blocks_endpoint_witness:
  "let b = Failure 0 (Failure 0 (Failure 0 (NewCircuitBreaker 3 Minute)));
       d = put_breaker ''https://x'' b (NewDispatcher 20 5 Second)
   in fst (deliver_calls (sample_env 204 True) (fst (snd (Deliver (sample_env 204 False) d sample_delivery Minute)))
        [(sample_delivery, 1000 * Hour)] ! 0) \<noteq> Delivered"
proof -
  define b where "b = Failure 0 (Failure 0 (Failure 0 (NewCircuitBreaker 3 Minute)))"
  define d where "d = put_breaker ''https://x'' b (NewDispatcher 20 5 Second)"
  let ?calls = "deliver_calls (sample_env 204 True) (fst (snd (Deliver (sample_env 204 False) d sample_delivery Minute)))
      [(sample_delivery, 1000 * Hour)]"
  have "map_of (dp_breakers d) (d_Endpoint sample_delivery) = Some b"
    by (simp add: d_def put_breaker_def map_of_update sample_delivery_def)
  moreover have "cb_state b \<noteq> Closed" "fst (Allow (e_now (sample_env 204 False) Minute) b)"
    by (simp_all add: b_def resilience_defs time_defs sample_env_def Let_def)
  moreover have "ValidateEndpoint (e_getenv (sample_env 204 False)) (e_parse (sample_env 204 False))
      (d_Endpoint sample_delivery) (Some (e_lookup (sample_env 204 False) Minute)) = None"
    by (simp add: sample_env_def sample_valid)
  moreover have "e_marshal (sample_env 204 False) (d_Event sample_delivery) = None \<or>
      e_context (sample_env 204 False) Minute = (True, False)"
    by (simp add: sample_env_def)
  moreover have "(fst (?calls ! 0), snd (?calls ! 0)) \<in> set ?calls"
    by (simp split: prod.splits)
  ultimately show ?thesis
    using unreported_probe_blocks_endpoint [of d sample_delivery b "sample_env 204 False" Minute
        "[(sample_delivery, 1000 * Hour)]" "fst (?calls ! 0)" "snd (?calls ! 0)" "sample_env 204 True"]
    unfolding d_def [symmetric] b_def [symmetric] Let_def by auto
qed



end
