(* ===== verification/Worker_Handlers.thy ===== *)
theory Worker_Handlers
  imports Kafka_Consumer Webhook_Resilience
begin

text \<open>
  \<open>internal/worker/handlers.go\<close>: what the three workers do with an event or a batch.

  The stores and the dispatcher are interfaces of the code (\<open>persistence.EventStore\<close>,
  \<open>analytics.Store\<close>, \<open>webhook.Store\<close>, \<open>Deliver\<close>): each is a function of a world \<open>'w\<close> that
  returns its result and the new world. The type assertions of \<open>HandleBatch\<close> are an
  optional batch operation. The webhook handler also returns the list of its calls of the
  store and the dispatcher, with their results. Tracing spans are left out; a handler's
  metrics are counters, updated only when the handler has them.
\<close>

named_theorems worker_defs "definitions of the worker handlers"

section \<open>Metrics\<close>

record worker_metrics =
  wm_EventsDuplicate :: int
  wm_WebhookSuccess :: int
  wm_WebhookFailure :: int
  wm_WebhookRetry :: int
  wm_WebhookDLQ :: int

section \<open>Persistence\<close>

record 'w event_store =
  es_SaveEvent :: "event \<Rightarrow> 'w \<Rightarrow> (bool \<times> go_error option) \<times> 'w"
  es_SaveEvents :: "(event list \<Rightarrow> 'w \<Rightarrow> go_error option \<times> 'w) option"

definition persistence_Handle ::
  "'w event_store \<Rightarrow> event \<Rightarrow> worker_metrics option \<Rightarrow> 'w \<Rightarrow> go_error option \<times> worker_metrics option \<times> 'w" where
  "persistence_Handle st event metrics w =
     (case es_SaveEvent st event w of
        ((inserted, err), w') \<Rightarrow>
          (err,
           (case metrics of
              Some m \<Rightarrow>
                if err = None \<and> \<not> inserted
                then Some (m\<lparr>wm_EventsDuplicate := wm_EventsDuplicate m + 1\<rparr>) else Some m
            | None \<Rightarrow> None),
           w'))"

fun persistence_each ::
  "'w event_store \<Rightarrow> event list \<Rightarrow> worker_metrics option \<Rightarrow> 'w \<Rightarrow> go_error option \<times> worker_metrics option \<times> 'w" where
  "persistence_each st [] metrics w = (None, metrics, w)"
| "persistence_each st (e # es) metrics w =
     (case persistence_Handle st e metrics w of
        (Some err, m, w') \<Rightarrow> (Some err, m, w')
      | (None, m, w') \<Rightarrow> persistence_each st es m w')"

definition persistence_HandleBatch ::
  "'w event_store \<Rightarrow> event list \<Rightarrow> worker_metrics option \<Rightarrow> 'w \<Rightarrow> go_error option \<times> worker_metrics option \<times> 'w" where
  "persistence_HandleBatch st batch metrics w =
     (case es_SaveEvents st of
        None \<Rightarrow> persistence_each st batch metrics w
      | Some saveEvents \<Rightarrow> (case saveEvents batch w of (err, w') \<Rightarrow> (err, metrics, w')))"

section \<open>Analytics\<close>

record 'w analytics_store =
  as_Record :: "event \<Rightarrow> 'w \<Rightarrow> go_error option \<times> 'w"
  as_RecordBatch :: "(event list \<Rightarrow> 'w \<Rightarrow> go_error option \<times> 'w) option"

definition analytics_Handle :: "'w analytics_store \<Rightarrow> event \<Rightarrow> 'w \<Rightarrow> go_error option \<times> 'w" where
  "analytics_Handle st event w = as_Record st event w"

fun analytics_each :: "'w analytics_store \<Rightarrow> event list \<Rightarrow> 'w \<Rightarrow> go_error option \<times> 'w" where
  "analytics_each st [] w = (None, w)"
| "analytics_each st (e # es) w =
     (case analytics_Handle st e w of (Some err, w') \<Rightarrow> (Some err, w') | (None, w') \<Rightarrow> analytics_each st es w')"

definition analytics_HandleBatch :: "'w analytics_store \<Rightarrow> event list \<Rightarrow> 'w \<Rightarrow> go_error option \<times> 'w" where
  "analytics_HandleBatch st batch w =
     (case as_RecordBatch st of
        None \<Rightarrow> analytics_each st batch w
      | Some recordBatch \<Rightarrow> recordBatch batch w)"

section \<open>Webhooks\<close>

record 'w webhook_env =
  we_list :: "bytes \<Rightarrow> bytes \<Rightarrow> 'w \<Rightarrow> (go_error + subscription list) \<times> 'w"
  we_claim :: "delivery_claim \<Rightarrow> 'w \<Rightarrow> (go_error + bool) \<times> 'w"
  we_complete :: "delivery_claim \<Rightarrow> 'w \<Rightarrow> go_error option \<times> 'w"
  we_release :: "delivery_claim \<Rightarrow> 'w \<Rightarrow> go_error option \<times> 'w"
  we_deliver :: "delivery \<Rightarrow> 'w \<Rightarrow> go_error option \<times> 'w"

datatype webhook_call =
    CallClaim delivery_claim "go_error + bool"
  | CallDeliver delivery_claim delivery "go_error option"
  | CallRelease delivery_claim "go_error option"
  | CallComplete delivery_claim "go_error option"

definition claim_key :: "event \<Rightarrow> subscription \<Rightarrow> delivery_claim" where
  "claim_key e sub = \<lparr>dc_tenantID = TenantID e, dc_eventID = EventID e, dc_subscriptionID = sub_ID sub\<rparr>"

definition sub_delivery :: "event \<Rightarrow> subscription \<Rightarrow> delivery" where
  "sub_delivery e sub = \<lparr>d_Endpoint = sub_Endpoint sub, d_Secret = sub_Secret sub, d_Event = e\<rparr>"

definition count_delivery :: "go_error option \<Rightarrow> worker_metrics option \<Rightarrow> worker_metrics option" where
  "count_delivery err =
     map_option (\<lambda>m. if err = None then m\<lparr>wm_WebhookSuccess := wm_WebhookSuccess m + 1\<rparr>
        else m\<lparr>wm_WebhookFailure := wm_WebhookFailure m + 1, wm_WebhookRetry := wm_WebhookRetry m + 1,
               wm_WebhookDLQ := wm_WebhookDLQ m + 1\<rparr>)"

text \<open>
  The loop of \<open>deliver\<close>: \<open>Inl\<close> when a claim fails and the loop returns at once, \<open>Inr\<close> with
  the failures otherwise.
\<close>

fun deliver_subs ::
  "'w webhook_env \<Rightarrow> event \<Rightarrow> subscription list \<Rightarrow> worker_metrics option \<Rightarrow> 'w
     \<Rightarrow> (go_error + go_error list) \<times> worker_metrics option \<times> 'w \<times> webhook_call list" where
  "deliver_subs env event [] metrics w = (Inr [], metrics, w, [])"
| "deliver_subs env event (sub # subs) metrics w =
     (let key = claim_key event sub in
      case we_claim env key w of
        (Inl err, w1) \<Rightarrow> (Inl err, metrics, w1, [CallClaim key (Inl err)])
      | (Inr False, w1) \<Rightarrow>
          (case deliver_subs env event subs metrics w1 of
             (r, m, w2, l) \<Rightarrow> (r, m, w2, CallClaim key (Inr False) # l))
      | (Inr True, w1) \<Rightarrow>
          (case we_deliver env (sub_delivery event sub) w1 of
             (err, w2) \<Rightarrow>
               let metrics1 = count_delivery err metrics;
                   calls = [CallClaim key (Inr True), CallDeliver key (sub_delivery event sub) err] in
               case err of
                 Some e \<Rightarrow>
                   (case we_release env key w2 of
                      (releaseErr, w3) \<Rightarrow>
                        let failure = (case releaseErr of
                                         Some re \<Rightarrow> Wrap (''release delivery claim for subscription '' @ sub_ID sub) re
                                       | None \<Rightarrow> Wrap (''subscription '' @ sub_ID sub) e) in
                        (case deliver_subs env event subs metrics1 w3 of
                           (r, m, w4, l) \<Rightarrow>
                             (map_sum id (Cons failure) r, m, w4, calls @ CallRelease key releaseErr # l)))
               | None \<Rightarrow>
                   (case we_complete env key w2 of
                      (completeErr, w3) \<Rightarrow>
                        let failures = (case completeErr of
                                          Some ce \<Rightarrow> [Wrap (''complete delivery for subscription '' @ sub_ID sub) ce]
                                        | None \<Rightarrow> []) in
                        (case deliver_subs env event subs metrics1 w3 of
                           (r, m, w4, l) \<Rightarrow>
                             (map_sum id (\<lambda>fs. failures @ fs) r, m, w4, calls @ CallComplete key completeErr # l)))))"

definition deliver ::
  "'w webhook_env \<Rightarrow> event \<Rightarrow> subscription list \<Rightarrow> worker_metrics option \<Rightarrow> 'w
     \<Rightarrow> go_error option \<times> worker_metrics option \<times> 'w \<times> webhook_call list" where
  "deliver env event subs metrics w =
     (case deliver_subs env event subs metrics w of
        (Inl err, m, w', l) \<Rightarrow> (Some err, m, w', l)
      | (Inr failures, m, w', l) \<Rightarrow>
          if length failures > 0 then (Some (DeadLetterError (Joined failures)), m, w', l)
          else (None, m, w', l))"

definition webhook_Handle ::
  "'w webhook_env \<Rightarrow> event \<Rightarrow> worker_metrics option \<Rightarrow> 'w
     \<Rightarrow> go_error option \<times> worker_metrics option \<times> 'w \<times> webhook_call list" where
  "webhook_Handle env event metrics w =
     (case we_list env (TenantID event) (Type event) w of
        (Inl err, w1) \<Rightarrow> (Some err, metrics, w1, [])
      | (Inr subs, w1) \<Rightarrow> deliver env event subs metrics w1)"

text \<open>
  The loop of \<open>HandleBatch\<close>: \<open>cache\<close> is the map of listed subscriptions, and the failed
  events are collected with their errors.
\<close>

definition cache_key :: "event \<Rightarrow> bytes" where
  "cache_key e = TenantID e @ CHR 0x00 # Type e"

fun webhook_batch ::
  "'w webhook_env \<Rightarrow> subscription list gomap \<Rightarrow> event list \<Rightarrow> worker_metrics option \<Rightarrow> 'w
     \<Rightarrow> (go_error + (event \<times> go_error) list) \<times> worker_metrics option \<times> 'w \<times> webhook_call list" where
  "webhook_batch env cache [] metrics w = (Inr [], metrics, w, [])"
| "webhook_batch env cache (event # events) metrics w =
     (case (case map_of cache (cache_key event) of
              Some subs \<Rightarrow> (Inr subs, w)
            | None \<Rightarrow> we_list env (TenantID event) (Type event) w) of
        (Inl err, w1) \<Rightarrow> (Inl err, metrics, w1, [])
      | (Inr subs, w1) \<Rightarrow>
          let cache1 = AList.update (cache_key event) subs cache in
          (case deliver env event subs metrics w1 of
             (None, m, w2, l) \<Rightarrow>
               (case webhook_batch env cache1 events m w2 of (r, m', w3, l') \<Rightarrow> (r, m', w3, l @ l'))
           | (Some err, m, w2, l) \<Rightarrow>
               if as_dead_letter err
               then (case webhook_batch env cache1 events m w2 of
                       (r, m', w3, l') \<Rightarrow> (map_sum id (Cons (event, err)) r, m', w3, l @ l'))
               else (Inl err, m, w2, l)))"

definition webhook_HandleBatch ::
  "'w webhook_env \<Rightarrow> event list \<Rightarrow> worker_metrics option \<Rightarrow> 'w
     \<Rightarrow> go_error option \<times> worker_metrics option \<times> 'w \<times> webhook_call list" where
  "webhook_HandleBatch env batch metrics w =
     (case webhook_batch env [] batch metrics w of
        (Inl err, m, w', l) \<Rightarrow> (Some err, m, w', l)
      | (Inr failed, m, w', l) \<Rightarrow>
          if length failed > 0
          then (Some (BatchDeadLetterError (map fst failed) (Joined (map snd failed))), m, w', l)
          else (None, m, w', l))"

lemmas [worker_defs] = persistence_Handle_def persistence_HandleBatch_def analytics_Handle_def
  analytics_HandleBatch_def deliver_def webhook_Handle_def webhook_HandleBatch_def

section \<open>The protocol of a delivery\<close>

text \<open>The calls for one subscription: not claimed, or claimed, delivered and settled.\<close>

definition seg_ok :: "event \<Rightarrow> subscription \<Rightarrow> webhook_call list \<Rightarrow> bool" where
  "seg_ok e sub l \<longleftrightarrow>
     (let k = claim_key e sub; d = sub_delivery e sub in
      l = [CallClaim k (Inr False)] \<or>
      (\<exists>err r. l = [CallClaim k (Inr True), CallDeliver k d (Some err), CallRelease k r]) \<or>
      (\<exists>r. l = [CallClaim k (Inr True), CallDeliver k d None, CallComplete k r]))"

text \<open>The calls that leave nothing to report.\<close>

definition seg_clean :: "webhook_call list \<Rightarrow> bool" where
  "seg_clean l \<longleftrightarrow> (\<exists>k. l = [CallClaim k (Inr False)]) \<or>
     (\<exists>k d. l = [CallClaim k (Inr True), CallDeliver k d None, CallComplete k None])"

lemma seg_ok_clean_simps:
  "seg_ok e sub [CallClaim (claim_key e sub) (Inr False)]"
  "seg_ok e sub [CallClaim (claim_key e sub) (Inr True), CallDeliver (claim_key e sub) (sub_delivery e sub) (Some err),
     CallRelease (claim_key e sub) r]"
  "seg_ok e sub [CallClaim (claim_key e sub) (Inr True), CallDeliver (claim_key e sub) (sub_delivery e sub) None,
     CallComplete (claim_key e sub) r]"
  "seg_clean [CallClaim k (Inr False)]"
  "\<not> seg_clean [CallClaim k (Inr True), CallDeliver k d (Some err), CallRelease k r]"
  "seg_clean [CallClaim k (Inr True), CallDeliver k d None, CallComplete k r] \<longleftrightarrow> r = None"
  by (simp_all add: seg_ok_def seg_clean_def Let_def)

lemma deliver_subs_Inr:
  assumes "deliver_subs env e subs m w = (Inr fs, m', w', l)"
  shows "\<exists>segs. list_all2 (seg_ok e) subs segs \<and> l = concat segs \<and> (fs = [] \<longleftrightarrow> list_all seg_clean segs)"
  using assms
proof (induction subs arbitrary: m w fs l)
  case Nil
  then show ?case by simp
next
  case (Cons sub subs)
  have step: ?case if seg: "seg_ok e sub seg" and rest: "deliver_subs env e subs m1 w1 = (Inr fs1, m', w', l1)"
      and eq: "l = seg @ l1" "fs = [] \<longleftrightarrow> seg_clean seg \<and> fs1 = []" for seg m1 w1 fs1 l1
  proof -
    from Cons.IH [OF rest] obtain segs where
      "list_all2 (seg_ok e) subs segs" "l1 = concat segs" "fs1 = [] \<longleftrightarrow> list_all seg_clean segs" by blast
    then show ?thesis using seg eq by (intro exI [of _ "seg # segs"]) simp
  qed
  obtain r w1 where c: "we_claim env (claim_key e sub) w = (r, w1)" by fastforce
  consider (err) x where "r = Inl x" | (no) "r = Inr False" | (yes) "r = Inr True" by (cases r) auto
  then show ?case
  proof cases
    case err
    then show ?thesis using Cons.prems c by (simp add: Let_def)
  next
    case no
    obtain q m4 w4 l4 where rest: "deliver_subs env e subs m w1 = (q, m4, w4, l4)" by (metis prod_cases4)
    show ?thesis
      by (rule step [OF seg_ok_clean_simps(1) [of e sub], of m w1 fs l4])
        (use Cons.prems c no rest in \<open>auto simp: Let_def seg_ok_clean_simps\<close>)
  next
    case yes
    obtain de w2 where d: "we_deliver env (sub_delivery e sub) w1 = (de, w2)" by fastforce
    show ?thesis
    proof (cases de)
      case None
      obtain ce w3 where k: "we_complete env (claim_key e sub) w2 = (ce, w3)" by fastforce
      obtain q m4 w4 l4 where rest: "deliver_subs env e subs (count_delivery None m) w3 = (q, m4, w4, l4)"
        by (metis prod_cases4)
      then obtain fs1 where q: "q = Inr fs1" using Cons.prems c yes d None k by (cases q) (auto simp: Let_def)
      show ?thesis
        by (rule step [OF seg_ok_clean_simps(3) [of e sub ce], of "count_delivery None m" w3 fs1 l4])
          (use Cons.prems c yes d None k rest q in \<open>auto simp: Let_def seg_ok_clean_simps split: option.splits\<close>)
    next
      case (Some x)
      obtain re w3 where k: "we_release env (claim_key e sub) w2 = (re, w3)" by fastforce
      obtain q m4 w4 l4 where rest: "deliver_subs env e subs (count_delivery (Some x) m) w3 = (q, m4, w4, l4)"
        by (metis prod_cases4)
      then obtain fs1 where q: "q = Inr fs1" using Cons.prems c yes d Some k by (cases q) (auto simp: Let_def)
      show ?thesis
        by (rule step [OF seg_ok_clean_simps(2) [of e sub x re], of "count_delivery (Some x) m" w3 fs1 l4])
          (use Cons.prems c yes d Some k rest q in \<open>auto simp: Let_def seg_ok_clean_simps split: option.splits\<close>)
    qed
  qed
qed

lemma deliver_subs_Inl:
  assumes "deliver_subs env e subs m w = (Inl err, m', w', l)"
  shows "\<exists>l0 k. l = l0 @ [CallClaim k (Inl err)]"
  using assms
proof (induction subs arbitrary: m w l)
  case Nil
  then show ?case by simp
next
  case (Cons sub subs)
  have step: ?case if "deliver_subs env e subs m1 w1 = (Inl err, m', w', l1)" "l = seg @ l1" for m1 w1 l1 seg
    using Cons.IH [OF that(1)] that(2) by (metis append.assoc)
  obtain r w1 where c: "we_claim env (claim_key e sub) w = (r, w1)" by fastforce
  obtain de w2 where d: "we_deliver env (sub_delivery e sub) w1 = (de, w2)" by fastforce
  obtain ce w3 where k: "we_complete env (claim_key e sub) w2 = (ce, w3)" by fastforce
  obtain re w4 where rl: "we_release env (claim_key e sub) w2 = (re, w4)" by fastforce
  obtain q1 m1 v1 l1 where r1: "deliver_subs env e subs m w1 = (q1, m1, v1, l1)" by (metis prod_cases4)
  obtain q2 m2 v2 l2 where r2: "deliver_subs env e subs (count_delivery None m) w3 = (q2, m2, v2, l2)" by (metis prod_cases4)
  obtain q3 m3 v3 l3 where r3: "deliver_subs env e subs (count_delivery de m) w4 = (q3, m3, v3, l3)" by (metis prod_cases4)
  consider (err) x where "r = Inl x" | (no) "r = Inr False" | (sent) "r = Inr True" "de = None"
    | (fail) x where "r = Inr True" "de = Some x" by (cases r; cases de) auto
  then show ?case
  proof cases
    case err
    then show ?thesis using Cons.prems c by (auto simp: Let_def)
  next
    case no
    then show ?thesis
      using Cons.prems c r1 step [of m w1 l1 "[CallClaim (claim_key e sub) (Inr False)]"] by (simp add: Let_def)
  next
    case sent
    then have "q2 = Inl err" using Cons.prems c d k r2 by (cases q2) (auto simp: Let_def)
    then show ?thesis
      using Cons.prems c d k r2 sent step [of "count_delivery None m" w3 l2
          "[CallClaim (claim_key e sub) (Inr True), CallDeliver (claim_key e sub) (sub_delivery e sub) None,
            CallComplete (claim_key e sub) ce]"] by (simp add: Let_def)
  next
    case (fail x)
    then have "q3 = Inl err" using Cons.prems c d rl r3 by (cases q3) (auto simp: Let_def)
    then show ?thesis
      using Cons.prems c d rl r3 fail step [of "count_delivery de m" w4 l3
          "[CallClaim (claim_key e sub) (Inr True), CallDeliver (claim_key e sub) (sub_delivery e sub) (Some x),
            CallRelease (claim_key e sub) re]"] by (simp add: Let_def)
  qed
qed

section \<open>The handler on a store of claims\<close>

text \<open>
  The handler's environment made of the three claim operations of a store, a fixed list
  of subscriptions and a dispatcher; the world is the store and the time.
\<close>

definition claims_env ::
  "(delivery_claim \<Rightarrow> instant \<Rightarrow> 's \<Rightarrow> bool \<times> 's) \<Rightarrow> (delivery_claim \<Rightarrow> instant \<Rightarrow> 's \<Rightarrow> 's)
     \<Rightarrow> (delivery_claim \<Rightarrow> instant \<Rightarrow> 's \<Rightarrow> 's) \<Rightarrow> (bytes \<Rightarrow> bytes \<Rightarrow> 's \<Rightarrow> subscription list)
     \<Rightarrow> (delivery \<Rightarrow> instant \<Rightarrow> go_error option \<times> instant) \<Rightarrow> ('s \<times> instant) webhook_env" where
  "claims_env claim complete release lister dispatch =
     \<lparr>we_list = \<lambda>tid typ w. (Inr (lister tid typ (fst w)), w),
      we_claim = \<lambda>k w. (case claim k (snd w) (fst w) of (b, s) \<Rightarrow> (Inr b, (s, snd w))),
      we_complete = \<lambda>k w. (None, (complete k (snd w) (fst w), snd w)),
      we_release = \<lambda>k w. (None, (release k (snd w) (fst w), snd w)),
      we_deliver = \<lambda>d w. (case dispatch d (snd w) of (r, t) \<Rightarrow> (r, (fst w, t)))\<rparr>"

text \<open>A dispatcher that takes less than the lease, as \<open>Deliver\<close> does.\<close>

definition prompt :: "(delivery \<Rightarrow> instant \<Rightarrow> go_error option \<times> instant) \<Rightarrow> bool" where
  "prompt dispatch \<longleftrightarrow> (\<forall>d t. t \<le> snd (dispatch d t) \<and> snd (dispatch d t) < t + deliveryLease)"

definition delivers :: "delivery_claim \<Rightarrow> webhook_call \<Rightarrow> bool" where
  "delivers k c \<longleftrightarrow> (\<exists>d r. c = CallDeliver k d r)"

lemma delivers_simps [simp]:
  "\<not> delivers k (CallClaim j r)" "\<not> delivers k (CallComplete j r')" "\<not> delivers k (CallRelease j r')"
  "delivers k (CallDeliver j d r') \<longleftrightarrow> k = j"
  by (auto simp: delivers_def)

context delivery_claims
begin

abbreviation cenv where "cenv \<equiv> claims_env claim complete release"

text \<open>What one subscription's calls do, as a case rule for inductions over subscriptions.\<close>

lemma deliver_subs_step:
  assumes "deliver_subs (cenv lister dispatch) e (sub # subs) m (s, t) = (r, m', w', l)" "invar s" "time_zero \<le> t"
  obtains (busy) s1 l1 where "\<not> (known s (claim_key e sub) \<and> view s t (claim_key e sub) = Free)" "claim (claim_key e sub) t s = (False, s1)"
      "deliver_subs (cenv lister dispatch) e subs m (s1, t) = (r, m', w', l1)"
      "l = CallClaim (claim_key e sub) (Inr False) # l1"
    | (sent) s1 t1 r1 l1 where "claim (claim_key e sub) t s = (True, s1)" "dispatch (sub_delivery e sub) t = (None, t1)"
      "deliver_subs (cenv lister dispatch) e subs (count_delivery None m) (complete (claim_key e sub) t1 s1, t1) = (r1, m', w', l1)"
      "l = CallClaim (claim_key e sub) (Inr True) # CallDeliver (claim_key e sub) (sub_delivery e sub) None #
         CallComplete (claim_key e sub) None # l1"
    | (failed) s1 t1 x r1 l1 where "claim (claim_key e sub) t s = (True, s1)" "dispatch (sub_delivery e sub) t = (Some x, t1)"
      "deliver_subs (cenv lister dispatch) e subs (count_delivery (Some x) m) (release (claim_key e sub) t1 s1, t1) = (r1, m', w', l1)"
      "l = CallClaim (claim_key e sub) (Inr True) # CallDeliver (claim_key e sub) (sub_delivery e sub) (Some x) #
         CallRelease (claim_key e sub) None # l1"
proof -
  obtain b s1 where c: "claim (claim_key e sub) t s = (b, s1)" by fastforce
  obtain de t1 where d: "dispatch (sub_delivery e sub) t = (de, t1)" by fastforce
  note facts = assms(1) c d
  show thesis
  proof (cases b)
    case False
    then have "\<not> (known s (claim_key e sub) \<and> view s t (claim_key e sub) = Free)" using claim_result [OF assms(2,3)] c by (metis fst_conv)
    with False facts show thesis
      by (intro busy [of s1 "tl l"]) (auto simp: claims_env_def Let_def split: prod.splits)
  next
    case True
    show thesis
    proof (cases de)
      case None
      with True facts show thesis
        by (cases "deliver_subs (cenv lister dispatch) e subs (count_delivery None m) (complete (claim_key e sub) t1 s1, t1)")
          (auto simp: claims_env_def Let_def intro!: sent)
    next
      case (Some x)
      with True facts show thesis
        by (cases "deliver_subs (cenv lister dispatch) e subs (count_delivery (Some x) m) (release (claim_key e sub) t1 s1, t1)")
          (auto simp: claims_env_def Let_def intro!: failed)
    qed
  qed
qed

lemma claimed_view:
  assumes "invar s" "time_zero \<le> t" "claim k t s = (True, s1)"
  shows "invar s1" "view s t k = Free" "view s1 t k = Leased (t + deliveryLease)" "j \<noteq> k \<Longrightarrow> view s1 t j = view s t j"
  using invar_claim [OF assms(1), of k t] claim_result [OF assms(1,2), of k] view_claim [OF assms(1,2), of k] assms(3)
  by auto

lemma claimed_keeps_done:
  assumes "invar s" "time_zero \<le> t" "claim j t s = (True, s1)" "t \<le> t1" "view s t k = Done"
  shows "k \<noteq> j \<and> view s1 t1 k = Done"
proof -
  note cv = claimed_view [OF assms(1-3)]
  have "k \<noteq> j" using cv(2) assms(5) by auto
  moreover have "view s1 t k = Done" using cv(4) [OF calculation] assms(5) by simp
  ultimately show ?thesis using view_done_later [OF cv(1) assms(4)] by blast
qed

lemma prompt_time: "prompt dispatch \<Longrightarrow> dispatch d t = (x, t1) \<Longrightarrow> t \<le> t1 \<and> t1 < t + deliveryLease"
  unfolding prompt_def by (metis snd_conv)

lemma deliver_subs_done:
  assumes "prompt dispatch"
  shows "deliver_subs (cenv lister dispatch) e subs m (s, t) = (r, m', (s', t'), l) \<Longrightarrow> invar s \<Longrightarrow> time_zero \<le> t \<Longrightarrow>
    invar s' \<and> t \<le> t' \<and> (view s t k = Done \<longrightarrow> view s' t' k = Done \<and> (\<forall>c \<in> set l. \<not> delivers k c))"
proof (induction subs arbitrary: m s t l r)
  case Nil
  then show ?case by simp
next
  case (Cons sub subs)
  let ?j = "claim_key e sub"
  from Cons.prems show ?case
  proof (cases rule: deliver_subs_step)
    case (busy s1 l1)
    have "invar s1" "view s1 t k = view s t k"
      using invar_claim [OF Cons.prems(2), of ?j t] view_claim [OF Cons.prems(2,3), of ?j k] busy(1,2) by auto
    then show ?thesis using Cons.IH [OF busy(3) _ Cons.prems(3)] busy(4) by auto
  next
    case (sent s1 t1 r1 l1)
    note cv = claimed_view [OF Cons.prems(2,3) sent(1)] and pt = prompt_time [OF assms sent(2)]
    have t1: "time_zero \<le> t1" using pt Cons.prems(3) by simp
    note IH = Cons.IH [OF sent(3) invar_complete [OF cv(1)] t1]
    have "view (complete ?j t1 s1) t1 k = Done" "k \<noteq> ?j" if "view s t k = Done"
      using claimed_keeps_done [OF Cons.prems(2,3) sent(1) conjunct1 [OF pt] that] view_complete [OF cv(1) t1, of ?j k] by simp_all
    then show ?thesis using IH pt sent(4) by auto
  next
    case (failed s1 t1 x r1 l1)
    note cv = claimed_view [OF Cons.prems(2,3) failed(1)] and pt = prompt_time [OF assms failed(2)]
    have t1: "time_zero \<le> t1" using pt Cons.prems(3) by simp
    note IH = Cons.IH [OF failed(3) invar_release [OF cv(1)] t1]
    have "view (release ?j t1 s1) t1 k = Done" "k \<noteq> ?j" if "view s t k = Done"
      using claimed_keeps_done [OF Cons.prems(2,3) failed(1) conjunct1 [OF pt] that] view_release [OF cv(1) t1, of ?j k] by simp_all
    then show ?thesis using IH pt failed(4) by auto
  qed
qed

lemma deliver_subs_sent:
  assumes "prompt dispatch"
  shows "deliver_subs (cenv lister dispatch) e subs m (s, t) = (r, m', (s', t'), l) \<Longrightarrow> invar s \<Longrightarrow> time_zero \<le> t \<Longrightarrow>
    CallDeliver k d None \<in> set l \<Longrightarrow> view s' t' k = Done"
proof (induction subs arbitrary: m s t l r)
  case Nil
  then show ?case by simp
next
  case (Cons sub subs)
  let ?j = "claim_key e sub"
  from Cons.prems(1-3) show ?case
  proof (cases rule: deliver_subs_step)
    case (busy s1 l1)
    have "invar s1" using invar_claim [OF Cons.prems(2), of ?j t] busy(2) by auto
    then show ?thesis using Cons.IH [OF busy(3) _ Cons.prems(3)] busy(4) Cons.prems(4) by auto
  next
    case (sent s1 t1 r1 l1)
    note cv = claimed_view [OF Cons.prems(2,3) sent(1)] and pt = prompt_time [OF assms sent(2)]
    have t1: "time_zero \<le> t1" using pt Cons.prems(3) by simp
    have "view s1 t1 ?j = Leased (t + deliveryLease)" using view_leased_later [OF cv(1) _ cv(3)] pt by blast
    then have "view (complete ?j t1 s1) t1 ?j = Done" using view_complete [OF cv(1) t1, of ?j ?j] by simp
    then have "view s' t' ?j = Done" using deliver_subs_done [OF assms sent(3) invar_complete [OF cv(1)] t1] by blast
    then show ?thesis
      using Cons.IH [OF sent(3) invar_complete [OF cv(1)] t1] sent(4) Cons.prems(4) by auto
  next
    case (failed s1 t1 x r1 l1)
    note cv = claimed_view [OF Cons.prems(2,3) failed(1)] and pt = prompt_time [OF assms failed(2)]
    have t1: "time_zero \<le> t1" using pt Cons.prems(3) by simp
    show ?thesis using Cons.IH [OF failed(3) invar_release [OF cv(1)] t1] failed(4) Cons.prems(4) by auto
  qed
qed

text \<open>An event delivered once is not delivered again when Kafka hands it out again.\<close>

lemma redelivery_skips:
  assumes "prompt dispatch" "invar s" "time_zero \<le> t"
    and "deliver (cenv lister dispatch) e subs m (s, t) = (r, m1, (s1, t1), l1)"
    and "CallDeliver k d None \<in> set l1" "t1 \<le> t2"
    and "deliver (cenv lister dispatch) e' subs' m' (s1, t2) = (r', m2, (s2, t3), l2)"
  shows "\<forall>c \<in> set l2. \<not> delivers k c"
proof -
  obtain q where q: "deliver_subs (cenv lister dispatch) e subs m (s, t) = (q, m1, (s1, t1), l1)"
    using assms(4) by (auto simp: deliver_def split: prod.splits sum.splits if_splits)
  obtain q' where q': "deliver_subs (cenv lister dispatch) e' subs' m' (s1, t2) = (q', m2, (s2, t3), l2)"
    using assms(7) by (auto simp: deliver_def split: prod.splits sum.splits if_splits)
  have i: "invar s1" "t \<le> t1" using deliver_subs_done [OF assms(1) q assms(2,3)] by auto
  have "view s1 t2 k = Done"
    using view_done_later [OF i(1) assms(6) deliver_subs_sent [OF assms(1) q assms(2,3,5)]] .
  then show ?thesis using deliver_subs_done [OF assms(1) q' i(1), of k] assms(3,6) i(2) by simp
qed

text \<open>Deliveries that another worker holds, or held when it crashed, are passed over.\<close>

lemma deliver_subs_busy:
  assumes "invar s" "time_zero \<le> t" "\<forall>sub \<in> set subs. view s t (claim_key e sub) \<noteq> Free"
  shows "\<exists>s'. deliver_subs (cenv lister dispatch) e subs m (s, t) =
    (Inr [], m, (s', t), map (\<lambda>sub. CallClaim (claim_key e sub) (Inr False)) subs)"
  using assms
proof (induction subs arbitrary: s)
  case Nil
  then show ?case by simp
next
  case (Cons sub subs)
  let ?j = "claim_key e sub"
  obtain b s1 where c: "claim ?j t s = (b, s1)" by fastforce
  have b: "\<not> b" using claim_result [OF Cons.prems(1,2), of ?j] c Cons.prems(3) by simp
  have s1: "invar s1" "\<forall>k. view s1 t k = view s t k"
    using invar_claim [OF Cons.prems(1), of ?j t] view_claim [OF Cons.prems(1,2), of ?j] c Cons.prems(3) by auto
  obtain s' where "deliver_subs (cenv lister dispatch) e subs m (s1, t) =
      (Inr [], m, (s', t), map (\<lambda>sub. CallClaim (claim_key e sub) (Inr False)) subs)"
    using Cons.IH [OF s1(1) Cons.prems(2)] Cons.prems(3) s1(2) by auto
  then show ?case using b c by (simp add: claims_env_def Let_def)
qed

lemma leased_skipped:
  assumes "invar s" "time_zero \<le> t" "\<forall>sub \<in> set subs. view s t (claim_key e sub) \<noteq> Free"
  shows "\<exists>s'. deliver (cenv lister dispatch) e subs m (s, t) =
    (None, m, (s', t), map (\<lambda>sub. CallClaim (claim_key e sub) (Inr False)) subs)"
  using deliver_subs_busy [OF assms, of lister dispatch m] by (auto simp: deliver_def)

end

section \<open>Batches\<close>

lemma map_sum_Inl [simp]: "map_sum id f x = Inl e \<longleftrightarrow> x = Inl e"
  by (cases x) auto

lemma deliver_subs_abort:
  "deliver_subs env e subs m w = (Inl err, m', w', l) \<Longrightarrow> \<exists>k v. fst (we_claim env k v) = Inl err"
proof (induction subs arbitrary: m w l)
  case Nil
  then show ?case by simp
next
  case (Cons sub subs)
  obtain r w1 where c: "we_claim env (claim_key e sub) w = (r, w1)" by fastforce
  show ?case
  proof (cases r)
    case (Inl x)
    then show ?thesis using Cons.prems c by (auto simp: Let_def) (metis fst_conv)
  next
    case (Inr b)
    then have "\<exists>m1 w1 l1. deliver_subs env e subs m1 w1 = (Inl err, m', w', l1)"
      using Cons.prems c by (cases b) (auto simp: Let_def split: prod.splits option.splits sum.splits)
    then show ?thesis using Cons.IH by blast
  qed
qed

lemma webhook_batch_abort:
  "webhook_batch env cache es m w = (Inl err, m', w', l) \<Longrightarrow>
     (\<exists>a b v. fst (we_list env a b v) = Inl err) \<or> (\<exists>k v. fst (we_claim env k v) = Inl err)"
proof (induction es arbitrary: cache m w l)
  case Nil
  then show ?case by simp
next
  case (Cons e es)
  obtain q w1 where q: "(case map_of cache (cache_key e) of
      Some subs \<Rightarrow> (Inr subs, w) | None \<Rightarrow> we_list env (TenantID e) (Type e) w) = (q, w1)" by fastforce
  show ?case
  proof (cases q)
    case (Inl x)
    then have "fst (we_list env (TenantID e) (Type e) w) = Inl err"
      using Cons.prems q by (auto split: option.splits)
    then show ?thesis by blast
  next
    case (Inr subs)
    obtain r m1 w2 l1 where d: "deliver env e subs m w1 = (r, m1, w2, l1)" by (metis prod_cases4)
    obtain r2 m2 w3 l2 where rest: "webhook_batch env (AList.update (cache_key e) subs cache) es m1 w2 = (r2, m2, w3, l2)"
      by (metis prod_cases4)
    show ?thesis
    proof (cases "r2 = Inl err \<and> m2 = m' \<and> w3 = w'")
      case True
      then show ?thesis using Cons.IH rest by blast
    next
      case False
      then have r: "r = Some err" "\<not> as_dead_letter err"
        using Cons.prems q Inr d rest by (auto simp: Let_def split: option.splits if_splits)
      then obtain m3 w4 l4 where "deliver_subs env e subs m w1 = (Inl err, m3, w4, l4)"
        using d by (auto simp: deliver_def split: prod.splits sum.splits if_splits)
      from deliver_subs_abort [OF this] show ?thesis by blast
    qed
  qed
qed

lemma webhook_batch_failed:
  "webhook_batch env cache es m w = (Inr failed, m', w', l) \<Longrightarrow>
     subseq (map fst failed) es \<and> (\<forall>(e, err) \<in> set failed. as_dead_letter err)"
proof (induction es arbitrary: cache m w failed l)
  case Nil
  then show ?case by simp
next
  case (Cons e es)
  obtain q w1 where q: "(case map_of cache (cache_key e) of
      Some subs \<Rightarrow> (Inr subs, w) | None \<Rightarrow> we_list env (TenantID e) (Type e) w) = (q, w1)" by fastforce
  obtain subs where subs: "q = Inr subs" using Cons.prems q by (cases q) auto
  obtain r m1 w2 l1 where d: "deliver env e subs m w1 = (r, m1, w2, l1)" by (metis prod_cases4)
  obtain r2 m2 w3 l2 where rest: "webhook_batch env (AList.update (cache_key e) subs cache) es m1 w2 = (r2, m2, w3, l2)"
    by (metis prod_cases4)
  show ?case
  proof (cases r)
    case None
    then have "r2 = Inr failed" using Cons.prems q subs d rest by (simp add: Let_def)
    then show ?thesis using Cons.IH [of "AList.update (cache_key e) subs cache" m1 w2 failed l2] Cons.prems q subs d rest None
      by (auto simp: Let_def)
  next
    case (Some err)
    then have t: "as_dead_letter err" using Cons.prems q subs d by (auto simp: Let_def split: if_splits)
    then obtain failed2 where f2: "r2 = Inr failed2" "failed = (e, err) # failed2"
      using Cons.prems q subs d rest Some by (cases r2) (auto simp: Let_def)
    then show ?thesis
      using Cons.IH [of "AList.update (cache_key e) subs cache" m1 w2 failed2 l2] Cons.prems q subs d rest Some t
      by (auto simp: Let_def)
  qed
qed

section \<open>Properties\<close>

abbreviation memory_handler_env ::
  "(delivery \<Rightarrow> instant \<Rightarrow> go_error option \<times> instant) \<Rightarrow> (subscription_store \<times> instant) webhook_env" where
  "memory_handler_env dispatch \<equiv>
     claims_env ClaimDelivery CompleteDelivery ReleaseDelivery (ListSubscriptions id) dispatch"


definition quick_dispatch :: "go_error option \<Rightarrow> delivery \<Rightarrow> instant \<Rightarrow> go_error option \<times> instant" where
  "quick_dispatch r d t = (r, t + 1)"

lemma sample_sub_delivered:
  "deliver (memory_handler_env (quick_dispatch None)) (sample_event ''a'') [sample_sub] None (NewMemoryStore, 0) =
     (None, None,
      (CompleteDelivery (claim_key (sample_event ''a'') sample_sub) 1
         (snd (ClaimDelivery (claim_key (sample_event ''a'') sample_sub) 0 NewMemoryStore)), 1),
      [CallClaim (claim_key (sample_event ''a'') sample_sub) (Inr True),
       CallDeliver (claim_key (sample_event ''a'') sample_sub) (sub_delivery (sample_event ''a'') sample_sub) None,
       CallComplete (claim_key (sample_event ''a'') sample_sub) None])"
  by (simp add: deliver_def claims_env_def quick_dispatch_def ClaimDelivery_def NewMemoryStore_def count_delivery_def Let_def)


text \<open>
  Redelivery does not repeat a delivery. With the claims of the in-memory store and a
  dispatcher that takes less than the lease, a delivery that succeeded is not attempted
  again when the same event (or any other) is handled later.
\<close>

theorem redelivery_not_repeated:
  assumes "prompt dispatch" "claims_ok s" "time_zero \<le> t"
    and "deliver (memory_handler_env dispatch) e subs m (s, t) = (r, m1, (s1, t1), l1)"
    and "CallDeliver k d None \<in> set l1" "t1 \<le> t2"
    and "deliver (memory_handler_env dispatch) e' subs' m' (s1, t2) = (r', m2, (s2, t3), l2)"
  shows "\<forall>c \<in> set l2. \<not> delivers k c"
  by (rule memory_claims.redelivery_skips [OF assms])

lemma prompt_quick: "prompt (quick_dispatch r)"
  by (simp add: prompt_def quick_dispatch_def deliveryLease_def Hour_def)

theorem redelivery_not_repeated_witness:
  "filter (delivers (claim_key (sample_event ''a'') sample_sub)) (snd (snd (snd (deliver (memory_handler_env (quick_dispatch None)) (sample_event ''a'') [sample_sub] None
      (CompleteDelivery (claim_key (sample_event ''a'') sample_sub) 1
         (snd (ClaimDelivery (claim_key (sample_event ''a'') sample_sub) 0 NewMemoryStore)), 7))))) = []"
proof -
  let ?s = "CompleteDelivery (claim_key (sample_event ''a'') sample_sub) 1
      (snd (ClaimDelivery (claim_key (sample_event ''a'') sample_sub) 0 NewMemoryStore))"
  obtain r m s t l where d: "deliver (memory_handler_env (quick_dispatch None)) (sample_event ''a'') [sample_sub] None (?s, 7) =
      (r, m, (s, t), l)"
    by (metis prod.exhaust)
  have "\<forall>c \<in> set l. \<not> delivers (claim_key (sample_event ''a'') sample_sub) c"
    by (rule redelivery_not_repeated [OF prompt_quick NewMemoryStore_ok _ sample_sub_delivered _ _ d])
      (simp_all add: time_zero_def)
  then show ?thesis unfolding d by (simp add: filter_empty_conv)
qed

text \<open>
  A delivery whose claim another worker holds is passed over as if it had succeeded.
  If every subscription of an event is leased (for example by a worker that crashed less
  than an hour ago), the handler attempts nothing and reports success, so the consumer
  commits the message: after the lease expires no message is left to deliver.
\<close>

theorem leased_deliveries_skipped:
  assumes "claims_ok s" "time_zero \<le> t" "\<forall>sub \<in> set subs. \<exists>u. memory_view s t (claim_key e sub) = Leased u"
  shows "\<exists>s'. deliver (memory_handler_env dispatch) e subs m (s, t) =
    (None, m, (s', t), map (\<lambda>sub. CallClaim (claim_key e sub) (Inr False)) subs)"
  by (rule memory_claims.leased_skipped [OF assms(1,2)]) (use assms(3) in force)

theorem leased_deliveries_skipped_witness:
  "fst (deliver (memory_handler_env (quick_dispatch None)) (sample_event ''a'') [sample_sub] None
     (snd (ClaimDelivery (claim_key (sample_event ''a'') sample_sub) 0 NewMemoryStore), 5)) = None"
proof -
  let ?s = "snd (ClaimDelivery (claim_key (sample_event ''a'') sample_sub) 0 NewMemoryStore)"
  have "claims_ok ?s" by (rule memory_claims.invar_claim [OF NewMemoryStore_ok])
  moreover have "memory_view ?s 5 (claim_key (sample_event ''a'') sample_sub) = Leased Hour"
    by (simp add: memory_view_def ClaimDelivery_def NewMemoryStore_def time_Add_def deliveryLease_def Hour_def)
  ultimately show ?thesis
    using leased_deliveries_skipped [of ?s 5 "[sample_sub]" "sample_event ''a''" "quick_dispatch None" None]
    by (auto simp: time_zero_def)
qed

text \<open>The errors of the store's own calls are not reports of a failed part of a batch.\<close>

definition store_errors_plain :: "'w webhook_env \<Rightarrow> bool" where
  "store_errors_plain env \<longleftrightarrow>
     (\<forall>a b v err. fst (we_list env a b v) = Inl err \<longrightarrow> as_batch_dead_letter err = None) \<and>
     (\<forall>k v err. fst (we_claim env k v) = Inl err \<longrightarrow> as_batch_dead_letter err = None)"

lemma webhook_HandleBatch_failed:
  assumes "store_errors_plain env" "webhook_HandleBatch env batch m w = (Some err, m', w', l)"
    and "as_batch_dead_letter err = Some (evs, cause)"
  shows "evs \<noteq> [] \<and> subseq evs batch"
proof -
  obtain q where q: "webhook_batch env [] batch m w = (q, m', w', l)"
    using assms(2) by (auto simp: webhook_HandleBatch_def split: prod.splits sum.splits if_splits)
  show ?thesis
  proof (cases q)
    case (Inr failed)
    then have "evs = map fst failed" "failed \<noteq> []"
      using assms(2,3) q by (auto simp: webhook_HandleBatch_def split: if_splits)
    then show ?thesis using webhook_batch_failed [of env "[]" batch m w failed m' w' l] q Inr by auto
  next
    case (Inl x)
    then have "x = err" using assms(2) q by (simp add: webhook_HandleBatch_def)
    then show ?thesis
      using webhook_batch_abort [of env "[]" batch m w err m' w' l] q Inl assms(1,3) by (auto simp: store_errors_plain_def)
  qed
qed

end
