(* ===== verification/Auth.thy ===== *)
theory Auth
  imports Go_Text
begin

text \<open>
  \<open>internal/auth/tenant.go\<close> and \<open>internal/auth/cache.go\<close>: API keys, the in-memory tenant
  store and the caching wrapper around a store.

  \<open>sha\<close> is \<open>sha256.Sum256\<close>, any function on byte strings: a theorem that needs two keys
  to have different hashes says so. \<open>crypto/rand\<close> is an argument too (the 32 bytes read,
  or \<open>None\<close> when the read fails), as are the clock and the order in which Go ranges over a
  map (\<open>perm\<close>). Each critical section of a mutex is one operation on the state; the
  operations of \<open>CachedStore.Authenticate\<close>, which takes its lock up to three times, are
  defined separately so that calls can be interleaved between them.
\<close>

named_theorems auth_defs "definitions of the tenant store operations"

section \<open>Data\<close>

record tenant =
  ten_ID :: bytes
  ten_Name :: bytes
  ten_APIKeyHash :: bytes
  ten_Status :: bytes
  ten_CreatedAt :: instant
  ten_UpdatedAt :: instant

datatype auth_error = ErrUnauthorized | ErrTenantNotFound | ErrNameRequired | ErrRandom
  | ErrStore bytes

section \<open>Keys\<close>

definition NewAPIKey :: "bytes option \<Rightarrow> auth_error + bytes" where
  "NewAPIKey rnd =
     (case rnd of None \<Rightarrow> Inl ErrRandom | Some b \<Rightarrow> Inr (''pulse_'' @ RawURLEncode b))"

definition HashAPIKey :: "(bytes \<Rightarrow> bytes) \<Rightarrow> bytes \<Rightarrow> bytes" where
  "HashAPIKey sha key = sha key"

text \<open>\<open>subtle.ConstantTimeCompare\<close> returns 1 exactly on equal slices.\<close>

definition EqualAPIKeyHash :: "(bytes \<Rightarrow> bytes) \<Rightarrow> bytes \<Rightarrow> bytes \<Rightarrow> bool" where
  "EqualAPIKeyHash sha key hash \<longleftrightarrow> HashAPIKey sha key = hash"

definition Bearer :: "bytes \<Rightarrow> bytes option" where
  "Bearer header =
     (case Fields header of
        [p0, p1] \<Rightarrow> if \<not> EqualFold p0 ''bearer'' \<or> p1 = [] then None else Some p1
      | _ \<Rightarrow> None)"

section \<open>The in-memory store\<close>

type_synonym memory_store = "tenant gomap"

definition memory_Create ::
  "(bytes \<Rightarrow> bytes) \<Rightarrow> bytes option \<Rightarrow> bytes option \<Rightarrow> instant \<Rightarrow> bytes \<Rightarrow> memory_store
     \<Rightarrow> (auth_error + tenant \<times> bytes) \<times> memory_store" where
  "memory_Create sha rnd1 rnd2 now name s =
     (if TrimSpace name = [] then (Inl ErrNameRequired, s)
      else case NewAPIKey rnd1 of
        Inl err \<Rightarrow> (Inl err, s)
      | Inr key \<Rightarrow>
          (case NewAPIKey rnd2 of
             Inl err \<Rightarrow> (Inl err, s)
           | Inr idKey \<Rightarrow>
               let ident = take 16 (TrimPrefix idKey ''pulse_'');
                   t = \<lparr>ten_ID = ''ten_'' @ ident, ten_Name = name, ten_APIKeyHash = HashAPIKey sha key,
                        ten_Status = ''active'', ten_CreatedAt = now, ten_UpdatedAt = now\<rparr>
               in (Inr (t, key), AList.update (ten_ID t) t s)))"

definition memory_RotateKey ::
  "(bytes \<Rightarrow> bytes) \<Rightarrow> bytes option \<Rightarrow> instant \<Rightarrow> bytes \<Rightarrow> memory_store
     \<Rightarrow> (auth_error + bytes) \<times> memory_store" where
  "memory_RotateKey sha rnd now tenantID s =
     (case NewAPIKey rnd of
        Inl err \<Rightarrow> (Inl err, s)
      | Inr key \<Rightarrow>
          (case map_of s tenantID of
             None \<Rightarrow> (Inl ErrTenantNotFound, s)
           | Some t \<Rightarrow>
               (Inr key, AList.update tenantID
                  (t\<lparr>ten_APIKeyHash := HashAPIKey sha key, ten_UpdatedAt := now\<rparr>) s)))"

fun first_match :: "(bytes \<Rightarrow> bytes) \<Rightarrow> bytes \<Rightarrow> memory_store \<Rightarrow> auth_error + tenant" where
  "first_match sha key [] = Inl ErrUnauthorized"
| "first_match sha key ((i, t) # ts) =
     (if ten_Status t = ''active'' \<and> EqualAPIKeyHash sha key (ten_APIKeyHash t) then Inr t
      else first_match sha key ts)"

definition memory_Authenticate ::
  "(bytes \<Rightarrow> bytes) \<Rightarrow> (memory_store \<Rightarrow> memory_store) \<Rightarrow> memory_store \<Rightarrow> bytes \<Rightarrow> auth_error + tenant" where
  "memory_Authenticate sha perm s key = first_match sha key (perm s)"

definition memory_Get :: "memory_store \<Rightarrow> bytes \<Rightarrow> auth_error + tenant" where
  "memory_Get s tenantID =
     (case map_of s tenantID of None \<Rightarrow> Inl ErrTenantNotFound | Some t \<Rightarrow> Inr t)"

section \<open>The caching store\<close>

record cachedTenant =
  ct_tenant :: tenant
  ct_expires :: instant

type_synonym cache = "cachedTenant gomap"

definition maxCachedKeys :: nat where
  "maxCachedKeys = 4096"

text \<open>\<open>NewCachedStore\<close>: \<open>None\<close> is the inner store itself, \<open>Some\<close> an empty cache with its TTL.\<close>

definition NewCachedStore :: "duration \<Rightarrow> (duration \<times> cache) option" where
  "NewCachedStore ttl = (if ttl \<le> 0 then None else Some (ttl, []))"

definition cache_lookup :: "instant \<Rightarrow> bytes \<Rightarrow> cache \<Rightarrow> tenant option" where
  "cache_lookup now ck c =
     (case map_of c ck of
        Some item \<Rightarrow> if now < ct_expires item then Some (ct_tenant item) else None
      | None \<Rightarrow> None)"

definition cache_forget :: "bytes \<Rightarrow> cache \<Rightarrow> cache" where
  "cache_forget ck c = AList.delete ck c"

definition cache_evict :: "(cache \<Rightarrow> cache) \<Rightarrow> cache \<Rightarrow> cache" where
  "cache_evict perm c =
     (if maxCachedKeys \<le> length c
      then (case perm c of [] \<Rightarrow> c | (k, _) # _ \<Rightarrow> AList.delete k c) else c)"

definition cache_insert ::
  "(cache \<Rightarrow> cache) \<Rightarrow> duration \<Rightarrow> instant \<Rightarrow> bytes \<Rightarrow> tenant \<Rightarrow> cache \<Rightarrow> cache" where
  "cache_insert perm ttl now ck t c =
     AList.update ck \<lparr>ct_tenant = t, ct_expires = time_Add now ttl\<rparr>
       (cache_evict perm (filter (\<lambda>(k, i). now < ct_expires i) c))"

definition cached_Authenticate ::
  "(bytes \<Rightarrow> bytes) \<Rightarrow> (cache \<Rightarrow> cache) \<Rightarrow> (bytes \<Rightarrow> auth_error + tenant) \<Rightarrow> duration \<Rightarrow> instant
     \<Rightarrow> bytes \<Rightarrow> cache \<Rightarrow> (auth_error + tenant) \<times> cache" where
  "cached_Authenticate sha perm inner ttl now key c =
     (let ck = sha key in
      case cache_lookup now ck c of
        Some t \<Rightarrow> (Inr t, c)
      | None \<Rightarrow>
          let c1 = (if map_of c ck \<noteq> None then cache_forget ck c else c) in
          (case inner key of
             Inl err \<Rightarrow> (Inl err, c1)
           | Inr t \<Rightarrow> (Inr t, cache_insert perm ttl now ck t c1)))"

definition cache_purge :: "bytes \<Rightarrow> cache \<Rightarrow> cache" where
  "cache_purge tenantID c = filter (\<lambda>(k, i). ten_ID (ct_tenant i) \<noteq> tenantID) c"

definition cached_RotateKey ::
  "(bytes \<Rightarrow> 's \<Rightarrow> (auth_error + bytes) \<times> 's) \<Rightarrow> bytes \<Rightarrow> 's \<times> cache
     \<Rightarrow> (auth_error + bytes) \<times> 's \<times> cache" where
  "cached_RotateKey inner tenantID st =
     (case inner tenantID (fst st) of
        (Inl err, s') \<Rightarrow> (Inl err, s', snd st)
      | (Inr key, s') \<Rightarrow> (Inr key, s', cache_purge tenantID (snd st)))"

definition cached_Create ::
  "(bytes \<Rightarrow> 's \<Rightarrow> (auth_error + tenant \<times> bytes) \<times> 's) \<Rightarrow> bytes \<Rightarrow> 's \<times> cache
     \<Rightarrow> (auth_error + tenant \<times> bytes) \<times> 's \<times> cache" where
  "cached_Create inner name st =
     (case inner name (fst st) of (r, s') \<Rightarrow> (r, s', snd st))"

definition cached_Get :: "(bytes \<Rightarrow> auth_error + tenant) \<Rightarrow> bytes \<Rightarrow> cache \<Rightarrow> auth_error + tenant" where
  "cached_Get inner tenantID c = inner tenantID"

lemmas [auth_defs] = NewAPIKey_def HashAPIKey_def EqualAPIKeyHash_def memory_Create_def
  memory_RotateKey_def memory_Authenticate_def memory_Get_def cache_lookup_def cache_forget_def
  cache_evict_def cache_insert_def cached_Authenticate_def cache_purge_def cached_RotateKey_def

section \<open>The store interface\<close>

text \<open>
  What the rest of the system relies on in an \<open>auth.Store\<close>, over an abstraction
  \<open>table\<close> of its state to the tenants it holds by ID. \<open>authenticate\<close> finds exactly the
  active tenant with the key's hash; \<open>rotate rnd i\<close> draws a new key from \<open>rnd\<close> and
  replaces the hash of tenant \<open>i\<close>. The invariant includes that no two tenants share a hash, which a
  rotation to a fresh hash keeps.
\<close>

definition unique_hashes :: "(bytes \<rightharpoonup> tenant) \<Rightarrow> bool" where
  "unique_hashes tab \<longleftrightarrow>
     (\<forall>i j t u. tab i = Some t \<longrightarrow> tab j = Some u \<longrightarrow> ten_APIKeyHash t = ten_APIKeyHash u \<longrightarrow> i = j) \<and>
     (\<forall>i t. tab i = Some t \<longrightarrow> ten_ID t = i)"

definition fresh_hash :: "bytes \<Rightarrow> (bytes \<rightharpoonup> tenant) \<Rightarrow> bool" where
  "fresh_hash h tab \<longleftrightarrow> (\<forall>j u. tab j = Some u \<longrightarrow> ten_APIKeyHash u \<noteq> h)"

text \<open>
  A cache agrees with the store behind it when every entry is the tenant the store now
  returns for that key hash. The sequential runs of one process, each call completing
  before the next starts, are the states \<open>cached_reach\<close>; a rotation draws a key whose hash
  no tenant has.
\<close>

definition cache_agrees :: "(bytes \<rightharpoonup> tenant) \<Rightarrow> cache \<Rightarrow> bool" where
  "cache_agrees tab c \<longleftrightarrow> gomap_ok c \<and>
     (\<forall>ck i. map_of c ck = Some i \<longrightarrow>
        tab (ten_ID (ct_tenant i)) = Some (ct_tenant i) \<and>
        ten_APIKeyHash (ct_tenant i) = ck \<and> ten_Status (ct_tenant i) = ''active'')"

inductive cached_reach ::
  "(bytes \<Rightarrow> bytes) \<Rightarrow> (cache \<Rightarrow> cache) \<Rightarrow> ('s \<Rightarrow> bytes \<Rightarrow> tenant option) \<Rightarrow>
   ('s \<Rightarrow> bytes \<Rightarrow> auth_error + tenant) \<Rightarrow>
   (bytes option \<Rightarrow> bytes \<Rightarrow> 's \<Rightarrow> (auth_error + bytes) \<times> 's) \<Rightarrow> duration \<Rightarrow> 's \<Rightarrow> 's \<times> cache \<Rightarrow> bool"
  for sha perm table authenticate rotate ttl s0
where
  init: "cached_reach sha perm table authenticate rotate ttl s0 (s0, [])"
| auth: "cached_reach sha perm table authenticate rotate ttl s0 (s, c) \<Longrightarrow>
    cached_reach sha perm table authenticate rotate ttl s0
      (s, snd (cached_Authenticate sha perm (authenticate s) ttl now key c))"
| rotated: "cached_reach sha perm table authenticate rotate ttl s0 (s, c) \<Longrightarrow>
    cached_RotateKey (rotate rnd) i (s, c) = (r, s', c') \<Longrightarrow>
    (\<And>k. NewAPIKey rnd = Inr k \<Longrightarrow> fresh_hash (sha k) (table s)) \<Longrightarrow>
    cached_reach sha perm table authenticate rotate ttl s0 (s', c')"

lemma cache_agrees_forget: "cache_agrees tab c \<Longrightarrow> cache_agrees tab (cache_forget ck c)"
  by (auto simp: cache_agrees_def cache_forget_def map_of_delete split: if_splits)

lemma cache_agrees_filter: "cache_agrees tab c \<Longrightarrow> cache_agrees tab (filter P c)"
  by (auto simp: cache_agrees_def gomap_filter_Some)

lemma cache_agrees_evict: "cache_agrees tab c \<Longrightarrow> cache_agrees tab (cache_evict perm c)"
  by (auto simp: cache_evict_def cache_forget_def [symmetric] cache_agrees_forget split: list.splits)

lemma cache_agrees_insert:
  "cache_agrees tab c \<Longrightarrow> tab (ten_ID t) = Some t \<Longrightarrow> ten_APIKeyHash t = ck \<Longrightarrow>
     ten_Status t = ''active'' \<Longrightarrow> cache_agrees tab (cache_insert perm ttl now ck t c)"
  using cache_agrees_evict [OF cache_agrees_filter, of tab c perm "\<lambda>(k, i). now < ct_expires i"]
  by (auto simp: cache_insert_def cache_agrees_def map_of_update split: if_splits)

lemma cache_agrees_purge:
  "cache_agrees tab c \<Longrightarrow> cache_agrees (tab(i \<mapsto> t)) (cache_purge i c)"
  by (auto simp: cache_agrees_def cache_purge_def gomap_filter_Some)

lemma unique_hashesD:
  "unique_hashes tab \<Longrightarrow> tab i = Some t \<Longrightarrow> tab j = Some u \<Longrightarrow>
     ten_APIKeyHash t = ten_APIKeyHash u \<Longrightarrow> i = j"
  unfolding unique_hashes_def by metis

lemma unique_hashes_ID: "unique_hashes tab \<Longrightarrow> tab i = Some t \<Longrightarrow> ten_ID t = i"
  by (simp add: unique_hashes_def)

locale tenant_store =
  fixes hash :: "bytes \<Rightarrow> bytes"
    and table :: "'s \<Rightarrow> bytes \<Rightarrow> tenant option"
    and invar :: "'s \<Rightarrow> bool"
    and authenticate :: "'s \<Rightarrow> bytes \<Rightarrow> auth_error + tenant"
    and rotate :: "bytes option \<Rightarrow> bytes \<Rightarrow> 's \<Rightarrow> (auth_error + bytes) \<times> 's"
  assumes invar_unique: "invar s \<Longrightarrow> unique_hashes (table s)"
    and authenticate_iff: "invar s \<Longrightarrow>
      authenticate s k = Inr t \<longleftrightarrow>
        (\<exists>i. table s i = Some t \<and> ten_Status t = ''active'' \<and> ten_APIKeyHash t = hash k)"
    and rotate_ok: "invar s \<Longrightarrow> table s i = Some t \<Longrightarrow> ten_Status t = ''active'' \<Longrightarrow>
      NewAPIKey rnd = Inr k \<Longrightarrow> fresh_hash (hash k) (table s) \<Longrightarrow>
      \<exists>s' u. rotate rnd i s = (Inr k, s') \<and> invar s' \<and>
        table s' = (table s)(i \<mapsto> t\<lparr>ten_APIKeyHash := hash k, ten_UpdatedAt := u\<rparr>)"
    and rotate_ok_inv: "rotate rnd i s = (Inr k, s') \<Longrightarrow> invar s \<Longrightarrow>
      NewAPIKey rnd = Inr k \<and> (\<exists>t. table s i = Some t \<and> ten_Status t = ''active'')"
    and rotate_err: "rotate rnd i s = (Inl e, s') \<Longrightarrow> s' = s"
begin

lemma authenticate_ID: "invar s \<Longrightarrow> authenticate s k = Inr t \<Longrightarrow> table s (ten_ID t) = Some t"
  by (auto simp: authenticate_iff dest: unique_hashes_ID [OF invar_unique])

lemma authenticate_Inl: "invar s \<Longrightarrow> (\<And>i t. table s i = Some t \<Longrightarrow> ten_APIKeyHash t \<noteq> hash k) \<Longrightarrow>
    \<exists>e. authenticate s k = Inl e"
  by (cases "authenticate s k") (auto simp: authenticate_iff)

lemma rotate_swaps_keys:
  assumes inv: "invar s" and old: "authenticate s k0 = Inr t"
    and key: "NewAPIKey rnd = Inr k" and fresh: "fresh_hash (hash k) (table s)"
  shows "\<exists>s' t'. rotate rnd (ten_ID t) s = (Inr k, s') \<and> invar s' \<and>
           (\<exists>e. authenticate s' k0 = Inl e) \<and> authenticate s' k = Inr t' \<and> ten_ID t' = ten_ID t"
proof -
  from inv old have t: "table s (ten_ID t) = Some t" "ten_Status t = ''active''" "ten_APIKeyHash t = hash k0"
    by (auto simp: authenticate_ID authenticate_iff)
  from rotate_ok [OF inv t(1,2) key fresh] obtain s' u where
    r: "rotate rnd (ten_ID t) s = (Inr k, s')" "invar s'" and
    tab: "table s' = (table s)(ten_ID t \<mapsto> t\<lparr>ten_APIKeyHash := hash k, ten_UpdatedAt := u\<rparr>)"
    by blast
  have "hash k0 \<noteq> hash k"
    using fresh t(1,3) unfolding fresh_hash_def by metis
  then have "ten_APIKeyHash v \<noteq> hash k0" if "table s' i = Some v" for i v
  proof (cases "i = ten_ID t")
    case True
    with that tab \<open>hash k0 \<noteq> hash k\<close> show ?thesis by auto
  next
    case False
    with that tab have "table s i = Some v" by simp
    with False t(1,3) show ?thesis by (metis unique_hashesD [OF invar_unique [OF inv]])
  qed
  then have "\<exists>e. authenticate s' k0 = Inl e"
    by (rule authenticate_Inl [OF r(2)])
  moreover have "authenticate s' k = Inr (t\<lparr>ten_APIKeyHash := hash k, ten_UpdatedAt := u\<rparr>)"
    unfolding authenticate_iff [OF r(2)] by (rule exI [of _ "ten_ID t"]) (simp add: tab t(2))
  ultimately show ?thesis using r by auto
qed

lemma cached_Authenticate_transparent:
  assumes inv: "invar s" and agr: "cache_agrees (table s) c"
  shows "fst (cached_Authenticate hash perm (authenticate s) ttl now k c) = authenticate s k"
    and "cache_agrees (table s) (snd (cached_Authenticate hash perm (authenticate s) ttl now k c))"
proof -
  have hit: "authenticate s k = Inr t" if "cache_lookup now (hash k) c = Some t" for t
    using that agr unfolding authenticate_iff [OF inv]
    by (auto simp: cache_lookup_def cache_agrees_def split: option.splits if_splits)
  then show "fst (cached_Authenticate hash perm (authenticate s) ttl now k c) = authenticate s k"
    by (auto simp: cached_Authenticate_def Let_def split: option.splits sum.splits)
  have "cache_agrees (table s) (cache_insert perm ttl now (hash k) t c1)"
    if "authenticate s k = Inr t" "cache_agrees (table s) c1" for t c1
    using that authenticate_ID [OF inv that(1)] authenticate_iff [OF inv, of k t]
    by (intro cache_agrees_insert) auto
  then show "cache_agrees (table s) (snd (cached_Authenticate hash perm (authenticate s) ttl now k c))"
    using agr by (auto simp: cached_Authenticate_def Let_def cache_agrees_forget split: option.splits sum.splits)
qed

lemma cached_RotateKey_agrees:
  assumes inv: "invar s" and agr: "cache_agrees (table s) c"
    and rot: "cached_RotateKey (rotate rnd) i (s, c) = (r, s', c')"
    and fresh: "\<And>k. NewAPIKey rnd = Inr k \<Longrightarrow> fresh_hash (hash k) (table s)"
  shows "invar s' \<and> cache_agrees (table s') c'"
proof (cases r)
  case (Inl e)
  then have "rotate rnd i s = (Inl e, s')" "c' = c"
    using rot by (auto simp: cached_RotateKey_def split: prod.splits sum.splits)
  then show ?thesis using rotate_err inv agr by blast
next
  case (Inr k)
  then have r: "rotate rnd i s = (Inr k, s')" "c' = cache_purge i c"
    using rot by (auto simp: cached_RotateKey_def split: prod.splits sum.splits)
  then obtain t where k: "NewAPIKey rnd = Inr k" "table s i = Some t" "ten_Status t = ''active''"
    using rotate_ok_inv inv by blast
  with rotate_ok [OF inv k(2,3,1) fresh [OF k(1)]] r have "invar s'" and
    "\<exists>t'. table s' = (table s)(i \<mapsto> t')"
    by auto
  with agr r(2) show ?thesis by (auto intro: cache_agrees_purge)
qed

lemma cached_reach_agrees:
  "cached_reach hash perm table authenticate rotate ttl s0 (s, c) \<Longrightarrow> invar s0 \<Longrightarrow>
     invar s \<and> cache_agrees (table s) c"
proof (induction "(s, c)" arbitrary: s c rule: cached_reach.induct)
  case init
  then show ?case by (simp add: cache_agrees_def)
next
  case (auth s c now key)
  then show ?case using cached_Authenticate_transparent(2) by simp
next
  case (rotated s c rnd i r s' c')
  then show ?case using cached_RotateKey_agrees by blast
qed

lemma stale_insert:
  assumes inv: "invar s" and old: "authenticate s k0 = Inr t"
    and key: "NewAPIKey rnd = Inr k" and fresh: "fresh_hash (hash k) (table s)"
    and later: "now2 < time_Add now ttl"
  shows "\<exists>s' c' e. cached_RotateKey (rotate rnd) (ten_ID t) (s, []) = (Inr k, s', c') \<and>
           authenticate s' k0 = Inl e \<and>
           fst (cached_Authenticate hash perm (authenticate s') ttl now2 k0
                  (cache_insert perm' ttl now (hash k0) t c')) = Inr t"
proof -
  obtain s' e where r: "rotate rnd (ten_ID t) s = (Inr k, s')" "authenticate s' k0 = Inl e"
    using rotate_swaps_keys [OF inv old key fresh] by blast
  with later show ?thesis
    by (simp add: cached_RotateKey_def cached_Authenticate_def cache_lookup_def cache_insert_def
        map_of_update Let_def)
qed

end

section \<open>The in-memory store implements the interface\<close>

text \<open>Every tenant of the in-memory store is active: no operation of it disables one.\<close>

definition memory_ok :: "memory_store \<Rightarrow> bool" where
  "memory_ok s \<longleftrightarrow> gomap_ok s \<and> unique_hashes (map_of s) \<and>
     (\<forall>i t. map_of s i = Some t \<longrightarrow> ten_Status t = ''active'')"

lemma first_match_Inr:
  "first_match sha key ts = Inr t \<Longrightarrow>
     \<exists>i. (i, t) \<in> set ts \<and> ten_Status t = ''active'' \<and> ten_APIKeyHash t = sha key"
  by (induction sha key ts rule: first_match.induct)
    (auto simp: EqualAPIKeyHash_def HashAPIKey_def split: if_splits)

lemma first_match_found:
  "(i, t) \<in> set ts \<Longrightarrow> ten_Status t = ''active'' \<Longrightarrow> ten_APIKeyHash t = sha key \<Longrightarrow>
     \<exists>u. first_match sha key ts = Inr u"
  by (induction sha key ts rule: first_match.induct)
    (auto simp: EqualAPIKeyHash_def HashAPIKey_def)

lemma memory_Authenticate_iff:
  assumes "map_order perm" and "memory_ok s"
  shows "memory_Authenticate sha perm s k = Inr t \<longleftrightarrow>
    (\<exists>i. map_of s i = Some t \<and> ten_Status t = ''active'' \<and> ten_APIKeyHash t = sha k)"
    (is "_ = ?found t")
proof -
  have mem: "(i, u) \<in> set (perm s) \<longleftrightarrow> map_of s i = Some u" for i u
    using assms by (simp add: map_order_set memory_ok_def gomap_in_set)
  have sound: "?found u" if "memory_Authenticate sha perm s k = Inr u" for u
    using first_match_Inr [OF that [unfolded memory_Authenticate_def]] by (simp add: mem)
  show ?thesis
  proof
    assume f: "?found t"
    then obtain u where "memory_Authenticate sha perm s k = Inr u"
      using first_match_found [of _ t "perm s" sha k] by (auto simp: mem memory_Authenticate_def)
    moreover from sound [OF this] f have "u = t"
      using assms(2) unfolding memory_ok_def by (metis option.inject unique_hashesD)
    ultimately show "memory_Authenticate sha perm s k = Inr t" by simp
  qed (rule sound)
qed

lemma unique_hashes_upd:
  "unique_hashes tab \<Longrightarrow> fresh_hash (ten_APIKeyHash t) tab \<Longrightarrow> ten_ID t = i \<Longrightarrow>
     unique_hashes (tab(i \<mapsto> t))"
  unfolding unique_hashes_def fresh_hash_def by (auto split: if_splits) metis+

theorem memory_tenant_store:
  assumes "map_order perm"
  shows "tenant_store sha map_of memory_ok (memory_Authenticate sha perm)
           (\<lambda>rnd. memory_RotateKey sha rnd now)"
proof
  fix s :: memory_store and i t rnd k
  assume s: "memory_ok s" "map_of s i = Some t" and fresh: "fresh_hash (sha k) (map_of s)"
    and key: "NewAPIKey rnd = Inr k"
  let ?t = "t\<lparr>ten_APIKeyHash := sha k, ten_UpdatedAt := now\<rparr>"
  have "ten_ID t = i"
    using s by (auto simp: memory_ok_def intro: unique_hashes_ID)
  then have "unique_hashes ((map_of s)(i \<mapsto> ?t))"
    using s fresh by (intro unique_hashes_upd) (auto simp: memory_ok_def)
  then show "\<exists>s' u. memory_RotateKey sha rnd now i s = (Inr k, s') \<and> memory_ok s' \<and>
           map_of s' = (map_of s)(i \<mapsto> t\<lparr>ten_APIKeyHash := sha k, ten_UpdatedAt := u\<rparr>)"
    using s key by (auto simp: memory_RotateKey_def HashAPIKey_def memory_ok_def map_of_update)
next
  fix rnd i s k s'
  assume "memory_RotateKey sha rnd now i s = (Inr k, s')" and "memory_ok s"
  then show "NewAPIKey rnd = Inr k \<and> (\<exists>t. map_of s i = Some t \<and> ten_Status t = ''active'')"
    by (auto simp: memory_RotateKey_def memory_ok_def split: sum.splits option.splits)
next
  fix rnd i s e s'
  assume "memory_RotateKey sha rnd now i s = (Inl e, s')"
  then show "s' = s"
    by (auto simp: memory_RotateKey_def split: sum.splits option.splits)
qed (use assms in \<open>auto simp: memory_ok_def memory_Authenticate_iff\<close>)

interpretation memory_tenants: tenant_store sha map_of memory_ok
  "memory_Authenticate sha (\<lambda>m. m)" "\<lambda>rnd. memory_RotateKey sha rnd now" for sha now
  by (rule memory_tenant_store) (simp add: map_order_def)

section \<open>Bounds of the cache\<close>

lemma cache_evict_room:
  assumes "map_order perm" and "length c \<le> maxCachedKeys"
  shows "length (cache_evict perm c) < maxCachedKeys"
proof (cases "maxCachedKeys \<le> length c")
  case True
  then have "c \<noteq> []" by (auto simp: maxCachedKeys_def)
  then obtain k v xs where p: "perm c = (k, v) # xs"
    using map_order_Nil [OF assms(1), of c] by (cases "perm c") auto
  then have "(k, v) \<in> set c"
    using map_order_set [OF assms(1), of c] by (metis list.set_intros(1))
  then have "length (AList.delete k c) < length c"
    by (intro length_delete_lt) force
  with True p assms(2) show ?thesis by (simp add: cache_evict_def)
qed (simp add: cache_evict_def)

lemma cache_insert_bound:
  assumes "map_order perm" and "length c \<le> maxCachedKeys"
  shows "length (cache_insert perm ttl now ck t c) \<le> maxCachedKeys"
proof -
  let ?c = "cache_evict perm (filter (\<lambda>(k, i). now < ct_expires i) c)"
  have "length ?c < maxCachedKeys"
    using assms by (intro cache_evict_room) (auto intro: le_trans [OF length_filter_le])
  then show ?thesis
    using length_update_le [of ck "\<lparr>ct_tenant = t, ct_expires = time_Add now ttl\<rparr>" ?c]
    by (simp add: cache_insert_def)
qed

lemma cached_reach_bounded:
  assumes "map_order perm"
  shows "cached_reach sha perm table authenticate rot ttl s0 (s, c) \<Longrightarrow> length c \<le> maxCachedKeys"
proof (induction "(s, c)" arbitrary: s c rule: cached_reach.induct)
  case init
  then show ?case by simp
next
  case (auth s c now key)
  have "length (cache_forget (sha key) c) \<le> maxCachedKeys"
    using auth by (auto simp: cache_forget_def intro: le_trans [OF length_delete_le])
  with auth show ?case
    by (auto simp: cached_Authenticate_def Let_def intro!: cache_insert_bound [OF assms]
        split: option.splits sum.splits)
next
  case (rotated s c rnd i r s' c')
  then show ?case
    by (auto simp: cached_RotateKey_def cache_purge_def intro: le_trans [OF length_filter_le]
        split: prod.splits sum.splits)
qed

section \<open>Properties\<close>

text \<open>Evaluation of issued keys on concrete random bytes.\<close>

lemmas key_eval = NewAPIKey_def b64_def base64url_alphabet_def Let_def

text \<open>
  Every API key the system issues is read back by \<open>Bearer\<close> from the header value
  \<open>Bearer <key>\<close>: base64url text has no white space, so the header splits into two fields.
\<close>

lemma bearer_issued_key: "NewAPIKey rnd = Inr key \<Longrightarrow> Bearer (''Bearer '' @ key) = Some key"
proof -
  assume "NewAPIKey rnd = Inr key"
  then obtain b where key: "key = ''pulse_'' @ RawURLEncode b"
    by (auto simp: NewAPIKey_def split: option.splits)
  have "33 \<le> (of_char c :: nat) \<and> (of_char c :: nat) \<le> 126" if "c \<in> set key" for c
    using that key by (auto dest: RawURLEncode_ascii)
  from fields_from_word [of key "[]", OF this] key
  have f: "fields_from 0 [] key = [key]" by simp
  have "fields_from 0 [] (''Bearer '' @ key) = ''Bearer'' # fields_from 0 [] key"
    by (simp add: space_at_def space_encodings_def)
  moreover have "EqualFold ''Bearer'' ''bearer''"
    by code_simp
  ultimately show ?thesis
    using f key by (simp add: Bearer_def Fields_def)
qed
lemma bearer_issued_key_witness:
  "Bearer (''Bearer '' @ ''pulse_QUJD'') = Some ''pulse_QUJD''"
proof -
  have "NewAPIKey (Some ''ABC'') = Inr ''pulse_QUJD''" by (simp add: key_eval)
  then show ?thesis by (rule bearer_issued_key)
qed

text \<open>
  \<open>MemoryStore.Create\<close> followed by \<open>Authenticate\<close> with the returned key yields the
  created tenant, whatever order the map is ranged in; the store keeps the hash of the key,
  and its invariant (distinct IDs and hashes, all tenants active) is preserved.
\<close>

lemma memory_create_authenticate:
  assumes "map_order perm" and "memory_ok s"
    and "memory_Create sha rnd1 rnd2 now name s = (Inr (t, key), s')"
    and "fresh_hash (sha key) (map_of s)"
  shows "memory_Authenticate sha perm s' key = Inr t \<and> ten_APIKeyHash t = sha key \<and> memory_ok s'"
proof -
  have t: "s' = AList.update (ten_ID t) t s" "ten_APIKeyHash t = sha key" "ten_Status t = ''active''"
    using assms(3) by (auto simp: memory_Create_def HashAPIKey_def Let_def split: if_splits sum.splits)
  have ok: "memory_ok s'"
    using assms(2,4) t by (auto simp: memory_ok_def map_of_update intro!: unique_hashes_upd)
  moreover have "memory_Authenticate sha perm s' key = Inr t"
    unfolding memory_Authenticate_iff [OF assms(1) ok]
    using t by (intro exI [of _ "ten_ID t"]) (simp add: map_of_update)
  ultimately show ?thesis using t by simp
qed

definition wit_tenant :: tenant where
  "wit_tenant = \<lparr>ten_ID = ''ten_QUJD'', ten_Name = ''Acme'', ten_APIKeyHash = ''pulse_eHl6'',
     ten_Status = ''active'', ten_CreatedAt = 5, ten_UpdatedAt = 5\<rparr>"

lemma wit_tenant_created:
  "memory_Create (\<lambda>k. k) (Some ''xyz'') (Some ''ABC'') 5 ''Acme'' [] =
     (Inr (wit_tenant, ''pulse_eHl6''), [(''ten_QUJD'', wit_tenant)])"
proof -
  have "TrimSpace ''Acme'' \<noteq> []" by code_simp
  then show ?thesis by (simp add: memory_Create_def wit_tenant_def HashAPIKey_def TrimPrefix_def key_eval)
qed

lemma wit_store_ok: "memory_ok [(''ten_QUJD'', wit_tenant)]"
  by (auto simp: memory_ok_def gomap_ok_def unique_hashes_def wit_tenant_def)

lemma memory_create_authenticate_witness:
  "memory_Authenticate (\<lambda>k. k) rev [(''ten_QUJD'', wit_tenant)] ''pulse_eHl6'' = Inr wit_tenant"
  using memory_create_authenticate [OF _ _ wit_tenant_created, of rev]
  by (simp add: map_order_def memory_ok_def unique_hashes_def fresh_hash_def)

text \<open>
  \<open>MemoryStore.RotateKey\<close> called for the tenant a key authenticates returns a new key,
  after which the old key is refused and the new one authenticates the same tenant.
\<close>

lemma memory_rotate_swaps_keys:
  assumes "map_order perm" and "memory_ok s" and "memory_Authenticate sha perm s k0 = Inr t"
    and "NewAPIKey rnd = Inr k" and "fresh_hash (sha k) (map_of s)"
  shows "\<exists>s' t' e. memory_RotateKey sha rnd now (ten_ID t) s = (Inr k, s') \<and> memory_ok s' \<and>
           memory_Authenticate sha perm s' k0 = Inl e \<and>
           memory_Authenticate sha perm s' k = Inr t' \<and> ten_ID t' = ten_ID t"
  using tenant_store.rotate_swaps_keys [OF memory_tenant_store [OF assms(1), of sha now] assms(2-5)]
  by blast

lemma memory_rotate_swaps_keys_witness:
  "\<exists>s' t' e. memory_RotateKey (\<lambda>k. k) (Some ''new'') 9 ''ten_QUJD'' [(''ten_QUJD'', wit_tenant)]
       = (Inr ''pulse_bmV3'', s') \<and> memory_ok s' \<and>
     memory_Authenticate (\<lambda>k. k) rev s' ''pulse_eHl6'' = Inl e \<and>
     memory_Authenticate (\<lambda>k. k) rev s' ''pulse_bmV3'' = Inr t' \<and> ten_ID t' = ''ten_QUJD''"
proof -
  have "memory_Authenticate (\<lambda>k. k) rev [(''ten_QUJD'', wit_tenant)] ''pulse_eHl6'' = Inr wit_tenant"
    by code_simp
  moreover have "NewAPIKey (Some ''new'') = Inr ''pulse_bmV3''" by (simp add: key_eval)
  moreover have "fresh_hash ''pulse_bmV3'' (map_of [(''ten_QUJD'', wit_tenant)])"
    by (simp add: fresh_hash_def wit_tenant_def)
  moreover have "map_order (rev :: memory_store \<Rightarrow> _)" by (simp add: map_order_def)
  ultimately show ?thesis
    using memory_rotate_swaps_keys [OF _ wit_store_ok, of rev "\<lambda>k. k" "''pulse_eHl6''" wit_tenant
        "Some ''new''" "''pulse_bmV3''" 9]
    by (simp add: wit_tenant_def)
qed

text \<open>
  The authentication cache is invisible to one process. In every state reached from an
  empty cache by authentications and rotations that run one after another,
  \<open>CachedStore.Authenticate\<close> returns exactly what the store behind it returns: no rotated
  key is served from the cache. The store here is the in-memory one; \<open>now\<close> and the map
  orders are arbitrary.
\<close>

lemma cached_store_transparent:
  assumes "map_order perm" and "memory_ok s0"
    and "cached_reach sha cperm map_of (memory_Authenticate sha perm)
           (\<lambda>rnd. memory_RotateKey sha rnd rnow) ttl s0 (s, c)"
  shows "fst (cached_Authenticate sha cperm (memory_Authenticate sha perm s) ttl now key c) =
           memory_Authenticate sha perm s key"
proof -
  note ts = memory_tenant_store [OF assms(1), of sha rnow]
  from tenant_store.cached_reach_agrees [OF ts assms(3,2)]
  have "memory_ok s" and "cache_agrees (map_of s) c" by blast+
  then show ?thesis by (rule tenant_store.cached_Authenticate_transparent(1) [OF ts])
qed

lemma cached_store_transparent_witness:
  "fst (cached_Authenticate (\<lambda>k. k) rev (memory_Authenticate (\<lambda>k. k) rev [(''ten_QUJD'', wit_tenant)])
          60 8 ''pulse_eHl6''
          (snd (cached_Authenticate (\<lambda>k. k) rev (memory_Authenticate (\<lambda>k. k) rev [(''ten_QUJD'', wit_tenant)])
             60 7 ''pulse_eHl6'' []))) = Inr wit_tenant"
proof -
  let ?s = "[(''ten_QUJD'', wit_tenant)]"
  have "map_order (rev :: memory_store \<Rightarrow> _)" by (simp add: map_order_def)
  moreover have "cached_reach (\<lambda>k. k) rev map_of (memory_Authenticate (\<lambda>k. k) rev)
      (\<lambda>rnd. memory_RotateKey (\<lambda>k. k) rnd 0) 60 ?s
      (?s, snd (cached_Authenticate (\<lambda>k. k) rev (memory_Authenticate (\<lambda>k. k) rev ?s) 60 7 ''pulse_eHl6'' []))"
    by (rule cached_reach.auth [OF cached_reach.init])
  moreover have "memory_Authenticate (\<lambda>k. k) rev ?s ''pulse_eHl6'' = Inr wit_tenant" by code_simp
  ultimately show ?thesis
    using cached_store_transparent [OF _ wit_store_ok, of rev "\<lambda>k. k" rev 0 60 ?s _ 8 "''pulse_eHl6''"]
    by simp
qed

text \<open>
  The cache never holds more than 4096 keys, in every state reached by any sequence of
  authentications and rotations over any store: expired entries are dropped and, when the
  cache is still full, one entry is evicted before a new one is stored.
\<close>

lemma cache_never_exceeds_limit:
  assumes "map_order perm" and "cached_reach sha perm table authenticate rot ttl s0 (s, c)"
  shows "length c \<le> maxCachedKeys \<and>
         length (snd (cached_Authenticate sha perm inner ttl now key c)) \<le> 4096"
proof -
  have c: "length c \<le> maxCachedKeys" using cached_reach_bounded [OF assms] .
  have "length (cache_forget (sha key) c) \<le> maxCachedKeys"
    using c by (auto simp: cache_forget_def intro: le_trans [OF length_delete_le])
  with c have "length (snd (cached_Authenticate sha perm inner ttl now key c)) \<le> maxCachedKeys"
    by (auto simp: cached_Authenticate_def Let_def intro!: cache_insert_bound [OF assms(1)]
        split: option.splits sum.splits)
  with c show ?thesis by (simp add: maxCachedKeys_def)
qed

lemma cache_never_exceeds_limit_witness:
  "length ([] :: cache) \<le> maxCachedKeys \<and>
   length (snd (cached_Authenticate (\<lambda>k. k) (\<lambda>c. c) (\<lambda>k. Inr wit_tenant) 60 7 ''k'' [])) \<le> 4096"
  by (rule cache_never_exceeds_limit
      [where table = "\<lambda>_ _. None" and authenticate = "\<lambda>_ _. Inl ErrUnauthorized"
         and rot = "\<lambda>_ _ s. (Inl ErrTenantNotFound, s)" and s = "()" and ?s0.0 = "()"])
    (auto simp: map_order_def intro: cached_reach.init)

text \<open>
  C39: two overlapping calls can defeat a rotation. If \<open>Authenticate\<close> has missed the cache
  and read the tenant from the store, and \<open>RotateKey\<close> then runs to completion before the
  first call stores its entry, the rotated key is served from the cache until the entry
  expires, although the store refuses it.
\<close>

lemma rotation_race_serves_old_key:
  assumes "map_order perm" and "memory_ok s" and "memory_Authenticate sha perm s k0 = Inr t"
    and "NewAPIKey rnd = Inr k" and "fresh_hash (sha k) (map_of s)"
    and "now2 < time_Add now ttl"
  shows "cache_lookup now (sha k0) [] = None \<and>
         (\<exists>s' c' e. cached_RotateKey (\<lambda>i. memory_RotateKey sha rnd rnow i) (ten_ID t) (s, []) = (Inr k, s', c') \<and>
           memory_Authenticate sha perm s' k0 = Inl e \<and>
           fst (cached_Authenticate sha cperm (memory_Authenticate sha perm s') ttl now2 k0
                  (cache_insert cperm ttl now (sha k0) t c')) = Inr t)"
  using tenant_store.stale_insert [OF memory_tenant_store [OF assms(1), of sha rnow] assms(2-6),
      of cperm cperm]
  by (simp add: cache_lookup_def)

lemma rotation_race_serves_old_key_witness:
  "\<exists>s' c' e. cached_RotateKey (\<lambda>i. memory_RotateKey (\<lambda>k. k) (Some ''new'') 9 i) ''ten_QUJD''
       ([(''ten_QUJD'', wit_tenant)], []) = (Inr ''pulse_bmV3'', s', c') \<and>
     memory_Authenticate (\<lambda>k. k) rev s' ''pulse_eHl6'' = Inl e \<and>
     fst (cached_Authenticate (\<lambda>k. k) rev (memory_Authenticate (\<lambda>k. k) rev s') 60 20 ''pulse_eHl6''
       (cache_insert rev 60 8 ''pulse_eHl6'' wit_tenant c')) = Inr wit_tenant"
proof -
  have "memory_Authenticate (\<lambda>k. k) rev [(''ten_QUJD'', wit_tenant)] ''pulse_eHl6'' = Inr wit_tenant"
    by code_simp
  moreover have "NewAPIKey (Some ''new'') = Inr ''pulse_bmV3''" by (simp add: key_eval)
  moreover have "fresh_hash ''pulse_bmV3'' (map_of [(''ten_QUJD'', wit_tenant)])"
    by (simp add: fresh_hash_def wit_tenant_def)
  moreover have "map_order (rev :: memory_store \<Rightarrow> _)" by (simp add: map_order_def)
  ultimately show ?thesis
    using rotation_race_serves_old_key [OF _ wit_store_ok, of rev "\<lambda>k. k" "''pulse_eHl6''" wit_tenant
        "Some ''new''" "''pulse_bmV3''" 20 8 60 9 rev]
    by (simp add: wit_tenant_def time_Add_def)
qed

end
