(* ===== verification/Persistence.thy ===== *)
theory Persistence
  imports Worker_Handlers Auth
begin

text \<open>
  \<open>internal/persistence/postgres.go\<close>: the PostgreSQL store of tenants, events, subscriptions
  and delivery claims, on the schema of \<open>migrations/001_initial.sql\<close>.

  A \<open>database\<close> holds the four tables with the columns the statements use. Each SQL statement
  of the source is a function of the database that returns its result or its error; a
  statement that fails changes nothing. The constraints of the schema are part of the
  statements: primary and unique keys (SQLSTATE 23505), foreign keys (23503), the check on
  the tenant's name (23514). Which Go strings PostgreSQL takes as \<open>TEXT\<close>, and what row it
  stores for an event (its \<open>JSONB\<close> and \<open>TIMESTAMPTZ\<close> values) or with which SQLSTATE it
  refuses it, are parameters (\<open>pg_env\<close>); a refused value is reported before a constraint.
  \<open>now\<close> is the transaction's \<open>now()\<close>.

  Every statement runs under a \<open>fault\<close>: it may run normally, not reach the server, or run
  with its reply lost, in which case the caller sees an error although the statement took
  effect. The pool itself (\<open>NewPostgres\<close>, \<open>Close\<close>, \<open>Ready\<close>) only calls the driver.
\<close>

named_theorems pg_defs "definitions of the statements and operations of the store"

section \<open>Tables, errors, statements\<close>

record claim_row =
  cr_status :: delivery_status
  cr_lease_until :: "instant option"
  cr_claimed_at :: instant
  cr_completed_at :: "instant option"

record database =
  db_tenants :: "tenant gomap"
  db_events :: "event list"
  db_subs :: "subscription gomap"
  db_claims :: "(delivery_claim \<times> claim_row) list"

datatype pg_error = PgError bytes | ErrNoRows | ErrConn | ErrParams

record pg_env =
  pe_text :: "bytes \<Rightarrow> bool"
  pe_row :: "event \<Rightarrow> bytes + event"

type_synonym 'r statement = "database \<Rightarrow> (pg_error + 'r) \<times> database"

definition pg_exec :: "fault \<Rightarrow> 'r statement \<Rightarrow> 'r statement" where
  "pg_exec fault stmt db =
     (case fault of
        Fine \<Rightarrow> stmt db
      | NotRun \<Rightarrow> (Inl ErrConn, db)
      | ReplyLost \<Rightarrow> (Inl ErrConn, snd (stmt db)))"

definition bad_text :: "pg_env \<Rightarrow> bytes list \<Rightarrow> bool" where
  "bad_text env xs \<longleftrightarrow> list_ex (\<lambda>x. \<not> pe_text env x) xs"

fun store_error :: "pg_error \<Rightarrow> auth_error" where
  "store_error (PgError code) = ErrStore code"
| "store_error ErrNoRows = ErrStore ''no rows''"
| "store_error ErrConn = ErrStore ''connection''"
| "store_error ErrParams = ErrStore ''parameters''"

fun go_of_pg :: "pg_error \<Rightarrow> go_error" where
  "go_of_pg (PgError code) = Opaque code"
| "go_of_pg ErrNoRows = Opaque ''no rows''"
| "go_of_pg ErrConn = Opaque ''connection''"
| "go_of_pg ErrParams = Opaque ''parameters''"

section \<open>Tenants\<close>

text \<open>
  \<open>length(trim(name))\<close>: \<open>trim\<close> removes spaces only and \<open>length\<close> counts characters, that is
  the bytes of a UTF-8 text that do not continue a character.
\<close>

definition pg_trim :: "bytes \<Rightarrow> bytes" where
  "pg_trim s = Trim s (CHR 0x20)"

definition pg_length :: "bytes \<Rightarrow> nat" where
  "pg_length s = length (filter (\<lambda>c. \<not> byte_in 0x80 0xBF c) s)"

definition name_check :: "bytes \<Rightarrow> bool" where
  "name_check name \<longleftrightarrow> 1 \<le> pg_length (pg_trim name) \<and> pg_length (pg_trim name) \<le> 200"

definition hash_taken :: "bytes \<Rightarrow> bytes \<Rightarrow> database \<Rightarrow> bool" where
  "hash_taken tenantID hash db \<longleftrightarrow> list_ex (\<lambda>(j, u). j \<noteq> tenantID \<and> ten_APIKeyHash u = hash) (db_tenants db)"

definition sql_insert_tenant :: "pg_env \<Rightarrow> instant \<Rightarrow> bytes \<Rightarrow> bytes \<Rightarrow> bytes \<Rightarrow> tenant statement" where
  "sql_insert_tenant env now ident name hash db =
     (if bad_text env [ident, name] then (Inl (PgError ''22021''), db)
      else if \<not> name_check name then (Inl (PgError ''23514''), db)
      else if map_of (db_tenants db) ident \<noteq> None \<or> hash_taken ident hash db then (Inl (PgError ''23505''), db)
      else
        let t = \<lparr>ten_ID = ident, ten_Name = name, ten_APIKeyHash = hash, ten_Status = ''active'',
                 ten_CreatedAt = now, ten_UpdatedAt = now\<rparr>
        in (Inr t, db\<lparr>db_tenants := AList.update ident t (db_tenants db)\<rparr>))"

definition postgres_Create ::
  "pg_env \<Rightarrow> (bytes \<Rightarrow> bytes) \<Rightarrow> fault \<Rightarrow> bytes option \<Rightarrow> instant \<Rightarrow> bytes \<Rightarrow> database
     \<Rightarrow> (auth_error + tenant \<times> bytes) \<times> database" where
  "postgres_Create env sha fault rnd now name db =
     (case NewAPIKey rnd of
        Inl err \<Rightarrow> (Inl err, db)
      | Inr key \<Rightarrow>
          let ident = ''ten_'' @ drop (length key - 16) key in
          (case pg_exec fault (sql_insert_tenant env now ident name (HashAPIKey sha key)) db of
             (Inl err, db') \<Rightarrow> (Inl (store_error err), db')
           | (Inr t, db') \<Rightarrow> (Inr (t, key), db')))"

definition sql_update_key :: "pg_env \<Rightarrow> instant \<Rightarrow> bytes \<Rightarrow> bytes \<Rightarrow> nat statement" where
  "sql_update_key env now hash tenantID db =
     (if bad_text env [tenantID] then (Inl (PgError ''22021''), db)
      else case map_of (db_tenants db) tenantID of
        None \<Rightarrow> (Inr 0, db)
      | Some t \<Rightarrow>
          if ten_Status t \<noteq> ''active'' then (Inr 0, db)
          else if hash_taken tenantID hash db then (Inl (PgError ''23505''), db)
          else (Inr 1, db\<lparr>db_tenants := AList.update tenantID
                  (t\<lparr>ten_APIKeyHash := hash, ten_UpdatedAt := now\<rparr>) (db_tenants db)\<rparr>))"

definition postgres_RotateKey ::
  "pg_env \<Rightarrow> (bytes \<Rightarrow> bytes) \<Rightarrow> fault \<Rightarrow> bytes option \<Rightarrow> instant \<Rightarrow> bytes \<Rightarrow> database
     \<Rightarrow> (auth_error + bytes) \<times> database" where
  "postgres_RotateKey env sha fault rnd now tenantID db =
     (case NewAPIKey rnd of
        Inl err \<Rightarrow> (Inl err, db)
      | Inr key \<Rightarrow>
          (case pg_exec fault (sql_update_key env now (HashAPIKey sha key) tenantID) db of
             (Inl err, db') \<Rightarrow> (Inl (store_error err), db')
           | (Inr n, db') \<Rightarrow> (if n \<noteq> 1 then Inl ErrTenantNotFound else Inr key, db')))"

definition sql_select_by_hash :: "bytes \<Rightarrow> tenant statement" where
  "sql_select_by_hash hash db =
     (case filter (\<lambda>(i, t). ten_Status t = ''active'' \<and> ten_APIKeyHash t = hash) (db_tenants db) of
        [] \<Rightarrow> (Inl ErrNoRows, db)
      | (i, t) # _ \<Rightarrow> (Inr t, db))"

definition postgres_Authenticate ::
  "(bytes \<Rightarrow> bytes) \<Rightarrow> fault \<Rightarrow> database \<Rightarrow> bytes \<Rightarrow> auth_error + tenant" where
  "postgres_Authenticate sha fault db key =
     (case fst (pg_exec fault (sql_select_by_hash (HashAPIKey sha key)) db) of
        Inl ErrNoRows \<Rightarrow> Inl ErrUnauthorized
      | Inl err \<Rightarrow> Inl (store_error err)
      | Inr t \<Rightarrow> Inr t)"

definition sql_select_tenant :: "pg_env \<Rightarrow> bytes \<Rightarrow> tenant statement" where
  "sql_select_tenant env tenantID db =
     (if bad_text env [tenantID] then (Inl (PgError ''22021''), db)
      else case map_of (db_tenants db) tenantID of None \<Rightarrow> (Inl ErrNoRows, db) | Some t \<Rightarrow> (Inr t, db))"

definition postgres_Get :: "pg_env \<Rightarrow> fault \<Rightarrow> database \<Rightarrow> bytes \<Rightarrow> auth_error + tenant" where
  "postgres_Get env fault db tenantID =
     (case fst (pg_exec fault (sql_select_tenant env tenantID) db) of
        Inl ErrNoRows \<Rightarrow> Inl ErrTenantNotFound
      | Inl err \<Rightarrow> Inl (store_error err)
      | Inr t \<Rightarrow> Inr t)"

section \<open>Events\<close>

definition row_key :: "event \<Rightarrow> bytes \<times> bytes" where
  "row_key e = (TenantID e, EventID e)"

fun encode_rows :: "(event \<Rightarrow> bytes + event) \<Rightarrow> event list \<Rightarrow> bytes + event list" where
  "encode_rows enc [] = Inr []"
| "encode_rows enc (e # es) =
     (case enc e of
        Inl code \<Rightarrow> Inl code
      | Inr r \<Rightarrow> (case encode_rows enc es of Inl code \<Rightarrow> Inl code | Inr rs \<Rightarrow> Inr (r # rs)))"

text \<open>\<open>ON CONFLICT(tenant_id,event_id) DO NOTHING\<close>: the rows that are inserted, one after another.\<close>

fun new_rows :: "event list \<Rightarrow> event list \<Rightarrow> event list" where
  "new_rows old [] = []"
| "new_rows old (r # rs) =
     (if row_key r \<in> set (map row_key old) then new_rows old rs else r # new_rows (old @ [r]) rs)"

definition tenants_exist :: "database \<Rightarrow> event list \<Rightarrow> bool" where
  "tenants_exist db rows \<longleftrightarrow> list_all (\<lambda>r. map_of (db_tenants db) (TenantID r) \<noteq> None) rows"

definition sql_insert_events :: "pg_env \<Rightarrow> event list \<Rightarrow> nat statement" where
  "sql_insert_events env es db =
     (case encode_rows (pe_row env) es of
        Inl code \<Rightarrow> (Inl (PgError code), db)
      | Inr rows \<Rightarrow>
          let new = new_rows (db_events db) rows in
          if tenants_exist db new then (Inr (length new), db\<lparr>db_events := db_events db @ new\<rparr>)
          else (Inl (PgError ''23503''), db))"

definition sql_copy_events :: "pg_env \<Rightarrow> event list \<Rightarrow> nat statement" where
  "sql_copy_events env es db =
     (case encode_rows (pe_row env) es of
        Inl code \<Rightarrow> (Inl (PgError code), db)
      | Inr rows \<Rightarrow>
          if \<not> distinct (map row_key (db_events db @ rows)) then (Inl (PgError ''23505''), db)
          else if \<not> tenants_exist db rows then (Inl (PgError ''23503''), db)
          else (Inr (length rows), db\<lparr>db_events := db_events db @ rows\<rparr>))"

definition SaveEvent :: "pg_env \<Rightarrow> fault \<Rightarrow> event \<Rightarrow> database \<Rightarrow> (bool \<times> pg_error option) \<times> database" where
  "SaveEvent env fault event db =
     (case pg_exec fault (sql_insert_events env [event]) db of
        (Inl err, db') \<Rightarrow> ((False, Some err), db')
      | (Inr n, db') \<Rightarrow> ((n = 1, None), db'))"

text \<open>
  The statement that \<open>saveEventsInsert\<close> builds: one row of five placeholders per event, and
  the arguments they are bound to. The protocol takes at most 65535 parameters.
\<close>

datatype pg_value = Text bytes | Time instant | Json bytes

definition value_row :: "nat \<Rightarrow> nat list" where
  "value_row i = (let base = i * 5 + 1 in [base, base + 1, base + 2, base + 3, base + 4])"

definition event_args :: "event \<Rightarrow> pg_value list" where
  "event_args e = [Text (TenantID e), Text (EventID e), Text (Type e), Time (Timestamp e), Json (Payload e)]"

definition bind_row :: "pg_value list \<Rightarrow> nat list \<Rightarrow> event option" where
  "bind_row args ps =
     (case map (\<lambda>p. args ! (p - 1)) ps of
        [Text a, Text b, Text c, Time t, Json p] \<Rightarrow>
          Some \<lparr>TenantID = a, EventID = b, Type = c, Timestamp = t, Payload = p\<rparr>
      | _ \<Rightarrow> None)"

definition sql_insert_values :: "pg_env \<Rightarrow> nat list list \<Rightarrow> pg_value list \<Rightarrow> nat statement" where
  "sql_insert_values env rows args db =
     (if 65535 < length args then (Inl ErrParams, db)
      else case those (map (bind_row args) rows) of
        None \<Rightarrow> (Inl (PgError ''42804''), db)
      | Some es \<Rightarrow> sql_insert_events env es db)"

definition saveEventsInsert :: "pg_env \<Rightarrow> fault \<Rightarrow> event list \<Rightarrow> database \<Rightarrow> pg_error option \<times> database" where
  "saveEventsInsert env fault batch db =
     (let rows = map value_row [0..<length batch];
          args = concat (map event_args batch) in
      case pg_exec fault (sql_insert_values env rows args) db of
        (Inl err, db') \<Rightarrow> (Some err, db')
      | (Inr n, db') \<Rightarrow> (None, db'))"

definition SaveEvents ::
  "pg_env \<Rightarrow> fault \<Rightarrow> fault \<Rightarrow> event list \<Rightarrow> database \<Rightarrow> pg_error option \<times> database" where
  "SaveEvents env fault1 fault2 batch db =
     (if length batch = 0 then (None, db)
      else case pg_exec fault1 (sql_copy_events env batch) db of
        (Inr n, db') \<Rightarrow> (None, db')
      | (Inl err, db') \<Rightarrow>
          if err \<noteq> PgError ''23505'' then (Some err, db')
          else saveEventsInsert env fault2 batch db')"

section \<open>Configuration of the pool\<close>

definition int32Env :: "(bytes \<Rightarrow> bytes) \<Rightarrow> bytes \<Rightarrow> int \<Rightarrow> int" where
  "int32Env getenv key fallback =
     (case parse_int 32 (getenv key) of
        None \<Rightarrow> fallback
      | Some value \<Rightarrow> if value \<le> 0 then fallback else value)"

section \<open>Subscriptions\<close>

text \<open>
  \<open>INSERT\<close> leaves \<open>created_at\<close> and \<open>updated_at\<close> to their defaults; the function returns its
  argument. \<open>SELECT\<close> without \<open>ORDER BY\<close> returns its rows in some order \<open>perm\<close>.
\<close>

definition sql_insert_subscription :: "pg_env \<Rightarrow> instant \<Rightarrow> subscription \<Rightarrow> unit statement" where
  "sql_insert_subscription env now sub db =
     (if bad_text env [sub_ID sub, sub_TenantID sub, sub_EventType sub, sub_Endpoint sub] then (Inl (PgError ''22021''), db)
      else if map_of (db_subs db) (sub_ID sub) \<noteq> None then (Inl (PgError ''23505''), db)
      else if map_of (db_tenants db) (sub_TenantID sub) = None then (Inl (PgError ''23503''), db)
      else (Inr (), db\<lparr>db_subs := AList.update (sub_ID sub) (sub\<lparr>sub_CreatedAt := now, sub_UpdatedAt := now\<rparr>) (db_subs db)\<rparr>))"

definition postgres_CreateSubscription ::
  "pg_env \<Rightarrow> fault \<Rightarrow> instant \<Rightarrow> subscription \<Rightarrow> database \<Rightarrow> (subscription \<times> pg_error option) \<times> database" where
  "postgres_CreateSubscription env fault now sub db =
     (case pg_exec fault (sql_insert_subscription env now sub) db of
        (Inl err, db') \<Rightarrow> ((sub, Some err), db')
      | (Inr _, db') \<Rightarrow> ((sub, None), db'))"

definition sql_select_subscriptions :: "pg_env \<Rightarrow> bytes \<Rightarrow> bytes \<Rightarrow> subscription list statement" where
  "sql_select_subscriptions env tenantID eventType db =
     (if bad_text env [tenantID, eventType] then (Inl (PgError ''22021''), db)
      else (Inr (filter (\<lambda>s. sub_TenantID s = tenantID \<and> sub_EventType s = eventType \<and> sub_Enabled s)
                   (map snd (db_subs db))), db))"

definition postgres_ListSubscriptions ::
  "pg_env \<Rightarrow> fault \<Rightarrow> (subscription list \<Rightarrow> subscription list) \<Rightarrow> bytes \<Rightarrow> bytes \<Rightarrow> database
     \<Rightarrow> pg_error + subscription list" where
  "postgres_ListSubscriptions env fault perm tenantID eventType db =
     (case fst (pg_exec fault (sql_select_subscriptions env tenantID eventType) db) of
        Inl err \<Rightarrow> Inl err
      | Inr rows \<Rightarrow> Inr (perm rows))"

section \<open>Delivery claims\<close>

definition key_texts :: "delivery_claim \<Rightarrow> bytes list" where
  "key_texts k = [dc_tenantID k, dc_eventID k, dc_subscriptionID k]"

definition sql_claim :: "pg_env \<Rightarrow> instant \<Rightarrow> delivery_claim \<Rightarrow> nat statement" where
  "sql_claim env now k db =
     (if bad_text env (key_texts k) then (Inl (PgError ''22021''), db)
      else case map_of (db_claims db) k of
        None \<Rightarrow>
          if map_of (db_tenants db) (dc_tenantID k) = None \<or> map_of (db_subs db) (dc_subscriptionID k) = None
          then (Inl (PgError ''23503''), db)
          else (Inr 1, db\<lparr>db_claims := AList.update k
                  \<lparr>cr_status = deliveryProcessing, cr_lease_until = Some (time_Add now Hour),
                   cr_claimed_at = now, cr_completed_at = None\<rparr> (db_claims db)\<rparr>)
      | Some r \<Rightarrow>
          if cr_status r \<noteq> deliveryCompleted \<and>
             (case cr_lease_until r of None \<Rightarrow> True | Some l \<Rightarrow> l \<le> now)
          then (Inr 1, db\<lparr>db_claims := AList.update k
                  (r\<lparr>cr_status := deliveryProcessing, cr_lease_until := Some (time_Add now Hour),
                     cr_claimed_at := now, cr_completed_at := None\<rparr>) (db_claims db)\<rparr>)
          else (Inl ErrNoRows, db))"

definition postgres_ClaimDelivery ::
  "pg_env \<Rightarrow> fault \<Rightarrow> delivery_claim \<Rightarrow> instant \<Rightarrow> database \<Rightarrow> (bool \<times> pg_error option) \<times> database" where
  "postgres_ClaimDelivery env fault k now db =
     (case pg_exec fault (sql_claim env now k) db of
        (Inl ErrNoRows, db') \<Rightarrow> ((False, None), db')
      | (Inl err, db') \<Rightarrow> ((False, Some err), db')
      | (Inr claimed, db') \<Rightarrow> ((claimed = 1, None), db'))"

text \<open>
  \<open>UPDATE ... WHERE status='processing' AND lease_until > now()\<close>: a row without a lease does
  not satisfy the condition.
\<close>

definition sql_update_claim ::
  "pg_env \<Rightarrow> instant \<Rightarrow> (claim_row \<Rightarrow> claim_row) \<Rightarrow> delivery_claim \<Rightarrow> unit statement" where
  "sql_update_claim env now f k db =
     (if bad_text env (key_texts k) then (Inl (PgError ''22021''), db)
      else case map_of (db_claims db) k of
        None \<Rightarrow> (Inr (), db)
      | Some r \<Rightarrow>
          if cr_status r = deliveryProcessing \<and>
             (case cr_lease_until r of None \<Rightarrow> False | Some l \<Rightarrow> now < l)
          then (Inr (), db\<lparr>db_claims := AList.update k (f r) (db_claims db)\<rparr>)
          else (Inr (), db))"

definition postgres_CompleteDelivery ::
  "pg_env \<Rightarrow> fault \<Rightarrow> delivery_claim \<Rightarrow> instant \<Rightarrow> database \<Rightarrow> pg_error option \<times> database" where
  "postgres_CompleteDelivery env fault k now db =
     (case pg_exec fault (sql_update_claim env now
             (\<lambda>r. r\<lparr>cr_status := deliveryCompleted, cr_lease_until := None, cr_completed_at := Some now\<rparr>) k) db of
        (Inl err, db') \<Rightarrow> (Some err, db')
      | (Inr _, db') \<Rightarrow> (None, db'))"

definition postgres_ReleaseDelivery ::
  "pg_env \<Rightarrow> fault \<Rightarrow> delivery_claim \<Rightarrow> instant \<Rightarrow> database \<Rightarrow> pg_error option \<times> database" where
  "postgres_ReleaseDelivery env fault k now db =
     (case pg_exec fault (sql_update_claim env now
             (\<lambda>r. r\<lparr>cr_status := deliveryPending, cr_lease_until := None\<rparr>) k) db of
        (Inl err, db') \<Rightarrow> (Some err, db')
      | (Inr _, db') \<Rightarrow> (None, db'))"

lemmas [pg_defs] = sql_insert_tenant_def sql_update_key_def sql_select_by_hash_def sql_select_tenant_def
  sql_insert_events_def sql_copy_events_def sql_insert_subscription_def sql_select_subscriptions_def
  sql_claim_def sql_update_claim_def

section \<open>The invariant of the tables\<close>

definition known_key :: "pg_env \<Rightarrow> database \<Rightarrow> delivery_claim \<Rightarrow> bool" where
  "known_key env db k \<longleftrightarrow> \<not> bad_text env (key_texts k) \<and>
     map_of (db_tenants db) (dc_tenantID k) \<noteq> None \<and> map_of (db_subs db) (dc_subscriptionID k) \<noteq> None"

definition tenants_ok :: "pg_env \<Rightarrow> database \<Rightarrow> bool" where
  "tenants_ok env db \<longleftrightarrow> gomap_ok (db_tenants db) \<and> unique_hashes (map_of (db_tenants db)) \<and>
     (\<forall>i t. map_of (db_tenants db) i = Some t \<longrightarrow> pe_text env i)"

definition events_ok :: "database \<Rightarrow> bool" where
  "events_ok db \<longleftrightarrow> distinct (map row_key (db_events db)) \<and> tenants_exist db (db_events db)"

definition subs_ok :: "pg_env \<Rightarrow> database \<Rightarrow> bool" where
  "subs_ok env db \<longleftrightarrow> gomap_ok (db_subs db) \<and>
     (\<forall>i s. map_of (db_subs db) i = Some s \<longrightarrow>
        sub_ID s = i \<and> pe_text env i \<and> map_of (db_tenants db) (sub_TenantID s) \<noteq> None)"

definition claim_rows_ok :: "pg_env \<Rightarrow> database \<Rightarrow> bool" where
  "claim_rows_ok env db \<longleftrightarrow> distinct (map fst (db_claims db)) \<and>
     (\<forall>k r. map_of (db_claims db) k = Some r \<longrightarrow>
        (cr_status r = deliveryProcessing \<longleftrightarrow> cr_lease_until r \<noteq> None) \<and> known_key env db k)"

definition pg_ok :: "pg_env \<Rightarrow> database \<Rightarrow> bool" where
  "pg_ok env db \<longleftrightarrow> tenants_ok env db \<and> events_ok db \<and> subs_ok env db \<and> claim_rows_ok env db"

lemma pg_exec_ok: "(\<And>db. pg_ok env db \<Longrightarrow> pg_ok env (snd (stmt db))) \<Longrightarrow> pg_ok env db \<Longrightarrow> pg_ok env (snd (pg_exec fault stmt db))"
  by (cases fault) (simp_all add: pg_exec_def)

lemma hash_taken_iff:
  "gomap_ok (db_tenants db) \<Longrightarrow> hash_taken i h db \<longleftrightarrow>
     (\<exists>j u. j \<noteq> i \<and> map_of (db_tenants db) j = Some u \<and> ten_APIKeyHash u = h)"
  by (auto simp: hash_taken_def list_ex_iff gomap_in_set split: prod.splits)

text \<open>Adding or changing a tenant whose hash no other tenant has.\<close>

lemma pg_ok_put_tenant:
  assumes "pg_ok env db" "pe_text env i" "ten_ID t = i" "\<not> hash_taken i (ten_APIKeyHash t) db"
  shows "pg_ok env (db\<lparr>db_tenants := AList.update i t (db_tenants db)\<rparr>)"
proof -
  have g: "gomap_ok (db_tenants db)" and u: "unique_hashes (map_of (db_tenants db))"
    using assms(1) by (simp_all add: pg_ok_def tenants_ok_def)
  have free: "ten_APIKeyHash v \<noteq> ten_APIKeyHash t" if "j \<noteq> i" "map_of (db_tenants db) j = Some v" for j v
    using assms(4) that by (auto simp: hash_taken_iff [OF g])
  have "unique_hashes ((map_of (db_tenants db))(i \<mapsto> t))"
    using u free assms(3) unfolding unique_hashes_def by (auto split: if_splits) metis+
  then have "tenants_ok env (db\<lparr>db_tenants := AList.update i t (db_tenants db)\<rparr>)"
    using assms(1,2) by (auto simp: pg_ok_def tenants_ok_def map_of_update)
  moreover have "events_ok (db\<lparr>db_tenants := AList.update i t (db_tenants db)\<rparr>)"
    using assms(1) by (auto simp: pg_ok_def events_ok_def tenants_exist_def map_of_update list_all_iff)
  moreover have "subs_ok env (db\<lparr>db_tenants := AList.update i t (db_tenants db)\<rparr>)"
    using assms(1) by (auto simp: pg_ok_def subs_ok_def map_of_update)
  moreover have "claim_rows_ok env (db\<lparr>db_tenants := AList.update i t (db_tenants db)\<rparr>)"
    using assms(1) by (auto simp: pg_ok_def claim_rows_ok_def known_key_def map_of_update)
  ultimately show ?thesis by (simp add: pg_ok_def)
qed

lemma pg_ok_put_claim:
  assumes "pg_ok env db" "known_key env db k" "cr_status r = deliveryProcessing \<longleftrightarrow> cr_lease_until r \<noteq> None"
  shows "pg_ok env (db\<lparr>db_claims := AList.update k r (db_claims db)\<rparr>)"
proof -
  have "claim_rows_ok env (db\<lparr>db_claims := AList.update k r (db_claims db)\<rparr>)"
    using assms by (auto simp: pg_ok_def claim_rows_ok_def known_key_def map_of_update distinct_update)
  moreover have "tenants_ok env (db\<lparr>db_claims := c\<rparr>) = tenants_ok env db" "events_ok (db\<lparr>db_claims := c\<rparr>) = events_ok db"
    "subs_ok env (db\<lparr>db_claims := c\<rparr>) = subs_ok env db" for c
    by (simp_all add: tenants_ok_def events_ok_def subs_ok_def tenants_exist_def)
  ultimately show ?thesis using assms(1) by (simp add: pg_ok_def)
qed

lemma pg_ok_add_events:
  assumes "pg_ok env db" "distinct (map row_key (db_events db @ rows))" "tenants_exist db rows"
  shows "pg_ok env (db\<lparr>db_events := db_events db @ rows\<rparr>)"
  using assms
  by (auto simp: pg_ok_def tenants_ok_def events_ok_def subs_ok_def claim_rows_ok_def known_key_def tenants_exist_def)

lemma pg_ok_put_sub:
  assumes "pg_ok env db" "pe_text env (sub_ID sub)" "map_of (db_tenants db) (sub_TenantID sub) \<noteq> None"
  shows "pg_ok env (db\<lparr>db_subs := AList.update (sub_ID sub) sub (db_subs db)\<rparr>)"
proof -
  have "subs_ok env (db\<lparr>db_subs := AList.update (sub_ID sub) sub (db_subs db)\<rparr>)"
    using assms by (auto simp: pg_ok_def subs_ok_def map_of_update)
  moreover have "claim_rows_ok env (db\<lparr>db_subs := AList.update (sub_ID sub) sub (db_subs db)\<rparr>)"
    using assms by (auto simp: pg_ok_def claim_rows_ok_def known_key_def map_of_update)
  ultimately show ?thesis
    using assms(1) by (simp add: pg_ok_def tenants_ok_def events_ok_def tenants_exist_def)
qed

lemma bad_text_simps [simp]:
  "\<not> bad_text env []" "bad_text env (x # xs) \<longleftrightarrow> \<not> pe_text env x \<or> bad_text env xs"
  by (simp_all add: bad_text_def)

lemma sql_insert_tenant_ok: "pg_ok env db \<Longrightarrow> pg_ok env (snd (sql_insert_tenant env now i name h db))"
  by (simp add: sql_insert_tenant_def Let_def pg_ok_put_tenant)

lemma tenant_ID: "pg_ok env db \<Longrightarrow> map_of (db_tenants db) i = Some t \<Longrightarrow> ten_ID t = i \<and> pe_text env i"
  by (auto simp: pg_ok_def tenants_ok_def dest: unique_hashes_ID)

lemma sql_update_key_ok: "pg_ok env db \<Longrightarrow> pg_ok env (snd (sql_update_key env now h i db))"
  by (auto simp: sql_update_key_def tenant_ID intro!: pg_ok_put_tenant split: option.splits)

lemma sql_insert_subscription_ok: "pg_ok env db \<Longrightarrow> pg_ok env (snd (sql_insert_subscription env now sub db))"
  using pg_ok_put_sub [of env db "sub\<lparr>sub_CreatedAt := now, sub_UpdatedAt := now\<rparr>"]
  by (simp add: sql_insert_subscription_def)

lemma claim_row_known: "pg_ok env db \<Longrightarrow> map_of (db_claims db) k = Some r \<Longrightarrow> known_key env db k"
  by (auto simp: pg_ok_def claim_rows_ok_def)

lemma sql_claim_ok: "pg_ok env db \<Longrightarrow> pg_ok env (snd (sql_claim env now k db))"
  using claim_row_known [of env db k]
  by (auto simp: sql_claim_def known_key_def intro!: pg_ok_put_claim split: option.splits)

lemma sql_update_claim_ok:
  "pg_ok env db \<Longrightarrow> (\<And>r. cr_status (f r) = deliveryProcessing \<longleftrightarrow> cr_lease_until (f r) \<noteq> None) \<Longrightarrow>
     pg_ok env (snd (sql_update_claim env now f k db))"
  by (auto simp: sql_update_claim_def claim_row_known intro!: pg_ok_put_claim split: option.splits)

lemma new_rows_distinct: "distinct (map row_key old) \<Longrightarrow> distinct (map row_key (old @ new_rows old rs))"
proof (induction old rs rule: new_rows.induct)
  case (2 old r rs)
  then show ?case by (cases "row_key r \<in> set (map row_key old)") auto
qed simp

lemma sql_insert_events_ok: "pg_ok env db \<Longrightarrow> pg_ok env (snd (sql_insert_events env es db))"
  using new_rows_distinct [of "db_events db"]
  by (auto simp: sql_insert_events_def Let_def pg_ok_def [of env db] events_ok_def [of db]
      intro: pg_ok_add_events [unfolded pg_ok_def [of env db] events_ok_def [of db]] split: sum.splits)

lemma sql_copy_events_ok: "pg_ok env db \<Longrightarrow> pg_ok env (snd (sql_copy_events env es db))"
  by (auto simp: sql_copy_events_def intro: pg_ok_add_events split: sum.splits)

lemma sql_insert_values_ok: "pg_ok env db \<Longrightarrow> pg_ok env (snd (sql_insert_values env rows args db))"
  by (auto simp: sql_insert_values_def sql_insert_events_ok split: option.splits)

lemma SaveEvents_ok: "pg_ok env db \<Longrightarrow> pg_ok env (snd (SaveEvents env f1 f2 batch db))"
proof -
  assume ok: "pg_ok env db"
  let ?db = "snd (pg_exec f1 (sql_copy_events env batch) db)"
  have c: "pg_ok env ?db" by (rule pg_exec_ok [OF sql_copy_events_ok ok])
  have "pg_ok env (snd (saveEventsInsert env f2 batch ?db))"
    using pg_exec_ok [where stmt = "sql_insert_values env (map value_row [0..<length batch]) (concat (map event_args batch))"
        and fault = f2, OF sql_insert_values_ok c]
    by (auto simp: saveEventsInsert_def Let_def split: prod.splits sum.splits)
  then show ?thesis using ok c by (auto simp: SaveEvents_def split: prod.splits sum.splits)
qed

text \<open>The operations of the store as steps between databases, under any faults.\<close>

inductive pg_step :: "pg_env \<Rightarrow> (bytes \<Rightarrow> bytes) \<Rightarrow> database \<Rightarrow> database \<Rightarrow> bool" for env sha where
  create: "pg_step env sha db (snd (postgres_Create env sha f rnd now name db))"
| rotate_key: "pg_step env sha db (snd (postgres_RotateKey env sha f rnd now i db))"
| save_event: "pg_step env sha db (snd (SaveEvent env f e db))"
| save_events: "pg_step env sha db (snd (SaveEvents env f1 f2 batch db))"
| create_subscription: "pg_step env sha db (snd (postgres_CreateSubscription env f now sub db))"
| claim: "pg_step env sha db (snd (postgres_ClaimDelivery env f k now db))"
| complete: "pg_step env sha db (snd (postgres_CompleteDelivery env f k now db))"
| release: "pg_step env sha db (snd (postgres_ReleaseDelivery env f k now db))"

definition empty_db :: database where
  "empty_db = \<lparr>db_tenants = [], db_events = [], db_subs = [], db_claims = []\<rparr>"

inductive pg_reach :: "pg_env \<Rightarrow> (bytes \<Rightarrow> bytes) \<Rightarrow> database \<Rightarrow> bool" for env sha where
  empty: "pg_reach env sha empty_db"
| step: "pg_reach env sha db \<Longrightarrow> pg_step env sha db db' \<Longrightarrow> pg_reach env sha db'"

lemma snd_case_sum_prod: "snd (case p of (Inl e, d) \<Rightarrow> (f e, d) | (Inr x, d) \<Rightarrow> (g x, d)) = snd p"
  by (auto split: prod.splits sum.splits)

lemma postgres_ClaimDelivery_snd: "snd (postgres_ClaimDelivery env f k now db) = snd (pg_exec f (sql_claim env now k) db)"
  by (auto simp: postgres_ClaimDelivery_def split: prod.splits sum.splits pg_error.splits)

lemma pg_step_ok:
  assumes "pg_step env sha db db'" "pg_ok env db"
  shows "pg_ok env db'"
  using assms(1)
proof cases
  case create
  then show ?thesis
    using assms(2) by (auto simp: postgres_Create_def Let_def snd_case_sum_prod sql_insert_tenant_ok intro: pg_exec_ok split: sum.splits)
next
  case rotate_key
  then show ?thesis
    using assms(2) by (auto simp: postgres_RotateKey_def snd_case_sum_prod sql_update_key_ok intro: pg_exec_ok split: sum.splits)
next
  case save_event
  then show ?thesis
    using assms(2) by (auto simp: SaveEvent_def snd_case_sum_prod sql_insert_events_ok intro: pg_exec_ok)
next
  case save_events
  then show ?thesis using assms(2) by (simp add: SaveEvents_ok)
next
  case create_subscription
  then show ?thesis
    using assms(2) by (auto simp: postgres_CreateSubscription_def snd_case_sum_prod sql_insert_subscription_ok intro: pg_exec_ok)
next
  case claim
  then show ?thesis using assms(2) by (auto simp: postgres_ClaimDelivery_snd sql_claim_ok intro: pg_exec_ok)
next
  case complete
  then show ?thesis
    using assms(2) by (auto simp: postgres_CompleteDelivery_def snd_case_sum_prod intro!: pg_exec_ok sql_update_claim_ok)
next
  case release
  then show ?thesis
    using assms(2) by (auto simp: postgres_ReleaseDelivery_def snd_case_sum_prod intro!: pg_exec_ok sql_update_claim_ok)
qed

lemma pg_reach_ok: "pg_reach env sha db \<Longrightarrow> pg_ok env db"
proof (induction rule: pg_reach.induct)
  case empty
  then show ?case
    by (simp add: empty_db_def pg_ok_def tenants_ok_def events_ok_def subs_ok_def claim_rows_ok_def unique_hashes_def tenants_exist_def)
next
  case (step db db')
  then show ?case by (blast intro: pg_step_ok)
qed

section \<open>Delivery claims implement the contract\<close>

text \<open>
  The claim operations without faults, in the form of the contract: a claim that PostgreSQL
  refuses with an error is not granted.
\<close>

definition pg_claim :: "pg_env \<Rightarrow> delivery_claim \<Rightarrow> instant \<Rightarrow> database \<Rightarrow> bool \<times> database" where
  "pg_claim env k t db = (case postgres_ClaimDelivery env Fine k t db of ((b, err), db') \<Rightarrow> (b, db'))"

definition pg_complete :: "pg_env \<Rightarrow> delivery_claim \<Rightarrow> instant \<Rightarrow> database \<Rightarrow> database" where
  "pg_complete env k t db = snd (postgres_CompleteDelivery env Fine k t db)"

definition pg_release :: "pg_env \<Rightarrow> delivery_claim \<Rightarrow> instant \<Rightarrow> database \<Rightarrow> database" where
  "pg_release env k t db = snd (postgres_ReleaseDelivery env Fine k t db)"

definition pg_view :: "database \<Rightarrow> instant \<Rightarrow> delivery_claim \<Rightarrow> claim_view" where
  "pg_view db t k =
     (case map_of (db_claims db) k of
        None \<Rightarrow> Free
      | Some r \<Rightarrow>
          if cr_status r = deliveryCompleted then Done
          else case cr_lease_until r of None \<Rightarrow> Free | Some l \<Rightarrow> if t < l then Leased l else Free)"

lemma pg_claim_eq:
  "pg_claim env k t db =
     (if bad_text env (key_texts k) then (False, db)
      else case map_of (db_claims db) k of
        None \<Rightarrow> if known_key env db k then (True, db\<lparr>db_claims := AList.update k
            \<lparr>cr_status = deliveryProcessing, cr_lease_until = Some (t + deliveryLease),
             cr_claimed_at = t, cr_completed_at = None\<rparr> (db_claims db)\<rparr>) else (False, db)
      | Some r \<Rightarrow> if pg_view db t k = Free then (True, db\<lparr>db_claims := AList.update k
            (r\<lparr>cr_status := deliveryProcessing, cr_lease_until := Some (t + deliveryLease),
               cr_claimed_at := t, cr_completed_at := None\<rparr>) (db_claims db)\<rparr>) else (False, db))"
  by (auto simp: pg_claim_def postgres_ClaimDelivery_def pg_exec_def sql_claim_def known_key_def pg_view_def
      time_Add_def deliveryLease_def split: option.splits)

lemma pg_complete_eq:
  "pg_complete env k t db = snd (sql_update_claim env t
     (\<lambda>r. r\<lparr>cr_status := deliveryCompleted, cr_lease_until := None, cr_completed_at := Some t\<rparr>) k db)"
  by (simp add: pg_complete_def postgres_CompleteDelivery_def snd_case_sum_prod pg_exec_def)

lemma pg_release_eq:
  "pg_release env k t db = snd (sql_update_claim env t
     (\<lambda>r. r\<lparr>cr_status := deliveryPending, cr_lease_until := None\<rparr>) k db)"
  by (simp add: pg_release_def postgres_ReleaseDelivery_def snd_case_sum_prod pg_exec_def)

lemma pg_row_leased:
  assumes "pg_ok env db" "map_of (db_claims db) k = Some r"
  shows "(cr_status r = deliveryProcessing \<and> (case cr_lease_until r of None \<Rightarrow> False | Some l \<Rightarrow> t < l)) \<longleftrightarrow>
    (\<exists>l. pg_view db t k = Leased l)" "\<not> bad_text env (key_texts k)" "known_key env db k"
proof -
  have row: "cr_status r = deliveryProcessing \<longleftrightarrow> cr_lease_until r \<noteq> None"
    using assms unfolding pg_ok_def claim_rows_ok_def by blast
  show "known_key env db k" "\<not> bad_text env (key_texts k)"
    using claim_row_known [OF assms] by (simp_all add: known_key_def)
  show "(cr_status r = deliveryProcessing \<and> (case cr_lease_until r of None \<Rightarrow> False | Some l \<Rightarrow> t < l)) \<longleftrightarrow>
    (\<exists>l. pg_view db t k = Leased l)"
    using row assms(2) by (cases "cr_lease_until r"; cases "cr_status r") (auto simp: pg_view_def)
qed

lemma pg_update_claim_view:
  assumes "pg_ok env db"
  shows "pg_view (snd (sql_update_claim env t f k db)) t j =
    (if j = k \<and> (\<exists>l. pg_view db t k = Leased l)
     then pg_view (db\<lparr>db_claims := [(k, f (the (map_of (db_claims db) k)))]\<rparr>) t k else pg_view db t j)"
proof (cases "map_of (db_claims db) k")
  case None
  then show ?thesis by (simp add: sql_update_claim_def pg_view_def)
next
  case (Some r)
  note leased = pg_row_leased [OF assms Some]
  show ?thesis
    unfolding sql_update_claim_def Some option.case leased(1) using leased(2)
    by (cases "\<exists>l. pg_view db t k = Leased l")
      (simp_all add: pg_view_def [of "_\<lparr>db_claims := _\<rparr>"] pg_view_def [of db t j] map_of_update Some)
qed

lemma view_cases: "v \<noteq> Free \<longleftrightarrow> v = Done \<or> (\<exists>l. v = Leased l)" "v \<noteq> Done \<longleftrightarrow> v = Free \<or> (\<exists>l. v = Leased l)"
  by (cases v; simp)+

interpretation postgres_claims: delivery_claims "pg_claim env" "pg_complete env" "pg_release env" pg_view
  "known_key env" "pg_ok env" for env
proof
  fix db t u k
  show "t \<le> u \<Longrightarrow> pg_view db u k =
      (case pg_view db t k of Leased l \<Rightarrow> if u < l then Leased l else Free | v \<Rightarrow> v)"
    by (auto simp: pg_view_def split: option.splits)
next
  fix db t k
  assume ok: "pg_ok env db"
  show "fst (pg_claim env k t db) = (known_key env db k \<and> pg_view db t k = Free)"
    using claim_row_known [OF ok, of k]
    by (auto simp: pg_claim_eq known_key_def pg_view_def [of db t k] split: option.splits)
next
  fix db t k j
  assume ok: "pg_ok env db"
  show "pg_view (snd (pg_claim env k t db)) t j =
      (if j = k \<and> known_key env db k \<and> pg_view db t k = Free then Leased (t + deliveryLease) else pg_view db t j)"
    using claim_row_known [OF ok, of k]
    by (auto simp: pg_claim_eq known_key_def pg_view_def map_of_update deliveryLease_def Hour_def split: option.splits)
next
  fix db t k j
  assume ok: "pg_ok env db"
  show "pg_view (pg_complete env k t db) t j = (if j = k \<and> pg_view db t k \<noteq> Free then Done else pg_view db t j)"
    unfolding pg_complete_eq pg_update_claim_view [OF ok] view_cases by (auto simp: pg_view_def [of "_\<lparr>db_claims := _\<rparr>"])
next
  fix db t k j
  assume ok: "pg_ok env db"
  show "pg_view (pg_release env k t db) t j = (if j = k \<and> pg_view db t k \<noteq> Done then Free else pg_view db t j)"
    unfolding pg_release_eq pg_update_claim_view [OF ok] view_cases by (auto simp: pg_view_def [of "_\<lparr>db_claims := _\<rparr>"])
next
  fix db t k
  show "pg_ok env db \<Longrightarrow> pg_ok env (snd (pg_claim env k t db))"
    using sql_claim_ok [of env db t k]
    by (simp add: pg_claim_def split_beta postgres_ClaimDelivery_snd pg_exec_def)
next
  fix db t k
  show "pg_ok env db \<Longrightarrow> pg_ok env (pg_complete env k t db)" "pg_ok env db \<Longrightarrow> pg_ok env (pg_release env k t db)"
    by (simp_all add: pg_complete_eq pg_release_eq sql_update_claim_ok)
next
  fix db t k
  show "known_key env (snd (pg_claim env k t db)) = known_key env db"
    by (auto simp: pg_claim_eq known_key_def fun_eq_iff split: option.splits)
  show "known_key env (pg_complete env k t db) = known_key env db" "known_key env (pg_release env k t db) = known_key env db"
    by (auto simp: pg_complete_eq pg_release_eq sql_update_claim_def known_key_def fun_eq_iff split: option.splits)
qed

interpretation memory_postgres_claims: two_delivery_claims ClaimDelivery CompleteDelivery ReleaseDelivery memory_view
  "\<lambda>s k. True" claims_ok "pg_claim env" "pg_complete env" "pg_release env" pg_view "known_key env" "pg_ok env" for env
  by unfold_locales

section \<open>Tenants implement the store interface\<close>

lemma postgres_Authenticate_iff:
  assumes "pg_ok env db"
  shows "postgres_Authenticate sha Fine db k = Inr t \<longleftrightarrow>
    (\<exists>i. map_of (db_tenants db) i = Some t \<and> ten_Status t = ''active'' \<and> ten_APIKeyHash t = sha k)"
proof -
  define found where "found = filter (\<lambda>(i, t). ten_Status t = ''active'' \<and> ten_APIKeyHash t = sha k) (db_tenants db)"
  have mem: "(i, u) \<in> set found \<longleftrightarrow>
      map_of (db_tenants db) i = Some u \<and> ten_Status u = ''active'' \<and> ten_APIKeyHash u = sha k" for i u
    using assms by (auto simp: found_def pg_ok_def tenants_ok_def gomap_in_set)
  have one: "u = t" if "(i, u) \<in> set found" "(j, t) \<in> set found" for i j u
    using that assms unfolding mem pg_ok_def tenants_ok_def by (metis option.inject unique_hashesD)
  have eq: "postgres_Authenticate sha Fine db k = (case found of [] \<Rightarrow> Inl ErrUnauthorized | (i, t) # _ \<Rightarrow> Inr t)"
    by (auto simp: found_def postgres_Authenticate_def pg_exec_def sql_select_by_hash_def HashAPIKey_def split: list.splits)
  show ?thesis unfolding eq mem [symmetric]
  proof (cases found)
    case (Cons p ps)
    then obtain i u where "found = (i, u) # ps" by (cases p) simp
    then show "((case found of [] \<Rightarrow> Inl ErrUnauthorized | (i, t) # _ \<Rightarrow> Inr t) = Inr t) = (\<exists>i. (i, t) \<in> set found)"
      using one [of i u] by auto
  qed simp
qed

interpretation postgres_tenants: tenant_store sha "\<lambda>db. map_of (db_tenants db)" "pg_ok env"
  "postgres_Authenticate sha Fine" "\<lambda>rnd i db. postgres_RotateKey env sha Fine rnd now i db" for env sha now
proof
  fix db i t rnd k
  assume ok: "pg_ok env db" and t: "map_of (db_tenants db) i = Some t" "ten_Status t = ''active''"
    and key: "NewAPIKey rnd = Inr k" and fresh: "fresh_hash (sha k) (map_of (db_tenants db))"
  have g: "gomap_ok (db_tenants db)" using ok by (simp add: pg_ok_def tenants_ok_def)
  have "\<not> hash_taken i (sha k) db" using fresh by (auto simp: hash_taken_iff [OF g] fresh_hash_def)
  then have "sql_update_key env now (sha k) i db =
      (Inr 1, db\<lparr>db_tenants := AList.update i (t\<lparr>ten_APIKeyHash := sha k, ten_UpdatedAt := now\<rparr>) (db_tenants db)\<rparr>)"
    using t tenant_ID [OF ok t(1)] by (simp add: sql_update_key_def)
  then show "\<exists>s' u. postgres_RotateKey env sha Fine rnd now i db = (Inr k, s') \<and> pg_ok env s' \<and>
      map_of (db_tenants s') = (map_of (db_tenants db))(i \<mapsto> t\<lparr>ten_APIKeyHash := sha k, ten_UpdatedAt := u\<rparr>)"
    using key sql_update_key_ok [OF ok, of now "sha k" i]
    by (auto simp: postgres_RotateKey_def pg_exec_def HashAPIKey_def map_of_update)
next
  fix rnd i db k s'
  assume "postgres_RotateKey env sha Fine rnd now i db = (Inr k, s')"
  then show "NewAPIKey rnd = Inr k \<and> (\<exists>t. map_of (db_tenants db) i = Some t \<and> ten_Status t = ''active'')"
    by (auto simp: postgres_RotateKey_def pg_exec_def sql_update_key_def split: sum.splits option.splits if_splits)
next
  fix rnd i db e s'
  assume "postgres_RotateKey env sha Fine rnd now i db = (Inl e, s')"
  then show "s' = db"
    by (auto simp: postgres_RotateKey_def pg_exec_def sql_update_key_def split: sum.splits option.splits if_splits)
qed (auto simp: postgres_Authenticate_iff pg_ok_def tenants_ok_def)

section \<open>Storing events\<close>

lemma event_args_nth:
  "i < length es \<Longrightarrow> j < 5 \<Longrightarrow> concat (map event_args es) ! (i * 5 + j) = event_args (es ! i) ! j"
proof (induction es arbitrary: i)
  case (Cons e es)
  have "length (event_args e) = 5" by (simp add: event_args_def)
  then show ?case using Cons by (cases i) (simp_all add: nth_append)
qed simp

lemma bind_value_row: "i < length es \<Longrightarrow> bind_row (concat (map event_args es)) (value_row i) = Some (es ! i)"
  using event_args_nth [of i es 0] event_args_nth [of i es 1] event_args_nth [of i es 2]
    event_args_nth [of i es 3] event_args_nth [of i es 4]
  by (simp add: bind_row_def value_row_def Let_def event_args_def numeral_nat)

lemma those_map_Some: "those (map Some xs) = Some xs"
  by (induction xs) simp_all

lemma bind_all: "those (map (bind_row (concat (map event_args es))) (map value_row [0..<length es])) = Some es"
proof -
  have "map (bind_row (concat (map event_args es))) (map value_row [0..<length es]) = map Some (map (nth es) [0..<length es])"
    by (simp add: bind_value_row)
  then show ?thesis by (simp only: map_nth those_map_Some)
qed

lemma length_event_args: "length (concat (map event_args es)) = 5 * length es"
  by (induction es) (simp_all add: event_args_def)

text \<open>The statement that \<open>saveEventsInsert\<close> sends inserts the events of the batch in order.\<close>

lemma saveEventsInsert_eq:
  "saveEventsInsert env fault batch db =
     (case pg_exec fault (\<lambda>db. if 13107 < length batch then (Inl ErrParams, db) else sql_insert_events env batch db) db of
        (Inl err, db') \<Rightarrow> (Some err, db')
      | (Inr n, db') \<Rightarrow> (None, db'))"
proof -
  have "sql_insert_values env (map value_row [0..<length batch]) (concat (map event_args batch)) =
      (\<lambda>db. if 13107 < length batch then (Inl ErrParams, db) else sql_insert_events env batch db)"
    unfolding sql_insert_values_def length_event_args bind_all by (rule ext) auto
  then show ?thesis by (simp add: saveEventsInsert_def Let_def)
qed

lemma new_rows_all: "distinct (map row_key (old @ rs)) \<Longrightarrow> new_rows old rs = rs"
proof (induction old rs rule: new_rows.induct)
  case (2 old r rs)
  then show ?case by (auto simp: image_iff)
qed simp

lemma new_rows_none: "row_key ` set rs \<subseteq> row_key ` set old \<Longrightarrow> new_rows old rs = []"
  by (induction old rs rule: new_rows.induct) auto

lemma new_rows_keys: "row_key ` set (old @ new_rows old rs) = row_key ` set old \<union> row_key ` set rs"
  by (induction old rs rule: new_rows.induct) auto

lemma new_rows_subset: "set (new_rows old rs) \<subseteq> set rs"
  by (induction old rs rule: new_rows.induct) auto

lemma new_rows_append: "new_rows old (rs @ ss) = new_rows old rs @ new_rows (old @ new_rows old rs) ss"
  by (induction old rs rule: new_rows.induct) auto

text \<open>
  Whatever the faults, an attempt either fails without a trace or has the effect of an
  attempt without faults, which succeeds.
\<close>

lemma sql_copy_events_cases:
  obtains (failed) e where "sql_copy_events env es db = (Inl e, db)"
    | (saved) rows where "encode_rows (pe_row env) es = Inr rows" "distinct (map row_key (db_events db @ rows))"
      "tenants_exist db rows" "sql_copy_events env es db = (Inr (length rows), db\<lparr>db_events := db_events db @ rows\<rparr>)"
  by (cases "encode_rows (pe_row env) es"; cases "distinct (map row_key (db_events db @ projr (encode_rows (pe_row env) es)))";
      cases "tenants_exist db (projr (encode_rows (pe_row env) es))")
    (auto simp: sql_copy_events_def)

lemma sql_insert_events_cases:
  obtains (failed) e where "sql_insert_events env es db = (Inl e, db)"
    | (saved) rows where "encode_rows (pe_row env) es = Inr rows" "tenants_exist db (new_rows (db_events db) rows)"
      "sql_insert_events env es db = (Inr (length (new_rows (db_events db) rows)),
         db\<lparr>db_events := db_events db @ new_rows (db_events db) rows\<rparr>)"
  by (cases "encode_rows (pe_row env) es";
      cases "tenants_exist db (new_rows (db_events db) (projr (encode_rows (pe_row env) es)))")
    (auto simp: sql_insert_events_def Let_def)

lemma saveEventsInsert_cases:
  assumes "saveEventsInsert env fault batch db = (err, db')"
  obtains "err \<noteq> None" "db' = db"
    | rows where "length batch \<le> 13107" "encode_rows (pe_row env) batch = Inr rows"
      "saveEventsInsert env Fine batch db = (None, db')" "db' = db\<lparr>db_events := db_events db @ new_rows (db_events db) rows\<rparr>"
      "fault = Fine \<longrightarrow> err = None"
proof (cases "13107 < length batch")
  case True
  then show ?thesis using assms that(1) by (cases fault) (auto simp: saveEventsInsert_eq pg_exec_def)
next
  case False
  show ?thesis
  proof (cases rule: sql_insert_events_cases [of env batch db])
    case (failed e)
    then show ?thesis using assms False that(1) by (cases fault) (auto simp: saveEventsInsert_eq pg_exec_def)
  next
    case (saved rows)
    let ?db = "db\<lparr>db_events := db_events db @ new_rows (db_events db) rows\<rparr>"
    have fine: "saveEventsInsert env Fine batch db = (None, ?db)"
      using saved False by (simp add: saveEventsInsert_eq pg_exec_def)
    have "(err \<noteq> None \<and> db' = db) \<or> (db' = ?db \<and> (fault = Fine \<longrightarrow> err = None))"
      using assms saved False by (cases fault) (auto simp: saveEventsInsert_eq pg_exec_def)
    then show ?thesis using that(1) that(2) [of rows] fine saved(1) False by fastforce
  qed
qed

lemma SaveEvents_effect:
  assumes "SaveEvents env f1 f2 batch db = (err, db')"
  shows "(err \<noteq> None \<and> db' = db) \<or>
    (SaveEvents env Fine Fine batch db = (None, db') \<and>
     (\<exists>rows. encode_rows (pe_row env) batch = Inr rows \<and> db' = db\<lparr>db_events := db_events db @ new_rows (db_events db) rows\<rparr>))"
proof (cases "batch = []")
  case True
  then show ?thesis using assms by (simp add: SaveEvents_def)
next
  case False
  show ?thesis
  proof (cases rule: sql_copy_events_cases [of env batch db])
    case (saved rows)
    then show ?thesis using assms False by (cases f1) (auto simp: SaveEvents_def pg_exec_def new_rows_all)
  next
    case (failed e)
    show ?thesis
    proof (cases "f1 = Fine \<and> e = PgError ''23505''")
      case True
      then have "saveEventsInsert env f2 batch db = (err, db')"
        using assms False failed by (simp add: SaveEvents_def pg_exec_def)
      then show ?thesis
        by (cases rule: saveEventsInsert_cases) (use True False failed in \<open>auto simp: SaveEvents_def pg_exec_def\<close>)
    next
      case nc: False
      then show ?thesis using assms False failed by (cases f1) (auto simp: SaveEvents_def pg_exec_def)
    qed
  qed
qed

lemma SaveEvents_again:
  assumes "SaveEvents env Fine Fine batch db = (None, db1)" "length batch \<le> 13107"
  shows "SaveEvents env Fine Fine batch db1 = (None, db1)"
proof (cases "batch = []")
  case True
  then show ?thesis using assms by (simp add: SaveEvents_def)
next
  case False
  obtain rows where rows: "encode_rows (pe_row env) batch = Inr rows"
    and db1: "db1 = db\<lparr>db_events := db_events db @ new_rows (db_events db) rows\<rparr>"
    using SaveEvents_effect [OF assms(1)] by auto
  have "rows \<noteq> []" using rows False by (cases batch) (auto split: sum.splits)
  moreover have keys: "row_key ` set rows \<subseteq> row_key ` set (db_events db1)"
    using new_rows_keys [of "db_events db" rows] db1 by auto
  ultimately have "\<not> distinct (map row_key (db_events db1 @ rows))" by (cases rows) auto
  then have "sql_copy_events env batch db1 = (Inl (PgError ''23505''), db1)"
    using rows by (simp add: sql_copy_events_def)
  moreover have "sql_insert_events env batch db1 = (Inr 0, db1)"
    using rows new_rows_none [OF keys] by (simp add: sql_insert_events_def tenants_exist_def)
  ultimately show ?thesis
    using False assms(2) by (simp add: SaveEvents_def saveEventsInsert_eq pg_exec_def)
qed

text \<open>The batch consumer's retries: the attempts with their faults, up to the first that succeeds.\<close>

fun save_attempts :: "pg_env \<Rightarrow> (fault \<times> fault) list \<Rightarrow> event list \<Rightarrow> database \<Rightarrow> bool \<times> database" where
  "save_attempts env [] batch db = (False, db)"
| "save_attempts env ((f1, f2) # fs) batch db =
     (case SaveEvents env f1 f2 batch db of
        (None, db') \<Rightarrow> (True, db')
      | (Some err, db') \<Rightarrow> save_attempts env fs batch db')"

lemma save_attempts_converge:
  assumes "length batch \<le> 13107" "SaveEvents env Fine Fine batch db = (None, db1)"
  shows "save_attempts env (fs @ [(Fine, Fine)]) batch db = (True, db1)"
  using assms(2)
proof (induction fs arbitrary: db)
  case Nil
  then show ?case by simp
next
  case (Cons f fs)
  obtain f1 f2 where f: "f = (f1, f2)" by (cases f)
  obtain err db' where s: "SaveEvents env f1 f2 batch db = (err, db')" by fastforce
  have "db' = db \<and> err \<noteq> None \<or> db' = db1" using SaveEvents_effect [OF s] Cons.prems by auto
  then have "SaveEvents env Fine Fine batch db' = (None, db1)" "err = None \<longrightarrow> db' = db1"
    using Cons.prems SaveEvents_again [OF Cons.prems assms(1)] by auto
  then show ?case using Cons.IH [of db'] by (cases err) (simp_all add: f s)
qed

text \<open>Saving one by one.\<close>

fun save_each :: "pg_env \<Rightarrow> event list \<Rightarrow> database \<Rightarrow> pg_error option \<times> database" where
  "save_each env [] db = (None, db)"
| "save_each env (e # es) db =
     (case SaveEvent env Fine e db of
        ((_, None), db') \<Rightarrow> save_each env es db'
      | ((_, Some err), db') \<Rightarrow> (Some err, db'))"

lemma SaveEvent_new:
  "SaveEvent env Fine e db =
     (case pe_row env e of
        Inl code \<Rightarrow> ((False, Some (PgError code)), db)
      | Inr r \<Rightarrow>
          if row_key r \<in> row_key ` set (db_events db) then ((False, None), db)
          else if map_of (db_tenants db) (TenantID r) \<noteq> None then ((True, None), db\<lparr>db_events := db_events db @ [r]\<rparr>)
          else ((False, Some (PgError ''23503'')), db))"
  by (auto simp: SaveEvent_def pg_exec_def sql_insert_events_def tenants_exist_def split: sum.splits)

lemma save_each_iff:
  "save_each env es db = (None, db') \<longleftrightarrow>
     (\<exists>rows. encode_rows (pe_row env) es = Inr rows \<and> tenants_exist db (new_rows (db_events db) rows) \<and>
        db' = db\<lparr>db_events := db_events db @ new_rows (db_events db) rows\<rparr>)"
proof (induction es arbitrary: db)
  case Nil
  then show ?case by (auto simp: tenants_exist_def)
next
  case (Cons e es)
  show ?case
  proof (cases "pe_row env e")
    case (Inl code)
    then show ?thesis by (simp add: SaveEvent_new)
  next
    case (Inr r)
    have t: "tenants_exist (db\<lparr>db_events := x\<rparr>) = tenants_exist db" for x by (simp add: tenants_exist_def fun_eq_iff)
    have c: "tenants_exist db (r # rs) \<longleftrightarrow> map_of (db_tenants db) (TenantID r) \<noteq> None \<and> tenants_exist db rs" for rs
      by (simp add: tenants_exist_def)
    show ?thesis
      by (cases "encode_rows (pe_row env) es") (auto simp: SaveEvent_new Inr Cons.IH t c)
  qed
qed

lemma SaveEvents_each:
  assumes "length batch \<le> 13107" "pg_ok env db"
  shows "SaveEvents env Fine Fine batch db = (None, db') \<longleftrightarrow> save_each env batch db = (None, db')"
proof (cases "encode_rows (pe_row env) batch")
  case (Inl code)
  then have "batch \<noteq> []" by auto
  with Inl show ?thesis unfolding save_each_iff
    by (auto simp: SaveEvents_def pg_exec_def sql_copy_events_def saveEventsInsert_eq sql_insert_events_def)
next
  case (Inr rows)
  show ?thesis
  proof (cases "batch = []")
    case True
    then show ?thesis by (auto simp: SaveEvents_def)
  next
    case False
    show ?thesis
    proof (cases "distinct (map row_key (db_events db @ rows))")
      case True
      then show ?thesis using Inr False new_rows_all [OF True]
        by (auto simp: save_each_iff SaveEvents_def pg_exec_def sql_copy_events_def)
    next
      case nd: False
      then show ?thesis using Inr False assms(1)
        by (auto simp: save_each_iff SaveEvents_def pg_exec_def sql_copy_events_def saveEventsInsert_eq
            sql_insert_events_def Let_def)
    qed
  qed
qed

section \<open>Properties\<close>

text \<open>What the store relies on: PostgreSQL stores the key columns of a row as they are.\<close>

definition keeps_keys :: "pg_env \<Rightarrow> bool" where
  "keeps_keys env \<longleftrightarrow> (\<forall>e r. pe_row env e = Inr r \<longrightarrow> row_key r = row_key e)"

lemma encode_rows_rows:
  "encode_rows enc es = Inr rows \<Longrightarrow> list_all2 (\<lambda>e r. enc e = Inr r) es rows"
  by (induction es arbitrary: rows) (auto split: sum.splits)

lemma encode_rows_set: "encode_rows enc es = Inr rows \<Longrightarrow> r \<in> set rows \<Longrightarrow> \<exists>e \<in> set es. enc e = Inr r"
  using encode_rows_rows [of enc es rows] by (force simp: list_all2_conv_all_nth in_set_conv_nth)

lemma encode_rows_keys: "keeps_keys env \<Longrightarrow> encode_rows (pe_row env) es = Inr rows \<Longrightarrow> map row_key rows = map row_key es"
  by (induction es arbitrary: rows) (auto simp: keeps_keys_def split: sum.splits)

text \<open>
  A store that refuses NUL characters and otherwise keeps rows as they are, and a database
  with one tenant and one subscription.
\<close>

definition sample_pg :: pg_env where
  "sample_pg = \<lparr>pe_text = (\<lambda>x. CHR 0x00 \<notin> set x),
     pe_row = (\<lambda>e. if CHR 0x00 \<in> set (EventID e) then Inl ''22021'' else Inr e)\<rparr>"

definition sample_db :: database where
  "sample_db = \<lparr>db_tenants = [(''acme'', \<lparr>ten_ID = ''acme'', ten_Name = ''Acme'', ten_APIKeyHash = ''h'',
       ten_Status = ''active'', ten_CreatedAt = 0, ten_UpdatedAt = 0\<rparr>)],
     db_events = [], db_subs = [(''wh_1'', sample_sub)], db_claims = []\<rparr>"

lemma sample_db_ok: "pg_ok sample_pg sample_db"
  by (auto simp: sample_pg_def sample_db_def pg_ok_def tenants_ok_def events_ok_def subs_ok_def claim_rows_ok_def
      tenants_exist_def gomap_ok_def unique_hashes_def sample_sub_def)

lemma sample_keeps_keys: "keeps_keys sample_pg"
  by (simp add: keeps_keys_def sample_pg_def)

text \<open>
  C5: the invariant of the database. In every state that the operations of the store reach
  from the empty tables, in any order and under any connection faults, no event is stored
  twice and every stored event has its tenant, no two tenants share a key hash, and a
  delivery claim has a tenant, a subscription, and a lease exactly while it is processing.
\<close>

theorem postgres_schema_invariant:
  assumes "pg_reach env sha db"
  shows "distinct (map row_key (db_events db)) \<and> tenants_exist db (db_events db) \<and>
    (\<forall>i j t u. map_of (db_tenants db) i = Some t \<longrightarrow> map_of (db_tenants db) j = Some u \<longrightarrow>
       ten_APIKeyHash t = ten_APIKeyHash u \<longrightarrow> i = j) \<and>
    (\<forall>k r. map_of (db_claims db) k = Some r \<longrightarrow>
       (cr_status r = deliveryProcessing \<longleftrightarrow> cr_lease_until r \<noteq> None) \<and>
       map_of (db_tenants db) (dc_tenantID k) \<noteq> None \<and> map_of (db_subs db) (dc_subscriptionID k) \<noteq> None)"
proof (intro conjI)
  note ok = pg_reach_ok [OF assms]
  show "distinct (map row_key (db_events db))" "tenants_exist db (db_events db)"
    using ok by (simp_all add: pg_ok_def events_ok_def)
  show "\<forall>i j t u. map_of (db_tenants db) i = Some t \<longrightarrow> map_of (db_tenants db) j = Some u \<longrightarrow>
       ten_APIKeyHash t = ten_APIKeyHash u \<longrightarrow> i = j"
    using ok by (auto simp: pg_ok_def tenants_ok_def dest: unique_hashesD)
  show "\<forall>k r. map_of (db_claims db) k = Some r \<longrightarrow>
       (cr_status r = deliveryProcessing \<longleftrightarrow> cr_lease_until r \<noteq> None) \<and>
       map_of (db_tenants db) (dc_tenantID k) \<noteq> None \<and> map_of (db_subs db) (dc_subscriptionID k) \<noteq> None"
    using ok unfolding pg_ok_def claim_rows_ok_def known_key_def by blast
qed

definition created_db :: database where
  "created_db = snd (postgres_Create sample_pg (\<lambda>k. k) Fine (Some ''xyz'') 5 ''Acme'' empty_db)"

lemma created_db_tenants: "map fst (db_tenants created_db) = [''ten_pulse_eHl6'']"
proof -
  have "name_check ''Acme''" by code_simp
  then show ?thesis
    by (simp add: created_db_def postgres_Create_def pg_exec_def sql_insert_tenant_def key_eval sample_pg_def
        empty_db_def hash_taken_def HashAPIKey_def)
qed

lemma created_db_reach: "pg_reach sample_pg (\<lambda>k. k) created_db"
  unfolding created_db_def by (rule pg_reach.step [OF pg_reach.empty pg_step.create])

theorem postgres_schema_invariant_witness:
  "map fst (db_tenants created_db) = [''ten_pulse_eHl6''] \<and>
   distinct (map row_key (db_events (snd (SaveEvents sample_pg Fine ReplyLost
     [(sample_event ''a'')\<lparr>TenantID := ''ten_pulse_eHl6''\<rparr>, (sample_event ''a'')\<lparr>TenantID := ''ten_pulse_eHl6''\<rparr>] created_db))))"
  using created_db_tenants postgres_schema_invariant [OF pg_reach.step [OF created_db_reach pg_step.save_events]] by blast

text \<open>
  C16: a batch of events is stored entirely or not at all, and at most once. Whatever the
  faults during \<open>SaveEvents\<close> and however many of the events are in the table already or
  occur twice in the batch: the old rows stay as they are, each row that is added is the
  stored form of an event of the batch whose key was not there, no key occurs twice; and if
  the call succeeds, or if it adds any row at all, every event of the batch is stored.
\<close>

theorem save_events_all_or_nothing:
  assumes "pg_ok env db" "keeps_keys env" "SaveEvents env f1 f2 batch db = (err, db')"
  shows "\<exists>new. db' = db\<lparr>db_events := db_events db @ new\<rparr> \<and> distinct (map row_key (db_events db')) \<and>
    (\<forall>r \<in> set new. row_key r \<notin> row_key ` set (db_events db) \<and> (\<exists>e \<in> set batch. pe_row env e = Inr r)) \<and>
    (err = None \<or> new \<noteq> [] \<longrightarrow> row_key ` set batch \<subseteq> row_key ` set (db_events db'))"
proof -
  have d: "distinct (map row_key (db_events db))" and d': "distinct (map row_key (db_events db'))"
    using assms(1) SaveEvents_ok [OF assms(1), of f1 f2 batch] assms(3) by (simp_all add: pg_ok_def events_ok_def)
  from SaveEvents_effect [OF assms(3)] show ?thesis
  proof
    assume "err \<noteq> None \<and> db' = db"
    then show ?thesis using d by (intro exI [of _ "[] :: event list"]) auto
  next
    assume "SaveEvents env Fine Fine batch db = (None, db') \<and>
      (\<exists>rows. encode_rows (pe_row env) batch = Inr rows \<and> db' = db\<lparr>db_events := db_events db @ new_rows (db_events db) rows\<rparr>)"
    then obtain rows where rows: "encode_rows (pe_row env) batch = Inr rows"
      and db': "db' = db\<lparr>db_events := db_events db @ new_rows (db_events db) rows\<rparr>" by blast
    have "row_key ` set batch = row_key ` set rows"
      using encode_rows_keys [OF assms(2) rows] by (metis set_map)
    then have "row_key ` set batch \<subseteq> row_key ` set (db_events db')"
      using new_rows_keys [of "db_events db" rows] db' by auto
    moreover have "\<forall>r \<in> set (new_rows (db_events db) rows). row_key r \<notin> row_key ` set (db_events db)"
      using d' db' by auto
    moreover have "\<forall>r \<in> set (new_rows (db_events db) rows). \<exists>e \<in> set batch. pe_row env e = Inr r"
      using new_rows_subset [of "db_events db" rows] encode_rows_set [OF rows] by blast
    ultimately show ?thesis using db' d' by blast
  qed
qed

lemma sample_save:
  "SaveEvents sample_pg Fine Fine [sample_event ''a'', sample_event ''b'', sample_event ''a''] sample_db =
     (None, sample_db\<lparr>db_events := [sample_event ''a'', sample_event ''b'']\<rparr>)"
  by (simp add: SaveEvents_def saveEventsInsert_eq pg_exec_def sql_copy_events_def sql_insert_events_def sample_pg_def
      sample_db_def sample_event_def row_key_def tenants_exist_def)

theorem save_events_all_or_nothing_witness:
  "row_key ` set [sample_event ''a'', sample_event ''b'', sample_event ''a''] \<subseteq>
     row_key ` set (db_events (sample_db\<lparr>db_events := [sample_event ''a'', sample_event ''b'']\<rparr>))"
  using save_events_all_or_nothing [OF sample_db_ok sample_keeps_keys sample_save] by blast

text \<open>
  C23: retries converge. A batch that could be stored is stored, with exactly the rows one
  undisturbed call would have stored, by any sequence of disturbed attempts (requests or
  replies lost, in either statement) that is followed by one undisturbed attempt; the batch
  may have up to 13107 events.
\<close>

theorem save_retries_converge:
  assumes "length batch \<le> 13107" "SaveEvents env Fine Fine batch db = (None, db')"
  shows "save_attempts env (faults @ [(Fine, Fine)]) batch db = (True, db')"
  by (rule save_attempts_converge [OF assms])

theorem save_retries_converge_witness:
  "save_attempts sample_pg [(ReplyLost, Fine), (NotRun, Fine), (Fine, ReplyLost), (Fine, Fine)]
     [sample_event ''a'', sample_event ''b'', sample_event ''a''] sample_db =
   (True, sample_db\<lparr>db_events := [sample_event ''a'', sample_event ''b'']\<rparr>)"
  using save_retries_converge [OF _ sample_save, of "[(ReplyLost, Fine), (NotRun, Fine), (Fine, ReplyLost)]"] by simp

text \<open>
  C40: the limit is real. A batch of more than 13107 events of which one is stored already
  (a redelivered batch) fails at every attempt, whatever the connection does, and stores
  nothing: its consumer retries it for ever.
\<close>

theorem oversized_batch_never_saved:
  assumes "13107 < length batch" "encode_rows (pe_row env) batch = Inr rows"
    and "\<exists>r \<in> set rows. row_key r \<in> row_key ` set (db_events db)"
  shows "save_attempts env faults batch db = (False, db)"
proof (induction faults)
  case Nil
  then show ?case by simp
next
  case (Cons f fs)
  have "\<not> distinct (map row_key (db_events db @ rows))" using assms(3) by auto
  then have copy: "sql_copy_events env batch db = (Inl (PgError ''23505''), db)"
    using assms(2) by (simp add: sql_copy_events_def)
  obtain f1 f2 where f: "f = (f1, f2)" by (cases f)
  have "\<exists>e. SaveEvents env f1 f2 batch db = (Some e, db)"
    using assms(1) copy by (cases f1; cases f2) (auto simp: SaveEvents_def saveEventsInsert_eq pg_exec_def)
  then show ?case using Cons f by auto
qed

theorem oversized_batch_never_saved_witness:
  "save_attempts sample_pg [(Fine, Fine)] (replicate 13108 (sample_event ''a''))
     (sample_db\<lparr>db_events := [sample_event ''a'']\<rparr>) =
   (False, sample_db\<lparr>db_events := [sample_event ''a'']\<rparr>)"
proof (rule oversized_batch_never_saved)
  have "encode_rows (pe_row sample_pg) (replicate n (sample_event ''a'')) = Inr (replicate n (sample_event ''a''))" for n
    by (induction n) (simp_all add: sample_pg_def sample_event_def)
  then show "encode_rows (pe_row sample_pg) (replicate 13108 (sample_event ''a'')) = Inr (replicate 13108 (sample_event ''a''))" .
  show "13107 < length (replicate 13108 (sample_event ''a''))" unfolding length_replicate by simp
  show "\<exists>r \<in> set (replicate 13108 (sample_event ''a'')). row_key r \<in> row_key ` set (db_events (sample_db\<lparr>db_events := [sample_event ''a'']\<rparr>))"
    unfolding set_replicate_conv_if by simp
qed

text \<open>
  C14: the two stores of delivery claims are interchangeable. From states with the same
  claims, any history of claims, completions and releases of known deliveries has the same
  results in PostgreSQL as in the in-memory store.
\<close>

theorem claim_stores_agree:
  assumes "claims_ok s" "pg_ok env db" "time_zero \<le> t" "\<forall>k. memory_view s t k = pg_view db t k" "op_times t cs"
    and "\<forall>(u, c) \<in> set cs. known_key env db (op_key c)"
  shows "fst (claim_history ClaimDelivery CompleteDelivery ReleaseDelivery s cs) =
         fst (claim_history (pg_claim env) (pg_complete env) (pg_release env) db cs)"
  by (rule memory_postgres_claims.same_results [OF assms(1-5)]) (use assms(6) in auto)

lemma sample_known: "known_key sample_pg sample_db sample_key"
  by (simp add: known_key_def sample_pg_def sample_db_def sample_key_def key_texts_def)

theorem claim_stores_agree_witness:
  "fst (claim_history ClaimDelivery CompleteDelivery ReleaseDelivery NewMemoryStore
     [(1, Claim sample_key), (2, Claim sample_key), (3, Release sample_key), (4, Claim sample_key)]) =
   fst (claim_history (pg_claim sample_pg) (pg_complete sample_pg) (pg_release sample_pg) sample_db
     [(1, Claim sample_key), (2, Claim sample_key), (3, Release sample_key), (4, Claim sample_key)])"
  by (rule claim_stores_agree [OF NewMemoryStore_ok sample_db_ok, of 0])
    (simp_all add: time_zero_def memory_view_def NewMemoryStore_def pg_view_def sample_db_def
      sample_known [unfolded sample_db_def])



end
