(* ===== verification/Postgres_Workers.thy ===== *)
theory Postgres_Workers
  imports Persistence
begin

text \<open>
  The workers on PostgreSQL, as \<open>RunWorker\<close> of \<open>internal/app/app.go\<close> puts them together: the
  persistence handler on the events table, in single and in batch mode, and the webhook
  handler on the subscriptions and claims tables. Connections are undisturbed here; the
  store's own theory covers faults.
\<close>

section \<open>The persistence worker\<close>

definition pg_event_store :: "pg_env \<Rightarrow> bool \<Rightarrow> database event_store" where
  "pg_event_store env batching =
     \<lparr>es_SaveEvent = (\<lambda>e db. case SaveEvent env Fine e db of
         ((inserted, err), db') \<Rightarrow> ((inserted, map_option go_of_pg err), db')),
      es_SaveEvents = (if batching then Some (\<lambda>es db. case SaveEvents env Fine Fine es db of
         (err, db') \<Rightarrow> (map_option go_of_pg err, db')) else None)\<rparr>"

lemma persistence_each_pg:
  "(\<exists>m'. persistence_each (pg_event_store env batching) es m db = (None, m', db')) \<longleftrightarrow> save_each env es db = (None, db')"
proof (induction es arbitrary: m db)
  case Nil
  then show ?case by simp
next
  case (Cons e es)
  obtain ins err db1 where s: "SaveEvent env Fine e db = ((ins, err), db1)" by (metis prod.collapse)
  obtain m1 where h: "persistence_Handle (pg_event_store env batching) e m db = (map_option go_of_pg err, m1, db1)"
    by (simp add: persistence_Handle_def pg_event_store_def s)
  show ?case using Cons.IH [of m1 db1] s h by (cases err) simp_all
qed

section \<open>The webhook worker\<close>

definition pg_webhook_env ::
  "pg_env \<Rightarrow> (subscription list \<Rightarrow> subscription list) \<Rightarrow> (delivery \<Rightarrow> instant \<Rightarrow> go_error option \<times> instant)
     \<Rightarrow> (database \<times> instant) webhook_env" where
  "pg_webhook_env env perm dispatch =
     \<lparr>we_list = (\<lambda>tid typ w. (case postgres_ListSubscriptions env Fine perm tid typ (fst w) of
          Inl err \<Rightarrow> Inl (go_of_pg err) | Inr subs \<Rightarrow> Inr subs, w)),
      we_claim = (\<lambda>k w. case postgres_ClaimDelivery env Fine k (snd w) (fst w) of
          ((claimed, err), db) \<Rightarrow> (case err of Some e \<Rightarrow> Inl (go_of_pg e) | None \<Rightarrow> Inr claimed, (db, snd w))),
      we_complete = (\<lambda>k w. case postgres_CompleteDelivery env Fine k (snd w) (fst w) of
          (err, db) \<Rightarrow> (map_option go_of_pg err, (db, snd w))),
      we_release = (\<lambda>k w. case postgres_ReleaseDelivery env Fine k (snd w) (fst w) of
          (err, db) \<Rightarrow> (map_option go_of_pg err, (db, snd w))),
      we_deliver = (\<lambda>d w. case dispatch d (snd w) of (r, t) \<Rightarrow> (r, (fst w, t)))\<rparr>"

abbreviation pg_claims_env where
  "pg_claims_env env dispatch \<equiv>
     claims_env (pg_claim env) (pg_complete env) (pg_release env) (\<lambda>tid typ db. []) dispatch"

text \<open>For deliveries the database knows, no operation on a claim fails.\<close>

lemma known_settles:
  assumes "known_key env db k"
  shows "postgres_CompleteDelivery env Fine k t db = (None, pg_complete env k t db)"
    and "postgres_ReleaseDelivery env Fine k t db = (None, pg_release env k t db)"
  using assms
  by (auto simp: pg_complete_def pg_release_def postgres_CompleteDelivery_def postgres_ReleaseDelivery_def pg_exec_def
      sql_update_claim_def known_key_def split: option.splits)

lemma known_claim_env:
  assumes "known_key env db k"
  shows "we_claim (pg_webhook_env env perm dispatch) k (db, t) = we_claim (pg_claims_env env dispatch) k (db, t)"
  using assms
  by (auto simp: pg_webhook_env_def claims_env_def pg_claim_def postgres_ClaimDelivery_def pg_exec_def sql_claim_def
      known_key_def split: option.splits)

lemma known_settle_env:
  assumes "known_key env db k"
  shows "we_complete (pg_webhook_env env perm dispatch) k (db, t) = we_complete (pg_claims_env env dispatch) k (db, t)"
    and "we_release (pg_webhook_env env perm dispatch) k (db, t) = we_release (pg_claims_env env dispatch) k (db, t)"
  by (simp_all add: pg_webhook_env_def claims_env_def known_settles [OF assms])

lemma pg_deliver_env: "we_deliver (pg_webhook_env env perm dispatch) = we_deliver (pg_claims_env env dispatch)"
  by (simp add: pg_webhook_env_def claims_env_def)

lemma pg_claims_env_simps:
  "we_claim (pg_claims_env env dispatch) k (db, t) = (case pg_claim env k t db of (b, db') \<Rightarrow> (Inr b, (db', t)))"
  "we_complete (pg_claims_env env dispatch) k (db, t) = (None, (pg_complete env k t db, t))"
  "we_release (pg_claims_env env dispatch) k (db, t) = (None, (pg_release env k t db, t))"
  "we_deliver (pg_claims_env env dispatch) d (db, t) = (case dispatch d t of (r, t') \<Rightarrow> (r, (db, t')))"
  by (simp_all add: claims_env_def)

lemma pg_deliver_subs_eq:
  assumes "\<forall>sub \<in> set subs. known_key env db (claim_key e sub)"
  shows "deliver_subs (pg_webhook_env env perm dispatch) e subs m (db, t) = deliver_subs (pg_claims_env env dispatch) e subs m (db, t)"
  using assms
proof (induction subs arbitrary: m db t)
  case Nil
  then show ?case by simp
next
  case (Cons sub subs)
  let ?k = "claim_key e sub"
  have k: "known_key env db ?k" using Cons.prems by simp
  obtain b db1 where c: "pg_claim env ?k t db = (b, db1)" by fastforce
  have kn: "known_key env db1 = known_key env db" using postgres_claims.known_claim [of env ?k t db] c by simp
  obtain r t1 where d: "dispatch (sub_delivery e sub) t = (r, t1)" by fastforce
  have k1: "known_key env db1 ?k" using k kn by simp
  have IH: "deliver_subs (pg_webhook_env env perm dispatch) e subs m' (db', t') = deliver_subs (pg_claims_env env dispatch) e subs m' (db', t')"
    if "known_key env db' = known_key env db" for m' db' t'
    using Cons.IH [of db' m' t'] Cons.prems that by simp
  have IH': "known_key env (pg_complete env ?k t1 db1) = known_key env db" "known_key env (pg_release env ?k t1 db1) = known_key env db"
    using kn postgres_claims.known_complete postgres_claims.known_release by metis+
  show ?case
    by (cases b; cases r)
      (simp_all add: Let_def known_claim_env [OF k] pg_deliver_env pg_claims_env_simps c d known_settle_env [OF k1] IH [OF kn] IH [OF IH'(1)] IH [OF IH'(2)])
qed

text \<open>
  A run of the handler either makes no delivery (the listing or the first claim fails), or
  is a run over deliveries the database knows.
\<close>

lemma listed_known:
  assumes "pg_ok env db" "\<forall>xs. set (perm xs) = set xs" "pe_text env (EventID e)"
    and "postgres_ListSubscriptions env Fine perm (TenantID e) (Type e) db = Inr subs"
  shows "\<forall>sub \<in> set subs. known_key env db (claim_key e sub)"
proof
  fix sub
  assume "sub \<in> set subs"
  then have sub: "sub \<in> set (map snd (db_subs db))" "sub_TenantID sub = TenantID e" and tid: "pe_text env (TenantID e)"
    using assms(2,4) by (auto simp: postgres_ListSubscriptions_def pg_exec_def sql_select_subscriptions_def split: if_splits)
  then obtain i where "(i, sub) \<in> set (db_subs db)" by auto
  then have i: "map_of (db_subs db) i = Some sub"
    using assms(1) by (simp add: pg_ok_def subs_ok_def gomap_in_set)
  then have "sub_ID sub = i \<and> pe_text env i \<and> map_of (db_tenants db) (sub_TenantID sub) \<noteq> None"
    using assms(1) unfolding pg_ok_def subs_ok_def by blast
  then show "known_key env db (claim_key e sub)"
    using i sub(2) tid assms(3) by (simp add: known_key_def claim_key_def key_texts_def)
qed

lemma unreadable_claim:
  "\<not> pe_text env (EventID e) \<Longrightarrow>
     we_claim (pg_webhook_env env perm dispatch) (claim_key e sub) w = (Inl (Opaque ''22021''), w)"
  by (simp add: pg_webhook_env_def postgres_ClaimDelivery_def pg_exec_def sql_claim_def claim_key_def key_texts_def)

lemma pg_Handle_cases:
  assumes "webhook_Handle (pg_webhook_env env perm dispatch) e m (db, t) = (r, m', w', l)"
    and "pg_ok env db" "\<forall>xs. set (perm xs) = set xs"
  obtains (idle) "w' = (db, t)" "\<forall>k. filter (delivers k) l = []"
    | (ran) subs q where "deliver_subs (pg_claims_env env dispatch) e subs m (db, t) = (q, m', w', l)"
proof (cases "postgres_ListSubscriptions env Fine perm (TenantID e) (Type e) db")
  case (Inl err)
  then show ?thesis using assms(1) idle by (simp add: webhook_Handle_def pg_webhook_env_def)
next
  case (Inr subs)
  then have "deliver (pg_webhook_env env perm dispatch) e subs m (db, t) = (r, m', w', l)"
    using assms(1) by (simp add: webhook_Handle_def pg_webhook_env_def)
  then obtain q where q: "deliver_subs (pg_webhook_env env perm dispatch) e subs m (db, t) = (q, m', w', l)"
    by (auto simp: deliver_def split: prod.splits sum.splits if_splits)
  show ?thesis
  proof (cases "pe_text env (EventID e)")
    case True
    then show ?thesis
      using ran [of subs q] q pg_deliver_subs_eq [OF listed_known [OF assms(2,3) _ Inr]] by simp
  next
    case False
    then show ?thesis using q idle by (cases subs) (auto simp: Let_def unreadable_claim)
  qed
qed

text \<open>A completed claim stays completed, whatever else happens in the database.\<close>

lemma pg_view_Done: "pg_view db t k = Done \<longleftrightarrow> (\<exists>r. map_of (db_claims db) k = Some r \<and> cr_status r = deliveryCompleted)"
  by (auto simp: pg_view_def split: option.splits if_splits)

lemma pg_exec_row:
  "map_of (db_claims db) k = v \<Longrightarrow> map_of (db_claims (snd (stmt db))) k = v \<Longrightarrow> map_of (db_claims (snd (pg_exec f stmt db))) k = v"
  by (cases f) (simp_all add: pg_exec_def)

lemma SaveEvents_claims: "db_claims (snd (SaveEvents env f1 f2 batch db)) = db_claims db"
proof -
  obtain err db' where s: "SaveEvents env f1 f2 batch db = (err, db')" by fastforce
  then show ?thesis using SaveEvents_effect [OF s] by auto
qed

lemma sql_claims_unchanged:
  "db_claims (snd (sql_insert_tenant env now i name h db)) = db_claims db"
  "db_claims (snd (sql_update_key env now h i db)) = db_claims db"
  "db_claims (snd (sql_insert_events env es db)) = db_claims db"
  "db_claims (snd (sql_insert_subscription env now sub db)) = db_claims db"
  by (auto simp: sql_insert_tenant_def sql_update_key_def sql_insert_events_def sql_insert_subscription_def Let_def
      split: option.splits sum.splits)

lemma sql_claim_done:
  "map_of (db_claims db) k = Some r \<Longrightarrow> cr_status r = deliveryCompleted \<Longrightarrow> map_of (db_claims (snd (sql_claim env now j db))) k = Some r"
  "map_of (db_claims db) k = Some r \<Longrightarrow> cr_status r = deliveryCompleted \<Longrightarrow> map_of (db_claims (snd (sql_update_claim env now f j db))) k = Some r"
  by (auto simp: sql_claim_def sql_update_claim_def map_of_update split: option.splits)

lemma pg_step_done:
  assumes "pg_step env sha db db'" "map_of (db_claims db) k = Some r" "cr_status r = deliveryCompleted"
  shows "map_of (db_claims db') k = Some r"
  using assms(1)
proof cases
  case create
  then show ?thesis using assms(2)
    by (auto simp: postgres_Create_def Let_def snd_case_sum_prod sql_claims_unchanged intro!: pg_exec_row split: sum.splits)
next
  case rotate_key
  then show ?thesis using assms(2)
    by (auto simp: postgres_RotateKey_def snd_case_sum_prod sql_claims_unchanged intro!: pg_exec_row split: sum.splits)
next
  case save_event
  then show ?thesis using assms(2) by (auto simp: SaveEvent_def snd_case_sum_prod sql_claims_unchanged intro!: pg_exec_row)
next
  case save_events
  then show ?thesis using assms(2) by (simp add: SaveEvents_claims)
next
  case create_subscription
  then show ?thesis using assms(2)
    by (auto simp: postgres_CreateSubscription_def snd_case_sum_prod sql_claims_unchanged intro!: pg_exec_row)
next
  case claim
  then show ?thesis using assms(2) sql_claim_done(1) [OF assms(2,3)] by (auto simp: postgres_ClaimDelivery_snd intro!: pg_exec_row)
next
  case complete
  then show ?thesis using assms(2) sql_claim_done(2) [OF assms(2,3)]
    by (auto simp: postgres_CompleteDelivery_def snd_case_sum_prod intro!: pg_exec_row)
next
  case release
  then show ?thesis using assms(2) sql_claim_done(2) [OF assms(2,3)]
    by (auto simp: postgres_ReleaseDelivery_def snd_case_sum_prod intro!: pg_exec_row)
qed

lemma pg_steps_done:
  assumes "(pg_step env sha)\<^sup>*\<^sup>* db db'" "pg_ok env db" "pg_view db t k = Done"
  shows "pg_ok env db' \<and> pg_view db' t' k = Done"
  using assms
proof (induction rule: rtranclp_induct)
  case base
  then show ?case by (simp add: pg_view_Done)
next
  case (step y z)
  then show ?case using pg_step_ok [OF step.hyps(2)] pg_step_done [OF step.hyps(2)] by (auto simp: pg_view_Done)
qed

section \<open>Properties\<close>


definition sample_order :: event where
  "sample_order = (sample_event ''a'')\<lparr>Type := ''order''\<rparr>"

definition delivered_db :: database where
  "delivered_db = sample_db\<lparr>db_claims := [(claim_key sample_order sample_sub,
     \<lparr>cr_status = deliveryCompleted, cr_lease_until = None, cr_claimed_at = 0, cr_completed_at = Some 1\<rparr>)]\<rparr>"

lemma sample_order_delivered:
  "webhook_Handle (pg_webhook_env sample_pg id (quick_dispatch None)) sample_order None (sample_db, 0) =
     (None, None, (delivered_db, 1),
      [CallClaim (claim_key sample_order sample_sub) (Inr True),
       CallDeliver (claim_key sample_order sample_sub) (sub_delivery sample_order sample_sub) None,
       CallComplete (claim_key sample_order sample_sub) None])"
  by (simp add: webhook_Handle_def pg_webhook_env_def postgres_ListSubscriptions_def pg_exec_def sql_select_subscriptions_def
      deliver_def postgres_ClaimDelivery_def sql_claim_def postgres_CompleteDelivery_def sql_update_claim_def quick_dispatch_def
      count_delivery_def sample_db_def sample_pg_def sample_order_def sample_event_def sample_sub_def delivered_db_def
      claim_key_def key_texts_def Let_def time_Add_def Hour_def)




end
