(* ===== verification/Analytics_Store.thy ===== *)
theory Analytics_Store
  imports Worker_Handlers
begin

text \<open>
  \<open>internal/analytics/clickhouse.go\<close>: the ClickHouse store of the analytics worker and of the
  summary query, on the table of \<open>migrations/002_clickhouse.sql\<close>.

  The table is the list of its rows in the order of insertion. It is a \<open>ReplacingMergeTree\<close>
  ordered by tenant and event, so a query with \<open>FINAL\<close> sees, of the rows with one key, the
  one inserted last. What the driver and the server store for an event (the columns of
  \<open>DateTime64(3)\<close> and \<open>String\<close>), separately for a single statement and for a batch, and how
  they read the bounds of a query, are parameters (\<open>ch_env\<close>). Statements run under a
  \<open>fault\<close>. \<open>NewClickHouse\<close> is modelled with the wiring of the services.
\<close>

named_theorems analytics_defs "definitions of the analytics store"

section \<open>The store\<close>

type_synonym summary = "bytes \<times> nat"

record ch_env =
  ch_exec_row :: "event \<Rightarrow> event option"
  ch_batch_row :: "event \<Rightarrow> event option"
  ch_bound :: "instant \<Rightarrow> instant"

definition ch_insert :: "fault \<Rightarrow> event list \<Rightarrow> event list \<Rightarrow> go_error option \<times> event list" where
  "ch_insert fault new rows =
     (case fault of
        Fine \<Rightarrow> (None, rows @ new)
      | NotRun \<Rightarrow> (Some (Opaque ''connection''), rows)
      | ReplyLost \<Rightarrow> (Some (Opaque ''connection''), rows @ new))"

definition clickhouse_Record :: "ch_env \<Rightarrow> fault \<Rightarrow> event \<Rightarrow> event list \<Rightarrow> go_error option \<times> event list" where
  "clickhouse_Record env fault e rows =
     (case ch_exec_row env e of
        None \<Rightarrow> (Some (Opaque ''conversion''), rows)
      | Some r \<Rightarrow> ch_insert fault [r] rows)"

text \<open>
  \<open>prepared\<close> says whether \<open>PrepareBatch\<close> succeeded. Rows are collected by \<open>Append\<close> and reach the
  server with \<open>Send\<close>.
\<close>

definition clickhouse_RecordBatch :: "ch_env \<Rightarrow> bool \<Rightarrow> fault \<Rightarrow> event list \<Rightarrow> event list \<Rightarrow> go_error option \<times> event list" where
  "clickhouse_RecordBatch env prepared fault batch rows =
     (if length batch = 0 then (None, rows)
      else if \<not> prepared then (Some (Opaque ''prepare''), rows)
      else case those (map (ch_batch_row env) batch) of
        None \<Rightarrow> (Some (Opaque ''conversion''), rows)
      | Some new \<Rightarrow> ch_insert fault new rows)"

definition ch_key :: "event \<Rightarrow> bytes \<times> bytes" where
  "ch_key e = (TenantID e, EventID e)"

text \<open>\<open>FROM events FINAL\<close>: of each key the row inserted last.\<close>

fun final_rows :: "event list \<Rightarrow> event list" where
  "final_rows [] = []"
| "final_rows (r # rs) = (if ch_key r \<in> set (map ch_key rs) then final_rows rs else r # final_rows rs)"

definition selected :: "ch_env \<Rightarrow> bytes \<Rightarrow> bytes \<Rightarrow> instant \<Rightarrow> instant \<Rightarrow> event list \<Rightarrow> event list" where
  "selected env tenantID eventType t0 t1 rows =
     filter (\<lambda>r. TenantID r = tenantID \<and> (eventType = [] \<or> Type r = eventType) \<and>
                 ch_bound env t0 \<le> Timestamp r \<and> Timestamp r < ch_bound env t1) (final_rows rows)"

text \<open>\<open>GROUP BY event_type\<close> with \<open>uniqExact(event_id)\<close>; \<open>perm\<close> is the order of the groups.\<close>

definition type_groups :: "event list \<Rightarrow> summary list" where
  "type_groups rows =
     map (\<lambda>ty. (ty, length (remdups (map EventID (filter (\<lambda>r. Type r = ty) rows))))) (remdups (map Type rows))"

definition clickhouse_Summary ::
  "ch_env \<Rightarrow> fault \<Rightarrow> (summary list \<Rightarrow> summary list) \<Rightarrow> bytes \<Rightarrow> bytes \<Rightarrow> instant \<Rightarrow> instant \<Rightarrow> event list
     \<Rightarrow> go_error + summary list" where
  "clickhouse_Summary env fault perm tenantID eventType t0 t1 rows =
     (if fault \<noteq> Fine then Inl (Opaque ''connection'')
      else Inr (sort_key (\<lambda>(ty, n). - int n) (perm (type_groups (selected env tenantID eventType t0 t1 rows)))))"

lemmas [analytics_defs] = ch_insert_def clickhouse_Record_def clickhouse_RecordBatch_def selected_def type_groups_def clickhouse_Summary_def

section \<open>What a summary counts\<close>

lemma final_rows_distinct: "distinct (map ch_key (final_rows rows))"
proof (induction rows)
  case (Cons r rs)
  have "ch_key ` set (final_rows rs) \<subseteq> ch_key ` set rs" by (induction rs) auto
  then show ?case using Cons by auto
qed simp

lemma final_rows_keys: "ch_key ` set (final_rows rows) = ch_key ` set rows"
  by (induction rows) auto

lemma final_rows_append:
  "final_rows (xs @ ys) = filter (\<lambda>r. ch_key r \<notin> ch_key ` set ys) (final_rows xs) @ final_rows ys"
  by (induction xs) auto

text \<open>Inserting the same rows again changes nothing that a query with \<open>FINAL\<close> sees.\<close>

lemma final_rows_again: "final_rows ((rows @ new) @ new) = final_rows (rows @ new)"
proof -
  have "ch_key x \<in> ch_key ` set new" if "x \<in> set (final_rows new)" for x
    using that final_rows_keys [of new] by blast
  then have "filter (\<lambda>r. ch_key r \<notin> ch_key ` set new) (final_rows new) = []" unfolding filter_empty_conv by blast
  then show ?thesis unfolding final_rows_append [of _ new] filter_append filter_filter by simp
qed

lemma type_groups_set:
  "(ty, n) \<in> set (type_groups rows) \<longleftrightarrow> ty \<in> Type ` set rows \<and> n = card {EventID r | r. r \<in> set rows \<and> Type r = ty}"
proof -
  have "EventID ` {r \<in> set rows. Type r = ty} = {EventID r | r. r \<in> set rows \<and> Type r = ty}" by auto
  then have "length (remdups (map EventID (filter (\<lambda>r. Type r = ty) rows))) = card {EventID r | r. r \<in> set rows \<and> Type r = ty}"
    by (simp add: length_remdups_card_conv)
  then show ?thesis by (auto simp: type_groups_def)
qed

lemma clickhouse_Summary_set:
  assumes "\<forall>xs. mset (perm xs) = mset xs" "clickhouse_Summary env fault perm tid ty t0 t1 rows = Inr out"
  shows "set out = set (type_groups (selected env tid ty t0 t1 rows))" "sorted_wrt (\<lambda>a b. snd b \<le> snd a) out"
    "distinct (map fst out)"
proof -
  let ?g = "type_groups (selected env tid ty t0 t1 rows)"
  have out: "out = sort_key (\<lambda>(ty, n). - int n) (perm ?g)" using assms(2) by (simp add: clickhouse_Summary_def split: if_splits)
  have m: "mset out = mset ?g" using assms(1) out by simp
  then show "set out = set ?g" by (metis set_mset_mset)
  have "distinct (map fst ?g)" by (simp add: type_groups_def comp_def)
  then show "distinct (map fst out)"
    using m by (metis mset_map mset_eq_imp_distinct_iff)
  have "sorted (map (\<lambda>(ty, n). - int n) out)" unfolding out by (rule sorted_sort_key)
  then show "sorted_wrt (\<lambda>a b. snd b \<le> snd a) out"
    by (auto simp: sorted_map split_beta elim!: sorted_wrt_mono_rel [rotated])
qed

text \<open>The batch consumer's retries: the attempts up to the first that succeeds.\<close>

fun record_attempts :: "ch_env \<Rightarrow> (bool \<times> fault) list \<Rightarrow> event list \<Rightarrow> event list \<Rightarrow> bool \<times> event list" where
  "record_attempts env [] batch rows = (False, rows)"
| "record_attempts env ((prepared, fault) # fs) batch rows =
     (case clickhouse_RecordBatch env prepared fault batch rows of
        (None, rows') \<Rightarrow> (True, rows')
      | (Some err, rows') \<Rightarrow> record_attempts env fs batch rows')"

lemma RecordBatch_cases:
  assumes "clickhouse_RecordBatch env prepared fault batch rows = (err, rows')"
  obtains "err \<noteq> None" "rows' = rows" | new where "those (map (ch_batch_row env) batch) = Some new" "rows' = rows @ new"
proof (cases "batch = []")
  case True
  then show ?thesis using assms that(2) [of "[]"] by (simp add: clickhouse_RecordBatch_def)
next
  case False
  then show ?thesis using assms that
    by (cases "those (map (ch_batch_row env) batch)"; cases prepared; cases fault)
      (auto simp: clickhouse_RecordBatch_def ch_insert_def)
qed

lemma record_attempts_final:
  "record_attempts env fs batch rows = (True, rows') \<Longrightarrow>
     \<exists>new. those (map (ch_batch_row env) batch) = Some new \<and> final_rows rows' = final_rows (rows @ new)"
proof (induction fs arbitrary: rows)
  case Nil
  then show ?case by simp
next
  case (Cons f fs)
  obtain p g where f: "f = (p, g)" by (cases f)
  obtain err rows1 where r: "clickhouse_RecordBatch env p g batch rows = (err, rows1)" by fastforce
  have next1: "err = None \<Longrightarrow> rows' = rows1" "err \<noteq> None \<Longrightarrow> record_attempts env fs batch rows1 = (True, rows')"
    using Cons.prems f r by auto
  from r show ?case
  proof (cases rule: RecordBatch_cases)
    case 1
    then show ?thesis using Cons.IH [of rows1] next1 by simp
  next
    case (2 new)
    show ?thesis
    proof (cases err)
      case None
      then show ?thesis using 2 next1 by simp
    next
      case (Some e)
      then obtain new' where "those (map (ch_batch_row env) batch) = Some new'" "final_rows rows' = final_rows (rows1 @ new')"
        using Cons.IH [of rows1] next1 by auto
      then show ?thesis using 2 final_rows_again [of rows new] by simp
    qed
  qed
qed

section \<open>Properties\<close>

text \<open>
  C31: what a summary says. It lists each event type at most once, the most frequent first,
  and the count of a type is the number of different event IDs of the tenant's current rows
  of that type within the bounds, never zero; rows of other tenants play no part.
\<close>

theorem summary_counts_distinct_events:
  assumes "\<forall>xs. mset (perm xs) = mset xs" "clickhouse_Summary env fault perm tid ty t0 t1 rows = Inr out"
  shows "distinct (map fst out) \<and> sorted_wrt (\<lambda>a b. snd b \<le> snd a) out \<and>
    (\<forall>x n. (x, n) \<in> set out \<longleftrightarrow>
       n = card {EventID r | r. r \<in> set (final_rows rows) \<and> TenantID r = tid \<and> Type r = x \<and> (ty = [] \<or> x = ty) \<and>
                  ch_bound env t0 \<le> Timestamp r \<and> Timestamp r < ch_bound env t1} \<and> 0 < n)"
proof -
  note s = clickhouse_Summary_set [OF assms]
  have "(x, n) \<in> set (type_groups (selected env tid ty t0 t1 rows)) \<longleftrightarrow>
      n = card {EventID r | r. r \<in> set (final_rows rows) \<and> TenantID r = tid \<and> Type r = x \<and> (ty = [] \<or> x = ty) \<and>
                  ch_bound env t0 \<le> Timestamp r \<and> Timestamp r < ch_bound env t1} \<and> 0 < n" (is "_ \<longleftrightarrow> n = card ?S \<and> 0 < n") for x n
  proof -
    have S: "{EventID r | r. r \<in> set (selected env tid ty t0 t1 rows) \<and> Type r = x} = ?S" by (auto simp: selected_def)
    have "finite ?S" unfolding S [symmetric] by (rule finite_subset [of _ "EventID ` set (selected env tid ty t0 t1 rows)"]) auto
    moreover have "x \<in> Type ` set (selected env tid ty t0 t1 rows) \<longleftrightarrow> ?S \<noteq> {}" unfolding S [symmetric] by auto
    ultimately show ?thesis by (auto simp: type_groups_set S card_gt_0_iff)
  qed
  then show ?thesis using s by simp
qed

text \<open>
  Redelivery does not change a summary. However many attempts of a batch were lost or
  repeated before one succeeded, every summary is what it would be after one undisturbed
  insert of the batch.
\<close>

theorem retried_batches_count_once:
  assumes "record_attempts env faults batch rows = (True, rows')"
  shows "\<exists>new. clickhouse_RecordBatch env True Fine batch rows = (None, rows @ new) \<and>
    clickhouse_Summary env f perm tid ty t0 t1 rows' = clickhouse_Summary env f perm tid ty t0 t1 (rows @ new)"
proof -
  obtain new where new: "those (map (ch_batch_row env) batch) = Some new" "final_rows rows' = final_rows (rows @ new)"
    using record_attempts_final [OF assms] by blast
  moreover have "clickhouse_RecordBatch env True Fine batch rows = (None, rows @ new)"
    using new(1) by (cases batch) (auto simp: clickhouse_RecordBatch_def ch_insert_def)
  ultimately show ?thesis by (auto simp: clickhouse_Summary_def selected_def)
qed

definition sample_ch :: ch_env where
  "sample_ch = \<lparr>ch_exec_row = Some, ch_batch_row = Some, ch_bound = id\<rparr>"

lemma sample_summary_rows:
  "clickhouse_Summary sample_ch Fine id ''acme'' [] (- 1) 1 [sample_event ''a'', sample_event ''b'', sample_event ''a''] =
     Inr [(''t'', 2)]"
  by (simp add: clickhouse_Summary_def selected_def type_groups_def sample_ch_def sample_event_def ch_key_def)

theorem summary_counts_distinct_events_witness:
  "card {EventID r | r. r \<in> set (final_rows [sample_event ''a'', sample_event ''b'', sample_event ''a'']) \<and> TenantID r = ''acme'' \<and>
     Type r = ''t'' \<and> (([] :: bytes) = [] \<or> ''t'' = []) \<and> ch_bound sample_ch (- 1) \<le> Timestamp r \<and> Timestamp r < ch_bound sample_ch 1} = 2"
proof -
  have p: "\<forall>xs. mset (id xs) = mset (xs :: summary list)" by simp
  have m: "(''t'', 2) \<in> set [(''t'', 2 :: nat)]" by simp
  note counts = conjunct2 [OF conjunct2 [OF summary_counts_distinct_events [OF p sample_summary_rows]], rule_format]
  show ?thesis by (rule conjunct1 [OF iffD1 [OF counts m], symmetric])
qed

theorem retried_batches_count_once_witness:
  "clickhouse_Summary sample_ch Fine id ''acme'' [] (- 1) 1
     (snd (record_attempts sample_ch [(True, ReplyLost), (False, Fine), (True, Fine)] [sample_event ''a'', sample_event ''b''] [])) =
   clickhouse_Summary sample_ch Fine id ''acme'' [] (- 1) 1 [sample_event ''a'', sample_event ''b'']"
proof -
  have a: "record_attempts sample_ch [(True, ReplyLost), (False, Fine), (True, Fine)] [sample_event ''a'', sample_event ''b''] [] =
      (True, [sample_event ''a'', sample_event ''b'', sample_event ''a'', sample_event ''b''])"
    by (simp add: clickhouse_RecordBatch_def ch_insert_def sample_ch_def)
  have b: "clickhouse_RecordBatch sample_ch True Fine [sample_event ''a'', sample_event ''b''] [] =
      (None, [sample_event ''a'', sample_event ''b''])"
    by (simp add: clickhouse_RecordBatch_def ch_insert_def sample_ch_def)
  show ?thesis using retried_batches_count_once [OF a, of Fine id "''acme''" "[]" "- 1" 1] a b by auto
qed

end
