(* ===== verification/Durable_Workers.thy ===== *)
theory Durable_Workers
  imports Consumer_Steps Postgres_Workers Analytics_Store
begin

text \<open>
  The persistence and the analytics worker as \<open>RunWorker\<close> of \<open>internal/app/app.go\<close> starts them:
  the consumer of \<open>internal/kafka/producer.go\<close> with the handlers of \<open>internal/worker\<close> over
  PostgreSQL and ClickHouse. Every call of a store runs under a fault of its own, and while
  the consumer waits for Kafka or a timer, other services use the stores too. Both workers
  keep the contract of a handler that stores.
\<close>

section \<open>Surroundings\<close>

text \<open>
  The world is a pair: what belongs to Kafka, the timers and the context, and the store.
  While an operation of the first runs, \<open>g\<close> happens to the second.
\<close>

definition beside :: "('a \<Rightarrow> 'k \<Rightarrow> 'r \<times> 'k) \<Rightarrow> ('k \<Rightarrow> 'd \<Rightarrow> 'd) \<Rightarrow> 'a \<Rightarrow> 'k \<times> 'd \<Rightarrow> 'r \<times> 'k \<times> 'd" where
  "beside f g a w = (case f a (fst w) of (r, k) \<Rightarrow> (r, k, g k (snd w)))"

definition on_store :: "('a \<Rightarrow> 'k \<Rightarrow> 'd \<Rightarrow> 'r \<times> 'd) \<Rightarrow> 'a \<Rightarrow> 'k \<times> 'd \<Rightarrow> 'r \<times> 'k \<times> 'd" where
  "on_store h a w = (case h a (fst w) (snd w) of (r, d) \<Rightarrow> (r, fst w, d))"

definition worker_env ::
  "'k consumer_env \<Rightarrow> ('k \<Rightarrow> 'd \<Rightarrow> 'd) \<Rightarrow> (event \<Rightarrow> 'k \<Rightarrow> 'd \<Rightarrow> go_error option \<times> 'd)
     \<Rightarrow> (event list \<Rightarrow> 'k \<Rightarrow> 'd \<Rightarrow> go_error option \<times> 'd) \<Rightarrow> ('k \<times> 'd) consumer_env" where
  "worker_env kafka other handler batchHandler =
     \<lparr>ce_fetch = beside (ce_fetch kafka) other, ce_commit = beside (ce_commit kafka) other,
      ce_write = beside (ce_write kafka) other, ce_handler = on_store handler, ce_batchHandler = on_store batchHandler,
      ce_wait = beside (ce_wait kafka) other, ce_done = (\<lambda>w. ce_done kafka (fst w)), ce_now = (\<lambda>w. ce_now kafka (fst w))\<rparr>"

text \<open>What a store and its handlers must promise for the worker to keep the consumer's contract.\<close>

lemma storing_worker:
  assumes "\<And>k d e. has e d \<Longrightarrow> has e (other k d)"
    and "\<And>x k d err d' e. handler x k d = (err, d') \<Longrightarrow> has e d \<Longrightarrow> has e d'"
    and "\<And>es k d err d' e. batchHandler es k d = (err, d') \<Longrightarrow> has e d \<Longrightarrow> has e d'"
    and "\<And>x k d err d'. handler x k d = (Some err, d') \<Longrightarrow> \<not> as_dead_letter err"
    and "\<And>es k d err d'. batchHandler es k d = (Some err, d') \<Longrightarrow> as_batch_dead_letter err = None"
    and "\<And>x k d d'. handler x k d = (None, d') \<Longrightarrow> has x d'"
    and "\<And>es k d d' e. batchHandler es k d = (None, d') \<Longrightarrow> e \<in> set es \<Longrightarrow> has e d'"
  shows "storing_handler (worker_env kafka other handler batchHandler) (\<lambda>e w. has e (snd w))"
  by unfold_locales
    (auto simp: worker_env_def beside_def on_store_def split: prod.splits dest: assms)

section \<open>The persistence worker\<close>

definition faulty_event_store :: "pg_env \<Rightarrow> fault \<times> fault \<Rightarrow> database event_store" where
  "faulty_event_store env faults =
     \<lparr>es_SaveEvent = (\<lambda>e db. case SaveEvent env (fst faults) e db of
         ((inserted, err), db') \<Rightarrow> ((inserted, map_option go_of_pg err), db')),
      es_SaveEvents = Some (\<lambda>es db. case SaveEvents env (fst faults) (snd faults) es db of
         (err, db') \<Rightarrow> (map_option go_of_pg err, db'))\<rparr>"

text \<open>Other services may do anything to the database but take events away.\<close>

definition others_on_database :: "(database \<Rightarrow> database) \<Rightarrow> database \<Rightarrow> database" where
  "others_on_database other db =
     (other db)\<lparr>db_events := db_events db @ new_rows (db_events db) (db_events (other db))\<rparr>"

definition persistence_worker_env ::
  "pg_env \<Rightarrow> ('k \<Rightarrow> fault \<times> fault) \<Rightarrow> ('k \<Rightarrow> database \<Rightarrow> database) \<Rightarrow> worker_metrics option \<Rightarrow> 'k consumer_env
     \<Rightarrow> ('k \<times> database) consumer_env" where
  "persistence_worker_env env faults other metrics kafka =
     worker_env kafka (\<lambda>k. others_on_database (other k))
       (\<lambda>e k db. case persistence_Handle (faulty_event_store env (faults k)) e metrics db of (err, m, db') \<Rightarrow> (err, db'))
       (\<lambda>es k db. case persistence_HandleBatch (faulty_event_store env (faults k)) es metrics db of (err, m, db') \<Rightarrow> (err, db'))"

text \<open>An event is stored when its row, as PostgreSQL takes it, has its key in the table.\<close>

definition pg_stored :: "pg_env \<Rightarrow> event \<Rightarrow> database \<Rightarrow> bool" where
  "pg_stored env e db \<longleftrightarrow> (\<exists>r. pe_row env e = Inr r \<and> row_key r \<in> row_key ` set (db_events db))"

lemma pg_stored_grows: "row_key ` set (db_events db) \<subseteq> row_key ` set (db_events db') \<Longrightarrow> pg_stored env e db \<Longrightarrow> pg_stored env e db'"
  unfolding pg_stored_def by blast

lemma go_of_pg_plain: "\<not> as_dead_letter (go_of_pg err)" "as_batch_dead_letter (go_of_pg err) = None"
  by (cases err; simp)+

lemma others_on_database_grows: "row_key ` set (db_events db) \<subseteq> row_key ` set (db_events (others_on_database other db))"
  by (auto simp: others_on_database_def)

lemma inserted_stored:
  assumes "encode_rows (pe_row env) es = Inr rows"
  shows "row_key ` set (db_events db) \<subseteq> row_key ` set (db_events (db\<lparr>db_events := db_events db @ new_rows (db_events db) rows\<rparr>))"
    and "e \<in> set es \<Longrightarrow> pg_stored env e (db\<lparr>db_events := db_events db @ new_rows (db_events db) rows\<rparr>)"
proof -
  show "row_key ` set (db_events db) \<subseteq> row_key ` set (db_events (db\<lparr>db_events := db_events db @ new_rows (db_events db) rows\<rparr>))"
    by auto
  assume "e \<in> set es"
  then obtain i where i: "i < length es" "es ! i = e" by (auto simp: in_set_conv_nth)
  then have "rows ! i \<in> set rows" "pe_row env e = Inr (rows ! i)"
    using encode_rows_rows [OF assms] by (auto simp: list_all2_conv_all_nth)
  then show "pg_stored env e (db\<lparr>db_events := db_events db @ new_rows (db_events db) rows\<rparr>)"
    using new_rows_keys [of "db_events db" rows] unfolding pg_stored_def by auto
qed

lemma SaveEvents_stores:
  assumes "SaveEvents env f1 f2 es db = (err, db')"
  shows "row_key ` set (db_events db) \<subseteq> row_key ` set (db_events db')" "err = None \<Longrightarrow> e \<in> set es \<Longrightarrow> pg_stored env e db'"
  using SaveEvents_effect [OF assms] inserted_stored by auto

lemma SaveEvent_stores:
  assumes "SaveEvent env f e db = ((ins, err), db')"
  shows "row_key ` set (db_events db) \<subseteq> row_key ` set (db_events db')" "err = None \<Longrightarrow> pg_stored env e db'"
proof -
  have "db' = db \<and> err \<noteq> None \<or>
      (\<exists>rows. encode_rows (pe_row env) [e] = Inr rows \<and> db' = db\<lparr>db_events := db_events db @ new_rows (db_events db) rows\<rparr>)"
    using assms
    by (cases f) (auto simp: SaveEvent_def pg_exec_def sql_insert_events_def Let_def split: sum.splits if_splits prod.splits)
  then show "row_key ` set (db_events db) \<subseteq> row_key ` set (db_events db')" "err = None \<Longrightarrow> pg_stored env e db'"
    using inserted_stored [of env "[e]"] by auto
qed

interpretation persistence_worker: storing_handler "persistence_worker_env env faults other metrics kafka" "\<lambda>e w. pg_stored env e (snd w)"
  unfolding persistence_worker_env_def
  by (rule storing_worker)
    (auto simp: persistence_Handle_def persistence_HandleBatch_def faulty_event_store_def go_of_pg_plain split: prod.splits
      intro: pg_stored_grows [OF others_on_database_grows] dest: SaveEvents_stores SaveEvent_stores pg_stored_grows [OF SaveEvents_stores(1)]
        pg_stored_grows [OF SaveEvent_stores(1)])

section \<open>The analytics worker\<close>

definition faulty_analytics_store :: "ch_env \<Rightarrow> bool \<times> fault \<Rightarrow> event list analytics_store" where
  "faulty_analytics_store env faults =
     \<lparr>as_Record = clickhouse_Record env (snd faults),
      as_RecordBatch = Some (clickhouse_RecordBatch env (fst faults) (snd faults))\<rparr>"

text \<open>Other services only insert.\<close>

definition analytics_worker_env ::
  "ch_env \<Rightarrow> ('k \<Rightarrow> bool \<times> fault) \<Rightarrow> ('k \<Rightarrow> event list) \<Rightarrow> 'k consumer_env \<Rightarrow> ('k \<times> event list) consumer_env" where
  "analytics_worker_env env faults other kafka =
     worker_env kafka (\<lambda>k rows. rows @ other k)
       (\<lambda>e k rows. analytics_Handle (faulty_analytics_store env (faults k)) e rows)
       (\<lambda>es k rows. analytics_HandleBatch (faulty_analytics_store env (faults k)) es rows)"

definition ch_stored :: "ch_env \<Rightarrow> event \<Rightarrow> event list \<Rightarrow> bool" where
  "ch_stored env e rows \<longleftrightarrow> (\<exists>r \<in> set rows. ch_exec_row env e = Some r \<or> ch_batch_row env e = Some r)"

lemma those_set: "those xs = Some ys \<Longrightarrow> x \<in> set xs \<Longrightarrow> \<exists>y \<in> set ys. x = Some y"
  by (induction xs arbitrary: ys) (auto split: option.splits)

lemma ch_insert_stores:
  assumes "ch_insert f new rows = (err, rows')"
  shows "set rows \<subseteq> set rows'" "err = None \<Longrightarrow> set new \<subseteq> set rows'" "err = Some x \<Longrightarrow> \<not> as_dead_letter x \<and> as_batch_dead_letter x = None"
  using assms by (cases f; auto simp: ch_insert_def)+

lemma Record_stores:
  assumes "clickhouse_Record env f e rows = (err, rows')"
  shows "set rows \<subseteq> set rows'" "err = None \<Longrightarrow> ch_stored env e rows'" "err = Some x \<Longrightarrow> \<not> as_dead_letter x"
  using assms ch_insert_stores
  by (fastforce simp: clickhouse_Record_def ch_stored_def split: option.splits)+

lemma RecordBatch_stores:
  assumes "clickhouse_RecordBatch env p f es rows = (err, rows')"
  shows "set rows \<subseteq> set rows'" "err = None \<Longrightarrow> e \<in> set es \<Longrightarrow> ch_stored env e rows'" "err = Some x \<Longrightarrow> as_batch_dead_letter x = None"
proof -
  have "rows' = rows \<and> (err = None \<longrightarrow> es = []) \<and> (\<forall>x. err = Some x \<longrightarrow> as_batch_dead_letter x = None) \<or>
      (\<exists>new. those (map (ch_batch_row env) es) = Some new \<and> ch_insert f new rows = (err, rows'))"
    using assms by (auto simp: clickhouse_RecordBatch_def split: if_splits option.splits)
  then show "set rows \<subseteq> set rows'" "err = None \<Longrightarrow> e \<in> set es \<Longrightarrow> ch_stored env e rows'" "err = Some x \<Longrightarrow> as_batch_dead_letter x = None"
    using ch_insert_stores those_set [of "map (ch_batch_row env) es" _ "ch_batch_row env e"]
    by (fastforce simp: ch_stored_def)+
qed

lemma ch_stored_grows: "set rows \<subseteq> set rows' \<Longrightarrow> ch_stored env e rows \<Longrightarrow> ch_stored env e rows'"
  unfolding ch_stored_def by blast

interpretation analytics_worker: storing_handler "analytics_worker_env env faults other kafka" "\<lambda>e w. ch_stored env e (snd w)"
  unfolding analytics_worker_env_def
  by (rule storing_worker)
    (auto simp: analytics_Handle_def analytics_HandleBatch_def faulty_analytics_store_def
      intro: ch_stored_grows [of rows "rows @ x" for rows x]
      dest: RecordBatch_stores(2,3) Record_stores(2,3) ch_stored_grows [OF RecordBatch_stores(1)] ch_stored_grows [OF Record_stores(1)])

section \<open>What is committed is stored\<close>

abbreviation committed_by :: "'w consumer_env \<Rightarrow> consumer \<Rightarrow> nat \<Rightarrow> 'w \<Rightarrow> message list" where
  "committed_by env c n w \<equiv> committed (log (snd (runBatch env c n Second (State w []))))"

abbreviation store_after :: "('k \<times> 'd) consumer_env \<Rightarrow> consumer \<Rightarrow> nat \<Rightarrow> 'k \<times> 'd \<Rightarrow> 'd" where
  "store_after env c n w \<equiv> snd (world (snd (runBatch env c n Second (State w []))))"

lemma worker_env_now: "ce_now (worker_env kafka other h b) v = ce_now kafka (fst v)"
  by (simp add: worker_env_def)

lemma committed_persisted:
  assumes "m \<in> set (committed_by (persistence_worker_env env faults other metrics kafka) c n w)" "keeps_keys env"
    and "Unmarshal_event (m_Value m) = Some e" "\<forall>k. Validate (ce_now kafka k) 0 e = None"
  shows "row_key e \<in> row_key ` set (db_events (store_after (persistence_worker_env env faults other metrics kafka) c n w))"
proof -
  have "pg_stored env e (store_after (persistence_worker_env env faults other metrics kafka) c n w)"
    using persistence_worker.committed_stored [OF assms(1)] assms(3,4)
    by (simp add: persistence_worker_env_def worker_env_now)
  then show ?thesis using assms(2) by (auto simp: pg_stored_def keeps_keys_def)
qed

section \<open>Properties\<close>


text \<open>The first insert loses its reply, the retry after the pause goes through.\<close>

definition sample_kafka :: "nat consumer_env" where
  "sample_kafka = (sample_consumer_env (\<lambda>_. False))\<lparr>ce_wait := \<lambda>_ k. (True, k + 1)\<rparr>"

definition sample_analytics :: "(nat \<times> event list) consumer_env" where
  "sample_analytics = analytics_worker_env sample_ch (\<lambda>k. (True, if k = 2 then ReplyLost else Fine)) (\<lambda>_. []) sample_kafka"

lemma sample_analytics_run:
  "committed_by sample_analytics sample_consumer 3 (0, []) = [sample_message ''a'', sample_message ''b'']"
  "store_after sample_analytics sample_consumer 3 (0, []) =
     [sample_event ''a'', sample_event ''b'', sample_event ''a'', sample_event ''b'']"
  by (simp_all add: sample_analytics_def analytics_worker_env_def worker_env_def beside_def on_store_def sample_kafka_def sample_defs
      analytics_HandleBatch_def faulty_analytics_store_def clickhouse_RecordBatch_def ch_insert_def sample_ch_def numeral_3_eq_3
      fetchBatch_def ctx_done_def next_backoff_def time_defs step_defs)


end
