(* ===== verification/Ratelimit.thy ===== *)
theory Ratelimit
  imports Pulse_Prelude Complex_Main
begin

text \<open>
  \<open>internal/ratelimit\<close>: the token bucket in process memory (\<open>limiter.go\<close>) and the same
  bucket as a Lua script run by Redis (\<open>redis.go\<close>).

  A \<open>float64\<close> is the rational it denotes. Every floating-point operation of the code is
  the exact operation followed by \<open>rnd\<close>, the rounding to the nearest double, which is an
  argument of the definitions: \<open>rounding\<close> states what the theorems on bounds need of it
  (monotone, exact on the integers up to \<open>2 ^ 53\<close>), and the theorems on rates and on the
  agreement of the two limiters are about exact arithmetic, \<open>rnd = id\<close>. Overflow to
  infinity and subnormal numbers do not occur for the magnitudes involved (a 64-bit limit,
  times in microseconds or seconds).

  Redis is a table of hashes with an expiry, and the script is what \<open>token_script\<close>
  computes on it; the connection (the \<open>redis.Scripter\<close>) is an argument of \<open>redis_AllowN\<close>.
  A number stored in a hash by a script is formatted with 17 significant digits, so reading
  it back gives the same double.
\<close>

named_theorems limiter_defs "definitions of the rate limiter operations"

section \<open>Data\<close>

datatype limiter_error = ErrUnavailable

record bucket =
  b_tokens :: rat
  b_timestamp :: instant

record memory_limiter =
  lim_limit :: int
  lim_rate :: rat
  lim_items :: "bucket gomap"

section \<open>The in-memory limiter\<close>

text \<open>\<open>Duration.Seconds\<close>: whole seconds plus the rounded fraction.\<close>

definition Seconds :: "(rat \<Rightarrow> rat) \<Rightarrow> duration \<Rightarrow> rat" where
  "Seconds rnd d =
     rnd (of_int (go_div d 1000000000) + rnd (of_int (go_mod d 1000000000) / 1000000000))"

definition NewMemoryWithClock :: "(rat \<Rightarrow> rat) \<Rightarrow> int \<Rightarrow> duration \<Rightarrow> memory_limiter" where
  "NewMemoryWithClock rnd limit window =
     \<lparr>lim_limit = limit,
      lim_rate = (if 0 < window then rnd (rnd (of_int limit) / Seconds rnd window) else 0),
      lim_items = []\<rparr>"

definition float_min :: "rat \<Rightarrow> rat \<Rightarrow> rat" where
  "float_min a b = (if a < b then a else b)"

definition memory_refill :: "(rat \<Rightarrow> rat) \<Rightarrow> memory_limiter \<Rightarrow> instant \<Rightarrow> bytes \<Rightarrow> bucket" where
  "memory_refill rnd m now tenantID =
     (case map_of (lim_items m) tenantID of
        None \<Rightarrow> \<lparr>b_tokens = rnd (of_int (lim_limit m)), b_timestamp = now\<rparr>
      | Some b \<Rightarrow>
          if b_timestamp b < now
          then \<lparr>b_tokens = float_min (rnd (of_int (lim_limit m)))
                  (rnd (b_tokens b + rnd (Seconds rnd (time_Sub now (b_timestamp b)) * lim_rate m))),
                b_timestamp = now\<rparr>
          else b)"

definition memory_AllowN ::
  "(rat \<Rightarrow> rat) \<Rightarrow> memory_limiter \<Rightarrow> instant \<Rightarrow> bytes \<Rightarrow> int \<Rightarrow> (limiter_error + bool) \<times> memory_limiter" where
  "memory_AllowN rnd m now tenantID amount =
     (if amount \<le> 0 then (Inr True, m)
      else if lim_limit m \<le> 0 then (Inr True, m)
      else if lim_rate m \<le> 0 then (Inl ErrUnavailable, m)
      else
        let b = memory_refill rnd m now tenantID in
        if b_tokens b < rnd (of_int amount)
        then (Inr False, m\<lparr>lim_items := AList.update tenantID b (lim_items m)\<rparr>)
        else (Inr True, m\<lparr>lim_items := AList.update tenantID
                (b\<lparr>b_tokens := rnd (b_tokens b - rnd (of_int amount))\<rparr>) (lim_items m)\<rparr>))"

section \<open>The Redis limiter\<close>

text \<open>A hash with its fields and the time in milliseconds at which it expires.\<close>

record redis_hash =
  h_tokens :: rat
  h_timestamp :: int
  h_expires :: int

type_synonym redis_db = "redis_hash gomap"

definition redis_get :: "int \<Rightarrow> bytes \<Rightarrow> redis_db \<Rightarrow> redis_hash option" where
  "redis_get now key db =
     (case map_of db key of
        None \<Rightarrow> None
      | Some h \<Rightarrow> if h_expires h < now div 1000 then None else Some h)"

text \<open>
  The Lua script \<open>tokenBucketLua\<close>; \<open>now\<close> is the server's \<open>TIME\<close> in microseconds, and the
  result is the reply with the new database.
\<close>

definition script_refill :: "(rat \<Rightarrow> rat) \<Rightarrow> int \<Rightarrow> rat \<Rightarrow> rat \<Rightarrow> redis_hash option \<Rightarrow> rat \<times> int" where
  "script_refill rnd now capacity refill_rate state =
     (case state of
        None \<Rightarrow> (capacity, now)
      | Some h \<Rightarrow>
          let elapsed = now - h_timestamp h in
          if 0 < elapsed
          then (min capacity (rnd (h_tokens h + rnd (of_int elapsed * refill_rate))), now)
          else (h_tokens h, h_timestamp h))"

definition token_script ::
  "(rat \<Rightarrow> rat) \<Rightarrow> int \<Rightarrow> bytes \<Rightarrow> rat \<Rightarrow> rat \<Rightarrow> int \<Rightarrow> rat \<Rightarrow> redis_db \<Rightarrow> int \<times> redis_db" where
  "token_script rnd now key capacity refill_rate ttl amount db =
     (let (tokens, timestamp) = script_refill rnd now capacity refill_rate (redis_get now key db);
          (tokens', allowed) = (if amount \<le> tokens then (rnd (tokens - amount), 1) else (tokens, 0))
      in (allowed, AList.update key
            \<lparr>h_tokens = tokens', h_timestamp = timestamp, h_expires = now div 1000 + ttl\<rparr> db))"

record redis_limiter =
  r_limit :: int
  r_window :: duration
  r_prefix :: bytes

definition NewRedis :: "int \<Rightarrow> duration \<Rightarrow> redis_limiter" where
  "NewRedis limit window = \<lparr>r_limit = limit, r_window = window, r_prefix = ''pulse:rate:''\<rparr>"

definition windowMicros :: "duration \<Rightarrow> int" where
  "windowMicros w = (let n = go_div w 1000 in if n \<le> 0 then 1 else n)"

definition ttlMillis :: "duration \<Rightarrow> int" where
  "ttlMillis w =
     (let t = go_div w Millisecond;
          t' = (if go_mod w Millisecond \<noteq> 0 then t + 1 else t)
      in if t' < 1 then 1 else t')"

text \<open>
  \<open>run\<close> is \<open>tokenScript.Run(...).Int()\<close>: key, capacity, refill rate, ttl and amount to the
  integer reply, or \<open>None\<close> for any error, and the state of the server.
\<close>

definition redis_AllowN ::
  "(rat \<Rightarrow> rat) \<Rightarrow> (bytes \<Rightarrow> rat \<Rightarrow> rat \<Rightarrow> int \<Rightarrow> rat \<Rightarrow> 'd \<Rightarrow> int option \<times> 'd) \<Rightarrow> redis_limiter
     \<Rightarrow> bytes \<Rightarrow> int \<Rightarrow> 'd \<Rightarrow> (limiter_error + bool) \<times> 'd" where
  "redis_AllowN rnd run r tenantID amount db =
     (if amount \<le> 0 then (Inr True, db)
      else if r_limit r \<le> 0 then (Inr True, db)
      else if r_window r \<le> 0 then (Inl ErrUnavailable, db)
      else
        let ttl = ttlMillis (r_window r);
            refillRate = rnd (rnd (of_int (r_limit r)) / rnd (of_int (windowMicros (r_window r)))) in
        case run (r_prefix r @ tenantID) (of_int (r_limit r)) refillRate ttl (of_int amount) db of
          (None, db') \<Rightarrow> (Inl ErrUnavailable, db')
        | (Some n, db') \<Rightarrow>
            if n \<noteq> 0 \<and> n \<noteq> 1 then (Inl ErrUnavailable, db') else (Inr (n = 1), db'))"

text \<open>The limiter on a reachable server whose clock reads \<open>now\<close> microseconds.\<close>

definition redis_serve ::
  "(rat \<Rightarrow> rat) \<Rightarrow> redis_limiter \<Rightarrow> redis_db \<Rightarrow> int \<Rightarrow> bytes \<Rightarrow> int \<Rightarrow> (limiter_error + bool) \<times> redis_db" where
  "redis_serve rnd r db now tenantID amount =
     redis_AllowN rnd (\<lambda>key cap rate ttl n d. case token_script rnd now key cap rate ttl n d of
                         (x, d') \<Rightarrow> (Some x, d')) r tenantID amount db"

text \<open>A sequence of calls \<open>(time, tenant, amount)\<close>, and what one tenant was admitted.\<close>

fun limiter_run ::
  "('s \<Rightarrow> int \<Rightarrow> bytes \<Rightarrow> int \<Rightarrow> (limiter_error + bool) \<times> 's) \<Rightarrow> 's \<Rightarrow> (int \<times> bytes \<times> int) list
     \<Rightarrow> (limiter_error + bool) list \<times> 's" where
  "limiter_run allow s [] = ([], s)"
| "limiter_run allow s ((t, i, a) # cs) =
     (case allow s t i a of
        (r, s') \<Rightarrow> (case limiter_run allow s' cs of (rs, s'') \<Rightarrow> (r # rs, s'')))"

lemma limiter_run_step:
  assumes "allow s t i a = (r, s')"
  shows "fst (limiter_run allow s ((t, i, a) # cs)) = r # fst (limiter_run allow s' cs)"
    and "snd (limiter_run allow s ((t, i, a) # cs)) = snd (limiter_run allow s' cs)"
  using assms by (auto split: prod.splits)

fun admitted :: "bytes \<Rightarrow> (int \<times> bytes \<times> int) list \<Rightarrow> (limiter_error + bool) list \<Rightarrow> int" where
  "admitted i ((t, j, a) # cs) (r # rs) =
     (if j = i \<and> r = Inr True then a else 0) + admitted i cs rs"
| "admitted i cs rs = 0"

fun times_from :: "int \<Rightarrow> (int \<times> bytes \<times> int) list \<Rightarrow> bool" where
  "times_from t [] = True"
| "times_from t ((u, i, a) # cs) = (t \<le> u \<and> times_from u cs)"

fun last_time :: "int \<Rightarrow> (int \<times> bytes \<times> int) list \<Rightarrow> int" where
  "last_time t [] = t"
| "last_time t ((u, i, a) # cs) = last_time u cs"

lemmas [limiter_defs] = Seconds_def NewMemoryWithClock_def float_min_def memory_refill_def
  memory_AllowN_def redis_get_def script_refill_def token_script_def redis_AllowN_def redis_serve_def

section \<open>The interface: a token bucket per tenant\<close>

text \<open>
  What both limiters promise in exact arithmetic: \<open>level\<close> is the number of tokens a tenant
  has at a time; a positive amount is granted exactly when the level covers it, and only
  then taken; other tenants keep their level; in between it grows at most at \<open>rate\<close> per
  unit of time, up to \<open>cap\<close>. \<open>invar s t\<close> holds of states whose entries were written at or
  before \<open>t\<close>.
\<close>

locale token_limiter =
  fixes allow :: "'s \<Rightarrow> int \<Rightarrow> bytes \<Rightarrow> int \<Rightarrow> (limiter_error + bool) \<times> 's"
    and level :: "'s \<Rightarrow> int \<Rightarrow> bytes \<Rightarrow> rat"
    and invar :: "'s \<Rightarrow> int \<Rightarrow> bool"
    and cap :: rat and rate :: rat
  assumes invar_later: "invar s t \<Longrightarrow> t \<le> u \<Longrightarrow> invar s u"
    and invar_allow: "invar s t \<Longrightarrow> allow s t i a = (r, s') \<Longrightarrow> invar s' t"
    and level_nonneg: "invar s t \<Longrightarrow> 0 \<le> level s t i"
    and level_cap: "invar s t \<Longrightarrow> level s t i \<le> cap"
    and level_grows: "invar s t \<Longrightarrow> t \<le> u \<Longrightarrow> level s u i \<le> level s t i + of_int (u - t) * rate"
    and allow_decides: "invar s t \<Longrightarrow> 0 < a \<Longrightarrow> fst (allow s t i a) = Inr (of_int a \<le> level s t i)"
    and allow_trivial: "a \<le> 0 \<Longrightarrow> allow s t i a = (Inr True, s)"
    and level_granted: "invar s t \<Longrightarrow> 0 < a \<Longrightarrow> allow s t i a = (Inr True, s') \<Longrightarrow>
          level s' t i = level s t i - of_int a"
    and level_refused: "invar s t \<Longrightarrow> 0 < a \<Longrightarrow> allow s t i a = (Inr False, s') \<Longrightarrow>
          level s' t i = level s t i"
    and level_other: "invar s t \<Longrightarrow> allow s t i a = (r, s') \<Longrightarrow> j \<noteq> i \<Longrightarrow> t \<le> u \<Longrightarrow>
          level s' u j = level s u j"
begin

lemma too_large_refused: "invar s t \<Longrightarrow> 0 < a \<Longrightarrow> cap < of_int a \<Longrightarrow> fst (allow s t i a) = Inr False"
  using level_cap [of s t i] by (simp add: allow_decides)

lemma rate_nonneg_step:
  assumes "invar s t" "allow s t j a = (r, s')"
  shows "of_int (if j = i \<and> r = Inr True \<and> 0 < a then a else 0) + level s' t i = level s t i"
proof (cases "j = i \<and> 0 < a")
  case True
  then show ?thesis
    using assms allow_decides [of s t a i] level_granted [of s t a i s'] level_refused [of s t a i s']
    by (cases "of_int a \<le> level s t i") auto
next
  case False
  then show ?thesis
    using assms allow_trivial [of a s t j] level_other [of s t j a r s' i t]
    by (cases "j = i") auto
qed

lemma admitted_bound:
  assumes "invar s t0" and "times_from t0 cs" and "\<forall>(t, j, a) \<in> set cs. 0 < a"
    and "limiter_run allow s cs = (rs, s')"
  shows "of_int (admitted i cs rs) \<le> level s t0 i + of_int (last_time t0 cs - t0) * rate"
  using assms
proof (induction cs arbitrary: s t0 rs s')
  case Nil
  then show ?case by (simp add: level_nonneg)
next
  case (Cons call cs)
  obtain t j a where call: "call = (t, j, a)" by (cases call)
  obtain r s1 where r: "allow s t j a = (r, s1)" by fastforce
  obtain rs' s'' where run: "limiter_run allow s1 cs = (rs', s'')" by fastforce
  have t: "t0 \<le> t" "times_from t cs" "0 < a" using Cons.prems call by auto
  have inv: "invar s t" using Cons.prems(1) t(1) by (rule invar_later)
  have inv1: "invar s1 t" using invar_allow [OF inv r] .
  have rs: "rs = r # rs'" using Cons.prems(4) call r run by simp
  have "of_int (admitted i cs rs') \<le> level s1 t i + of_int (last_time t cs - t) * rate"
    using Cons.IH [OF inv1 t(2) _ run] Cons.prems(3) by simp
  moreover have "of_int (if j = i \<and> r = Inr True then a else 0) + level s1 t i = level s t i"
    using rate_nonneg_step [OF inv r, of i] t(3) by simp
  moreover have "level s t i \<le> level s t0 i + of_int (t - t0) * rate"
    by (rule level_grows [OF Cons.prems(1) t(1)])
  moreover have "of_int (last_time t cs - t0) * rate =
      of_int (last_time t cs - t) * rate + of_int (t - t0) * rate"
    by (simp add: algebra_simps)
  ultimately show ?case using call rs by (simp add: of_int_add)
qed

end

section \<open>The in-memory limiter implements it\<close>

lemma Seconds_exact: "Seconds id d = of_int d / 1000000000"
  by (simp add: Seconds_def go_mod_def field_simps)

lemma float_min_eq: "float_min a b = min a b"
  by (simp add: float_min_def min_def)

definition memory_level :: "memory_limiter \<Rightarrow> instant \<Rightarrow> bytes \<Rightarrow> rat" where
  "memory_level m t i = b_tokens (memory_refill id m t i)"

definition memory_inv :: "int \<Rightarrow> rat \<Rightarrow> memory_limiter \<Rightarrow> instant \<Rightarrow> bool" where
  "memory_inv limit rate m t \<longleftrightarrow> 0 < limit \<and> 0 < rate \<and> lim_limit m = limit \<and> lim_rate m = rate \<and>
     (\<forall>i b. map_of (lim_items m) i = Some b \<longrightarrow>
        0 \<le> b_tokens b \<and> b_tokens b \<le> of_int limit \<and> b_timestamp b \<le> t)"

lemma time_Sub_le: "u \<le> t \<Longrightarrow> 0 \<le> time_Sub t u \<and> time_Sub t u \<le> t - u"
  by (auto simp: time_Sub_def minDuration_def maxDuration_def)

lemma time_Sub_mono: "t \<le> t' \<Longrightarrow> time_Sub t u \<le> time_Sub t' u"
  by (auto simp: time_Sub_def)

lemma time_Sub_grow: "t \<le> t' \<Longrightarrow> u \<le> t \<Longrightarrow> time_Sub t' u \<le> time_Sub t u + (t' - t)"
  by (auto simp: time_Sub_def minDuration_def maxDuration_def)

lemma memory_level_Some:
  assumes "memory_inv limit rate m t" and "map_of (lim_items m) i = Some b" and "t \<le> u"
  shows "memory_level m u i =
    min (of_int limit) (b_tokens b + of_int (time_Sub u (b_timestamp b)) / 1000000000 * rate)"
proof (cases "u = b_timestamp b")
  case True
  with assms have "b_tokens b \<le> of_int limit" by (auto simp: memory_inv_def)
  with True assms(2) show ?thesis
    by (simp add: memory_level_def memory_refill_def time_Sub_def minDuration_def maxDuration_def min_def)
next
  case False
  with assms have "b_timestamp b < u" by (force simp: memory_inv_def)
  with assms show ?thesis
    by (simp add: memory_level_def memory_refill_def memory_inv_def Seconds_exact float_min_eq)
qed

lemma memory_level_None:
  "map_of (lim_items m) i = None \<Longrightarrow> memory_level m u i = of_int (lim_limit m)"
  by (simp add: memory_level_def memory_refill_def)

lemma memory_level_bounds:
  assumes "memory_inv limit rate m t"
  shows "0 \<le> memory_level m t i \<and> memory_level m t i \<le> of_int limit"
proof (cases "map_of (lim_items m) i")
  case None
  then show ?thesis using assms by (simp add: memory_level_None memory_inv_def)
next
  case (Some b)
  with assms have "0 \<le> time_Sub t (b_timestamp b)"
    by (auto simp: memory_inv_def dest: time_Sub_le)
  with Some assms show ?thesis
    by (auto simp: memory_level_Some [OF assms Some order_refl] memory_inv_def)
qed

lemma memory_level_grows:
  assumes inv: "memory_inv limit rate m t" and tu: "t \<le> u"
  shows "memory_level m u i \<le> memory_level m t i + of_int (u - t) * (rate / 1000000000)"
proof (cases "map_of (lim_items m) i")
  case None
  then show ?thesis using inv tu by (simp add: memory_level_None memory_inv_def)
next
  case (Some b)
  let ?d = "\<lambda>x. of_int (time_Sub x (b_timestamp b)) / 1000000000 * rate :: rat"
  have "b_timestamp b \<le> t" and rate: "0 < rate"
    using inv Some by (auto simp: memory_inv_def)
  from time_Sub_grow [OF tu this(1)]
  have "rat_of_int (time_Sub u (b_timestamp b)) \<le> of_int (time_Sub t (b_timestamp b) + (u - t))"
    by (simp only: of_int_le_iff)
  with rate have "?d u \<le> ?d t + of_int (u - t) * (rate / 1000000000)"
    by (simp add: field_simps) (metis distrib_left mult_le_cancel_left_pos)
  moreover have "0 \<le> of_int (u - t) * (rate / 1000000000)"
    using rate tu by simp
  ultimately show ?thesis
    unfolding memory_level_Some [OF inv Some tu] memory_level_Some [OF inv Some order_refl]
    by linarith
qed

lemma memory_refill_inv:
  assumes "memory_inv limit rate m t"
  shows "b_timestamp (memory_refill id m t i) = t \<or>
         map_of (lim_items m) i = Some (memory_refill id m t i)"
    and "b_timestamp (memory_refill id m t i) \<le> t"
  using assms by (auto simp: memory_refill_def memory_inv_def split: option.splits)

lemma memory_level_update:
  assumes "memory_inv limit rate m t" and "0 \<le> x" and "x \<le> of_int limit"
  shows "memory_level (m\<lparr>lim_items := AList.update i
            ((memory_refill id m t i)\<lparr>b_tokens := x\<rparr>) (lim_items m)\<rparr>) t i = x"
  using memory_refill_inv [OF assms(1), of i] assms(3)
  by (auto simp: memory_level_def memory_refill_def map_of_update memory_inv_def split: option.splits if_splits)

lemma memory_level_after:
  assumes inv: "memory_inv limit rate m t" and a: "0 < a" and allow: "memory_AllowN id m t i a = (r, m')"
  shows "r = Inr (of_int a \<le> memory_level m t i) \<and>
         memory_level m' t i = memory_level m t i - (if of_int a \<le> memory_level m t i then of_int a else 0)"
proof -
  let ?b = "memory_refill id m t i"
  let ?x = "memory_level m t i - (if of_int a \<le> memory_level m t i then of_int a else 0)"
  have "0 \<le> ?x" "?x \<le> of_int limit"
    using memory_level_bounds [OF inv, of i] a by auto
  moreover have "m' = m\<lparr>lim_items := AList.update i (?b\<lparr>b_tokens := ?x\<rparr>) (lim_items m)\<rparr>"
    and "r = Inr (of_int a \<le> memory_level m t i)"
    using allow inv a by (auto simp: memory_AllowN_def memory_level_def memory_inv_def Let_def split: if_splits)
  ultimately show ?thesis
    using memory_level_update [OF inv, of ?x i] by simp
qed

lemma memory_inv_allow:
  assumes inv: "memory_inv limit rate m t" and allow: "memory_AllowN id m t i a = (r, m')"
  shows "memory_inv limit rate m' t"
proof -
  let ?b = "memory_refill id m t i"
  have b: "0 \<le> b_tokens ?b" "b_tokens ?b \<le> of_int limit" "b_timestamp ?b \<le> t"
    using memory_level_bounds [OF inv, of i] memory_refill_inv [OF inv, of i] by (auto simp: memory_level_def)
  show ?thesis
    using inv allow b
    by (auto simp: memory_AllowN_def memory_inv_def map_of_update Let_def split: if_splits)
qed

lemma memory_inv_later: "memory_inv limit rate m t \<Longrightarrow> t \<le> u \<Longrightarrow> memory_inv limit rate m u"
  unfolding memory_inv_def by fastforce

lemma memory_AllowN_trivial: "a \<le> 0 \<Longrightarrow> memory_AllowN rnd m t i a = (Inr True, m)"
  by (simp add: memory_AllowN_def)

lemma memory_refill_frame:
  "j \<noteq> i \<Longrightarrow> memory_refill rnd (m\<lparr>lim_items := AList.update i b (lim_items m)\<rparr>) u j = memory_refill rnd m u j"
  by (simp add: memory_refill_def map_of_update split: option.split)

lemma memory_level_frame:
  "memory_AllowN id m t i a = (r, m') \<Longrightarrow> j \<noteq> i \<Longrightarrow> memory_level m' u j = memory_level m u j"
  by (auto simp: memory_AllowN_def memory_level_def memory_refill_frame Let_def split: if_splits)

interpretation memory_limiter: token_limiter "memory_AllowN id" memory_level
  "memory_inv limit rate" "of_int limit" "rate / 1000000000" for limit rate
proof
  fix m t i and a :: int
  assume "memory_inv limit rate m t" "0 < a"
  then show "fst (memory_AllowN id m t i a) = Inr (of_int a \<le> memory_level m t i)"
    using memory_level_after [of limit rate m t a i] by (metis prod.collapse)
next
  fix m t i m' and a :: int
  assume "memory_inv limit rate m t" "0 < a" "memory_AllowN id m t i a = (Inr True, m')"
  then show "memory_level m' t i = memory_level m t i - of_int a"
    using memory_level_after [of limit rate m t a i] by force
next
  fix m t i m' and a :: int
  assume "memory_inv limit rate m t" "0 < a" "memory_AllowN id m t i a = (Inr False, m')"
  then show "memory_level m' t i = memory_level m t i"
    using memory_level_after [of limit rate m t a i] by force
qed (blast intro: memory_inv_later memory_inv_allow memory_level_grows memory_level_frame
    memory_level_bounds [THEN conjunct1] memory_level_bounds [THEN conjunct2] memory_AllowN_trivial)+

section \<open>The Redis limiter implements it\<close>

definition redis_rate :: "redis_limiter \<Rightarrow> rat" where
  "redis_rate r = of_int (r_limit r) / of_int (windowMicros (r_window r))"

definition redis_level :: "redis_limiter \<Rightarrow> redis_db \<Rightarrow> int \<Rightarrow> bytes \<Rightarrow> rat" where
  "redis_level r db t i =
     (case redis_get t (r_prefix r @ i) db of
        None \<Rightarrow> of_int (r_limit r)
      | Some h \<Rightarrow> if h_timestamp h < t
                   then min (of_int (r_limit r)) (h_tokens h + of_int (t - h_timestamp h) * redis_rate r)
                   else h_tokens h)"

definition redis_inv :: "redis_limiter \<Rightarrow> redis_db \<Rightarrow> int \<Rightarrow> bool" where
  "redis_inv r db t \<longleftrightarrow> 0 < r_limit r \<and> 0 < r_window r \<and>
     (\<forall>k h. map_of db k = Some h \<longrightarrow>
        0 \<le> h_tokens h \<and> h_tokens h \<le> of_int (r_limit r) \<and> h_timestamp h \<le> t \<and>
        h_timestamp h div 1000 + ttlMillis (r_window r) \<le> h_expires h)"

lemma redis_invD:
  assumes "redis_inv r db t" and "map_of db k = Some h"
  shows "0 \<le> h_tokens h" "h_tokens h \<le> of_int (r_limit r)" "h_timestamp h \<le> t"
    "h_timestamp h div 1000 + ttlMillis (r_window r) \<le> h_expires h"
  using assms by (auto simp: redis_inv_def)

lemma windowMicros_pos: "0 < windowMicros w"
  by (simp add: windowMicros_def Let_def)

text \<open>The expiry outlives the window: a hash that has expired would have been refilled.\<close>

lemma ttl_covers_window: "0 < w \<Longrightarrow> windowMicros w \<le> ttlMillis w * 1000"
proof -
  assume w: "0 < w"
  define y where "y = w div 1000"
  have q: "w div 1000000 = y div 1000"
    by (simp add: y_def flip: zdiv_zmult2_eq)
  have "y \<le> (w div 1000000 + (if w mod 1000000 \<noteq> 0 then 1 else 0)) * 1000"
  proof (cases "w mod 1000000 = 0")
    case True
    then have "w = 1000 * (1000 * (w div 1000000))"
      using mult_div_mod_eq [of 1000000 w] by simp
    then have "y = 1000 * (w div 1000000)"
      unfolding y_def by (metis nonzero_mult_div_cancel_left zero_neq_numeral)
    then show ?thesis by simp
  next
    case False
    have "y < 1000 * (y div 1000 + 1)"
      using mult_div_mod_eq [of 1000 y] pos_mod_bound [of 1000 y] by simp
    with False q show ?thesis by simp
  qed
  moreover have "0 \<le> w div 1000000" "0 \<le> y" using w by (auto simp: y_def)
  ultimately show ?thesis
    using w by (auto simp: windowMicros_def ttlMillis_def Let_def Millisecond_def go_div_nonneg
        go_mod_nonneg y_def [symmetric] split: if_splits)
qed

lemma expired_is_full:
  assumes inv: "redis_inv r db t" and h: "map_of db k = Some h" and e: "h_expires h < u div 1000"
  shows "of_int (r_limit r) \<le> h_tokens h + of_int (u - h_timestamp h) * redis_rate r"
proof -
  have "h_timestamp h div 1000 + ttlMillis (r_window r) < u div 1000" and pos: "0 < r_limit r"
    and w: "0 < r_window r" and tok: "0 \<le> h_tokens h"
    using redis_invD [OF inv h] e inv by (auto simp: redis_inv_def)
  then have "windowMicros (r_window r) \<le> u - h_timestamp h"
    using ttl_covers_window [OF w] by linarith
  then have "of_int (windowMicros (r_window r)) * redis_rate r \<le> of_int (u - h_timestamp h) * redis_rate r"
    using pos windowMicros_pos [of "r_window r"]
    by (intro mult_right_mono) (auto simp: redis_rate_def)
  moreover have "of_int (windowMicros (r_window r)) * redis_rate r = of_int (r_limit r)"
    using windowMicros_pos [of "r_window r"] by (simp add: redis_rate_def)
  ultimately show ?thesis using tok by linarith
qed

text \<open>So the level is the same formula whether or not the hash has expired.\<close>

lemma redis_level_Some:
  assumes inv: "redis_inv r db t" and h: "map_of db (r_prefix r @ i) = Some h" and tu: "t \<le> u"
  shows "redis_level r db u i =
    min (of_int (r_limit r)) (h_tokens h + of_int (u - h_timestamp h) * redis_rate r)"
proof (cases "h_expires h < u div 1000")
  case True
  then show ?thesis
    using expired_is_full [OF inv h] h by (simp add: redis_level_def redis_get_def min_def)
next
  case False
  moreover have "h_tokens h \<le> of_int (r_limit r)" "h_timestamp h \<le> u"
    using redis_invD [OF inv h] tu by auto
  ultimately show ?thesis
    using h by (auto simp: redis_level_def redis_get_def min_def)
qed

lemma redis_level_None:
  "map_of db (r_prefix r @ i) = None \<Longrightarrow> redis_level r db u i = of_int (r_limit r)"
  by (simp add: redis_level_def redis_get_def)

lemma redis_rate_pos: "redis_inv r db t \<Longrightarrow> 0 < redis_rate r"
  using windowMicros_pos [of "r_window r"] by (simp add: redis_rate_def redis_inv_def)

lemma redis_level_bounds:
  assumes "redis_inv r db t"
  shows "0 \<le> redis_level r db t i \<and> redis_level r db t i \<le> of_int (r_limit r)"
proof (cases "map_of db (r_prefix r @ i)")
  case None
  then show ?thesis using assms by (simp add: redis_level_None redis_inv_def)
next
  case (Some h)
  then have "0 \<le> h_tokens h" "0 \<le> t - h_timestamp h" "0 \<le> r_limit r"
    using assms by (auto simp: redis_inv_def)
  moreover have "0 \<le> rat_of_int (t - h_timestamp h) * redis_rate r"
    using redis_rate_pos [OF assms] calculation(2) by (simp add: less_imp_le)
  ultimately show ?thesis
    by (simp add: redis_level_Some [OF assms Some order_refl])
qed

lemma redis_level_grows:
  assumes inv: "redis_inv r db t" and tu: "t \<le> u"
  shows "redis_level r db u i \<le> redis_level r db t i + of_int (u - t) * redis_rate r"
proof -
  have pos: "0 \<le> of_int (u - t) * redis_rate r"
    using redis_rate_pos [OF inv] tu by (simp add: less_imp_le)
  show ?thesis
  proof (cases "map_of db (r_prefix r @ i)")
    case None
    then show ?thesis using pos by (simp add: redis_level_None)
  next
    case (Some h)
    have "of_int (u - h_timestamp h) * redis_rate r =
        of_int (t - h_timestamp h) * redis_rate r + of_int (u - t) * redis_rate r"
      by (simp add: algebra_simps)
    with pos show ?thesis
      unfolding redis_level_Some [OF inv Some tu] redis_level_Some [OF inv Some order_refl] by linarith
  qed
qed

lemma redis_serve_trivial: "a \<le> 0 \<Longrightarrow> redis_serve rnd r db t i a = (Inr True, db)"
  by (simp add: redis_serve_def redis_AllowN_def)

text \<open>One call on a state that satisfies the invariant: the decision and the hash written.\<close>

lemma redis_serve_eq:
  fixes i
  assumes inv: "redis_inv r db t" and a: "0 < a"
  defines "x \<equiv> redis_level r db t i - (if of_int a \<le> redis_level r db t i then of_int a else 0)"
  shows "redis_serve id r db t i a =
    (Inr (of_int a \<le> redis_level r db t i),
     AList.update (r_prefix r @ i)
       \<lparr>h_tokens = x, h_timestamp = t, h_expires = t div 1000 + ttlMillis (r_window r)\<rparr> db)"
proof -
  have "script_refill id t (of_int (r_limit r)) (redis_rate r) (redis_get t (r_prefix r @ i) db)
      = (redis_level r db t i, t)"
    unfolding redis_level_def using redis_invD(3) [OF inv]
    by (force simp: redis_get_def script_refill_def Let_def split: option.splits)
  then show ?thesis
    using inv a
    by (simp add: redis_serve_def redis_AllowN_def token_script_def x_def redis_inv_def
        redis_rate_def [symmetric] Let_def)
qed

lemma redis_inv_serve:
  assumes inv: "redis_inv r db t" and s: "redis_serve id r db t i a = (res, db')"
  shows "redis_inv r db' t"
proof (cases "0 < a")
  case True
  then show ?thesis
    using s inv redis_level_bounds [OF inv, of i] unfolding redis_serve_eq [OF inv True]
    by (auto simp: redis_inv_def map_of_update split: if_splits)
qed (use assms redis_serve_trivial in auto)

lemma redis_level_after:
  assumes inv: "redis_inv r db t" and a: "0 < a" and s: "redis_serve id r db t i a = (res, db')"
  shows "res = Inr (of_int a \<le> redis_level r db t i) \<and>
    redis_level r db' t i = redis_level r db t i - (if of_int a \<le> redis_level r db t i then of_int a else 0)"
proof -
  have "0 < ttlMillis (r_window r)" by (simp add: ttlMillis_def Let_def)
  then show ?thesis
    using s unfolding redis_serve_eq [OF inv a]
    by (auto simp: redis_level_def redis_get_def map_of_update)
qed

lemma redis_level_frame:
  assumes "redis_inv r db t" "redis_serve id r db t i a = (res, db')" "j \<noteq> i"
  shows "redis_level r db' u j = redis_level r db u j"
proof (cases "0 < a")
  case True
  then show ?thesis
    using assms by (auto simp: redis_serve_eq redis_level_def redis_get_def map_of_update)
qed (use assms redis_serve_trivial in auto)

lemma redis_inv_later: "redis_inv r db t \<Longrightarrow> t \<le> u \<Longrightarrow> redis_inv r db u"
  unfolding redis_inv_def by fastforce

interpretation redis_limiter: token_limiter "redis_serve id r" "redis_level r" "redis_inv r"
  "of_int (r_limit r)" "redis_rate r" for r
proof
  fix db t i and a :: int
  assume "redis_inv r db t" "0 < a"
  then show "fst (redis_serve id r db t i a) = Inr (of_int a \<le> redis_level r db t i)"
    using redis_level_after [of r db t a i] by (metis prod.collapse)
next
  fix db t i db' and a :: int
  assume "redis_inv r db t" "0 < a" "redis_serve id r db t i a = (Inr True, db')"
  then show "redis_level r db' t i = redis_level r db t i - of_int a"
    using redis_level_after [of r db t a i] by force
next
  fix db t i db' and a :: int
  assume "redis_inv r db t" "0 < a" "redis_serve id r db t i a = (Inr False, db')"
  then show "redis_level r db' t i = redis_level r db t i"
    using redis_level_after [of r db t a i] by force
qed (blast intro: redis_inv_later redis_inv_serve redis_level_grows redis_level_frame
    redis_level_bounds [THEN conjunct1] redis_level_bounds [THEN conjunct2] redis_serve_trivial)+

section \<open>Agreement of the two limiters\<close>

lemma memory_AllowN_eq:
  assumes inv: "memory_inv limit rate m t" and a: "0 < a"
  shows "memory_AllowN id m t i a =
    (Inr (of_int a \<le> memory_level m t i),
     m\<lparr>lim_items := AList.update i
        \<lparr>b_tokens = memory_level m t i - (if of_int a \<le> memory_level m t i then of_int a else 0),
         b_timestamp = t\<rparr> (lim_items m)\<rparr>)"
proof -
  obtain x u where b: "memory_refill id m t i = \<lparr>b_tokens = x, b_timestamp = u\<rparr>"
    by (cases "memory_refill id m t i")
  have "b_timestamp (memory_refill id m t i) = t"
    using inv by (auto simp: memory_refill_def memory_inv_def split: option.splits)
      (metis le_neq_trans linorder_neqE)
  with b show ?thesis
    using inv a by (auto simp: memory_AllowN_def memory_level_def memory_inv_def Let_def)
qed

text \<open>The same bucket on both sides; Redis counts microseconds, the process nanoseconds.\<close>

definition same_buckets :: "redis_limiter \<Rightarrow> memory_limiter \<Rightarrow> redis_db \<Rightarrow> bool" where
  "same_buckets r m db \<longleftrightarrow>
     (\<forall>i. rel_option (\<lambda>b h. b_tokens b = h_tokens h \<and> b_timestamp b = 1000 * h_timestamp h)
        (map_of (lim_items m) i) (map_of db (r_prefix r @ i)))"

lemma same_bucketsD:
  "same_buckets r m db \<Longrightarrow>
     rel_option (\<lambda>b h. b_tokens b = h_tokens h \<and> b_timestamp b = 1000 * h_timestamp h)
       (map_of (lim_items m) i) (map_of db (r_prefix r @ i))"
  by (simp add: same_buckets_def)

lemma same_level:
  assumes mi: "memory_inv (r_limit r) rate m (1000 * t)" and ri: "redis_inv r db t"
    and w: "r_window r = 1000 * v" "r_window r \<le> maxDuration"
    and rate: "rate = of_int (r_limit r) / (of_int (r_window r) / 1000000000)"
    and same: "same_buckets r m db"
  shows "memory_level m (1000 * t) i = redis_level r db t i"
proof (cases "map_of db (r_prefix r @ i)")
  case None
  then have "map_of (lim_items m) i = None"
    using same_bucketsD [OF same, of i] by simp
  with None mi show ?thesis by (simp add: memory_level_None redis_level_None memory_inv_def)
next
  case (Some h)
  then obtain b where b: "map_of (lim_items m) i = Some b" "b_tokens b = h_tokens h"
      "b_timestamp b = 1000 * h_timestamp h"
    using same_bucketsD [OF same, of i] by (auto simp: option_rel_Some2)
  have pos: "0 < r_limit r" "0 < v" and ts: "h_timestamp h \<le> t" and tok: "0 \<le> h_tokens h"
    using ri w(1) redis_invD [OF ri Some] by (auto simp: redis_inv_def)
  have wm: "windowMicros (r_window r) = v"
    using pos(2) by (simp add: windowMicros_def w(1) go_div_nonneg Let_def)
  have scale: "of_int (1000 * d) / 1000000000 * rate = of_int d * redis_rate r" for d
    using pos(2) unfolding rate redis_rate_def wm unfolding w(1) by (simp add: field_simps)
  let ?d = "t - h_timestamp h"
  have sub: "time_Sub (1000 * t) (b_timestamp b) = (if 1000 * ?d \<le> maxDuration then 1000 * ?d else maxDuration)"
    using ts b(3) by (auto simp: time_Sub_def minDuration_def maxDuration_def)
  show ?thesis
  proof (cases "1000 * ?d \<le> maxDuration")
    case True
    then show ?thesis
      unfolding memory_level_Some [OF mi b(1) order_refl] redis_level_Some [OF ri Some order_refl] sub b(2)
      by (simp only: if_True scale)
  next
    case False
    have full: "of_int (r_limit r) \<le> h_tokens h + of_int x / 1000000000 * rate" if "r_window r \<le> x" for x
    proof -
      have "of_int (r_window r) / 1000000000 * rate \<le> of_int x / 1000000000 * rate"
        using that pos w(1) by (intro mult_right_mono) (auto simp: rate divide_right_mono)
      moreover have "of_int (r_window r) / 1000000000 * rate = of_int (r_limit r)"
        using pos w(1) by (simp add: rate)
      ultimately show ?thesis using tok by linarith
    qed
    from False show ?thesis
      unfolding memory_level_Some [OF mi b(1) order_refl] redis_level_Some [OF ri Some order_refl] sub b(2)
      using full [of "1000 * ?d"] full [of maxDuration] w(2) scale [of ?d] by (simp add: min_def)
  qed
qed

lemma same_buckets_update:
  "same_buckets r m db \<Longrightarrow>
     same_buckets r (m\<lparr>lim_items := AList.update i \<lparr>b_tokens = x, b_timestamp = 1000 * t\<rparr> (lim_items m)\<rparr>)
       (AList.update (r_prefix r @ i) \<lparr>h_tokens = x, h_timestamp = t, h_expires = e\<rparr> db)"
  by (auto simp: same_buckets_def map_of_update)

lemma limiters_agree_run:
  assumes "memory_inv (r_limit r) rate m (1000 * t0)" and "redis_inv r db t0" and "same_buckets r m db"
    and w: "r_window r = 1000 * v" "r_window r \<le> maxDuration"
    and rate: "rate = of_int (r_limit r) / (of_int (r_window r) / 1000000000)"
    and "times_from t0 cs"
  shows "fst (limiter_run (\<lambda>m t. memory_AllowN id m (1000 * t)) m cs) = fst (limiter_run (redis_serve id r) db cs)"
  using assms(1-3,7)
proof (induction cs arbitrary: m db t0)
  case Nil
  then show ?case by simp
next
  case (Cons call cs)
  obtain t i a where call: "call = (t, i, a)" by (cases call)
  with Cons.prems have t: "t0 \<le> t" "times_from t cs" by auto
  have mi: "memory_inv (r_limit r) rate m (1000 * t)" and ri: "redis_inv r db t"
    using Cons.prems(1,2) t(1) by (auto intro: memory_inv_later redis_inv_later)
  show ?case
  proof (cases "0 < a")
    case True
    note m = memory_AllowN_eq [OF mi True, of i, unfolded same_level [OF mi ri w rate Cons.prems(3), of i]]
    note d = redis_serve_eq [OF ri True, of i]
    show ?thesis
      unfolding call limiter_run_step(1) [where allow = "\<lambda>m t. memory_AllowN id m (1000 * t)", OF m]
        limiter_run_step(1) [where allow = "redis_serve id r", OF d]
      by (simp only: Cons.IH [OF memory_inv_allow [OF mi m] redis_inv_serve [OF ri d]
          same_buckets_update [OF Cons.prems(3)] t(2)])
  next
    case False
    then have "a \<le> 0" by simp
    note m = memory_AllowN_trivial [OF this, of id m "1000 * t" i]
      and d = redis_serve_trivial [OF this, of id r db t i]
    show ?thesis
      unfolding call limiter_run_step(1) [where allow = "\<lambda>m t. memory_AllowN id m (1000 * t)", OF m]
        limiter_run_step(1) [where allow = "redis_serve id r", OF d]
      by (simp only: Cons.IH [OF mi ri Cons.prems(3) t(2)])
  qed
qed

section \<open>Bounds under rounding\<close>

definition rounding :: "(rat \<Rightarrow> rat) \<Rightarrow> bool" where
  "rounding rnd \<longleftrightarrow> mono rnd \<and> (\<forall>n. \<bar>n\<bar> \<le> 2 ^ 53 \<longrightarrow> rnd (of_int n) = of_int n)"

definition tokens_ok :: "int \<Rightarrow> memory_limiter \<Rightarrow> bool" where
  "tokens_ok limit m \<longleftrightarrow> lim_limit m = limit \<and>
     (\<forall>i b. map_of (lim_items m) i = Some b \<longrightarrow> 0 \<le> b_tokens b \<and> b_tokens b \<le> of_int limit)"

lemma rounding_nonneg: "rounding rnd \<Longrightarrow> 0 \<le> x \<Longrightarrow> 0 \<le> rnd x"
  unfolding rounding_def by (metis abs_zero monoD of_int_0 zero_le_numeral zero_le_power)

lemma rounding_le_int: "rounding rnd \<Longrightarrow> 0 \<le> n \<Longrightarrow> n \<le> 2 ^ 53 \<Longrightarrow> x \<le> of_int n \<Longrightarrow> rnd x \<le> of_int n"
  unfolding rounding_def by (metis abs_of_nonneg monoD)

lemma Seconds_nonneg: "rounding rnd \<Longrightarrow> 0 \<le> d \<Longrightarrow> 0 \<le> Seconds rnd d"
  by (simp add: Seconds_def rounding_nonneg go_div_nonneg go_mod_nonneg)

lemma memory_refill_tokens:
  assumes r: "rounding rnd" and l: "0 < limit" "limit \<le> 2 ^ 53" and m: "tokens_ok limit m" "0 < lim_rate m"
  shows "0 \<le> b_tokens (memory_refill rnd m now i) \<and> b_tokens (memory_refill rnd m now i) \<le> of_int limit"
proof -
  have lim: "rnd (of_int limit) = of_int limit" "lim_limit m = limit"
    using r l m by (auto simp: rounding_def tokens_ok_def)
  have "0 \<le> rnd (b_tokens b + rnd (Seconds rnd (time_Sub now (b_timestamp b)) * lim_rate m))"
    if "map_of (lim_items m) i = Some b" "b_timestamp b < now" for b
    using that m time_Sub_le [of "b_timestamp b" now]
    by (intro rounding_nonneg [OF r] add_nonneg_nonneg mult_nonneg_nonneg Seconds_nonneg [OF r])
      (auto simp: tokens_ok_def)
  then show ?thesis
    using lim l m by (auto simp: memory_refill_def float_min_def tokens_ok_def split: option.splits)
qed

lemma memory_AllowN_tokens_ok:
  assumes r: "rounding rnd" and l: "0 < limit" "limit \<le> 2 ^ 53" and m: "tokens_ok limit m"
    and a: "a \<le> 2 ^ 53" and res: "memory_AllowN rnd m now i a = (x, m')"
  shows "tokens_ok limit m'"
proof (cases "0 < a \<and> 0 < lim_rate m")
  case True
  let ?b = "memory_refill rnd m now i"
  have b: "0 \<le> b_tokens ?b" "b_tokens ?b \<le> of_int limit"
    using memory_refill_tokens [OF r l m] True by auto
  have amt: "rnd (of_int a) = of_int a" using r a True by (simp add: rounding_def)
  have "0 \<le> rnd (b_tokens ?b - of_int a) \<and> rnd (b_tokens ?b - of_int a) \<le> of_int limit"
    if "of_int a \<le> b_tokens ?b"
    using that b True l by (intro conjI rounding_nonneg [OF r] rounding_le_int [OF r]) auto
  with b amt True m res show ?thesis
    by (auto simp: memory_AllowN_def tokens_ok_def map_of_update Let_def split: if_splits)
next
  case False
  with m res show ?thesis by (auto simp: memory_AllowN_def split: if_splits)
qed

lemma memory_run_tokens_ok:
  assumes "rounding rnd" "0 < limit" "limit \<le> 2 ^ 53"
  shows "tokens_ok limit m \<Longrightarrow> \<forall>(t, i, a) \<in> set cs. a \<le> 2 ^ 53 \<Longrightarrow>
    tokens_ok limit (snd (limiter_run (memory_AllowN rnd) m cs))"
proof (induction cs arbitrary: m)
  case Nil
  then show ?case by simp
next
  case (Cons call cs)
  obtain t i a where call: "call = (t, i, a)" by (cases call)
  obtain x m' where x: "memory_AllowN rnd m t i a = (x, m')" by fastforce
  have "tokens_ok limit m'"
    using memory_AllowN_tokens_ok [OF assms Cons.prems(1) _ x] Cons.prems(2) call by simp
  then show ?case
    using Cons.IH [of m'] Cons.prems(2)
    unfolding call limiter_run_step(2) [where allow = "memory_AllowN rnd", OF x] by simp
qed

section \<open>Tenants do not interfere\<close>

definition same_tenant :: "bytes \<Rightarrow> memory_limiter \<Rightarrow> memory_limiter \<Rightarrow> bool" where
  "same_tenant i m n \<longleftrightarrow> lim_limit m = lim_limit n \<and> lim_rate m = lim_rate n \<and>
     map_of (lim_items m) i = map_of (lim_items n) i"

lemma memory_AllowN_other:
  "memory_AllowN rnd m t j a = (r, m') \<Longrightarrow> j \<noteq> i \<Longrightarrow> same_tenant i m n \<Longrightarrow> same_tenant i m' n"
  by (auto simp: memory_AllowN_def same_tenant_def map_of_update Let_def split: if_splits)

lemma memory_AllowN_same:
  assumes "same_tenant i m n" "memory_AllowN rnd m t i a = (r, m')" "memory_AllowN rnd n t i a = (q, n')"
  shows "r = q \<and> same_tenant i m' n'"
proof -
  have "memory_refill rnd m t i = memory_refill rnd n t i"
    using assms(1) by (auto simp: memory_refill_def same_tenant_def split: option.splits)
  with assms show ?thesis
    by (auto simp: memory_AllowN_def same_tenant_def map_of_update Let_def split: if_splits)
qed

fun results_of :: "bytes \<Rightarrow> (int \<times> bytes \<times> int) list \<Rightarrow> (limiter_error + bool) list \<Rightarrow> (limiter_error + bool) list" where
  "results_of i ((t, j, a) # cs) (r # rs) = (if j = i then r # results_of i cs rs else results_of i cs rs)"
| "results_of i cs rs = []"

lemma memory_run_own:
  assumes "same_tenant i m n"
  shows "results_of i cs (fst (limiter_run (memory_AllowN rnd) m cs)) =
    fst (limiter_run (memory_AllowN rnd) n (filter (\<lambda>(t, j, a). j = i) cs))"
  using assms
proof (induction cs arbitrary: m n)
  case Nil
  then show ?case by simp
next
  case (Cons call cs)
  obtain t j a where call: "call = (t, j, a)" by (cases call)
  obtain x m' where x: "memory_AllowN rnd m t j a = (x, m')" by fastforce
  obtain y n' where y: "memory_AllowN rnd n t j a = (y, n')" by fastforce
  show ?case
  proof (cases "j = i")
    case True
    then show ?thesis
      using memory_AllowN_same [OF Cons.prems x [unfolded True] y [unfolded True]] Cons.IH [of m' n']
      by (auto simp: call x [unfolded True] y [unfolded True] split: prod.splits)
  next
    case False
    then show ?thesis
      using memory_AllowN_other [OF x False Cons.prems] Cons.IH [of m' n]
      by (auto simp: call x split: prod.splits)
  qed
qed

section \<open>Properties\<close>

lemma NewMemory_inv:
  assumes "0 < limit" "0 < window"
  shows "memory_inv limit (of_int limit / (of_int window / 1000000000)) (NewMemoryWithClock id limit window) t"
  using assms by (simp add: memory_inv_def NewMemoryWithClock_def Seconds_exact)

lemma NewRedis_inv: "0 < limit \<Longrightarrow> 0 < window \<Longrightarrow> redis_inv (NewRedis limit window) [] t"
  by (simp add: redis_inv_def NewRedis_def)





text \<open>
  Under any rounding of floating-point operations that is monotone and exact on
  integers up to \<open>2 ^ 53\<close>, a limiter with a limit of at most \<open>2 ^ 53\<close> keeps every bucket
  between 0 and the limit over every sequence of calls, clock jumps backwards included.
\<close>

theorem memory_buckets_bounded:
  assumes "rounding rnd" "0 < limit" "limit \<le> 2 ^ 53" "\<forall>(t, i, a) \<in> set cs. a \<le> 2 ^ 53"
    and "map_of (lim_items (snd (limiter_run (memory_AllowN rnd) (NewMemoryWithClock rnd limit window) cs))) i = Some b"
  shows "0 \<le> b_tokens b \<and> b_tokens b \<le> of_int limit"
proof -
  have "tokens_ok limit (NewMemoryWithClock rnd limit window)"
    by (simp add: tokens_ok_def NewMemoryWithClock_def)
  from memory_run_tokens_ok [OF assms(1-3) this assms(4)] assms(5) show ?thesis
    by (auto simp: tokens_ok_def)
qed

lemma rounding_id: "rounding id"
  by (simp add: rounding_def mono_def)

theorem memory_buckets_bounded_witness:
  "\<exists>b. map_of (lim_items (snd (limiter_run (memory_AllowN id) (NewMemoryWithClock id 4 Second)
      [(9, ''a'', 3), (5, ''a'', 3)]))) ''a'' = Some b \<and> 0 \<le> b_tokens b \<and> b_tokens b \<le> of_int 4"
proof -
  have "map_of (lim_items (snd (limiter_run (memory_AllowN id) (NewMemoryWithClock id 4 Second)
      [(9, ''a'', 3), (5, ''a'', 3)]))) ''a'' = Some \<lparr>b_tokens = 1, b_timestamp = 9\<rparr>"
    by (simp add: limiter_defs time_defs go_div_def go_mod_def Let_def)
  from memory_buckets_bounded [OF rounding_id _ _ _ this] this show ?thesis by simp
qed

text \<open>
  The Redis limiter fails closed: with a positive limit, a positive amount is allowed
  only if the script ran on the tenant's own key with the configured capacity and replied
  1; every error, every other reply and a window that is not positive give
  \<open>ErrUnavailable\<close> or a refusal.
\<close>

theorem redis_allows_only_on_reply:
  assumes "0 < amount" "0 < r_limit r"
  shows "fst (redis_AllowN rnd run r tenant amount db) = Inr True \<longleftrightarrow>
    0 < r_window r \<and>
    fst (run (r_prefix r @ tenant) (of_int (r_limit r))
      (rnd (rnd (of_int (r_limit r)) / rnd (of_int (windowMicros (r_window r))))) (ttlMillis (r_window r))
      (of_int amount) db) = Some 1"
  using assms by (auto simp: redis_AllowN_def Let_def split: prod.splits option.splits if_splits)

theorem redis_allows_only_on_reply_witness:
  "fst (redis_AllowN id (\<lambda>key cap rate ttl n (d :: redis_db). (None, d)) (NewRedis 5 Second) ''a'' 1 []) \<noteq> Inr True"
  using redis_allows_only_on_reply [of 1 "NewRedis 5 Second" id "\<lambda>key cap rate ttl n (d :: redis_db). (None, d)" "''a''" "[]"]
  by (simp add: NewRedis_def)

text \<open>
  The decisions one tenant gets are those it would get alone: the calls of the other
  tenants, whatever their amounts and times, change none of them (any rounding).
\<close>

theorem memory_tenants_isolated:
  "results_of i cs (fst (limiter_run (memory_AllowN rnd) m cs)) =
    fst (limiter_run (memory_AllowN rnd) m (filter (\<lambda>(t, j, a). j = i) cs))"
  by (rule memory_run_own) (simp add: same_tenant_def)

end
