(* ===== verification/Platform_Config.thy ===== *)
theory Platform_Config
  imports Ratelimit Go_Json Events
begin

text \<open>
  \<open>internal/platform\<close>: the configuration read from the environment (\<open>config.go\<close>) and the
  in-memory publisher of local tests (\<open>memory.go\<close>).

  \<open>os.Getenv\<close> is a function that gives the empty string for a variable that is not set.
  \<open>strconv.Atoi\<close> is \<open>parse_int 64\<close>. \<open>time.ParseDuration\<close> is modelled as the standard library
  has it, with its unsigned 64-bit sums and, for fractions, float64 arithmetic as rational
  arithmetic followed by a rounding function.
\<close>

named_theorems config_defs "definitions of the configuration"

section \<open>Durations\<close>

definition digits_value :: "bytes \<Rightarrow> int" where
  "digits_value ds = foldl (\<lambda>n c. 10 * n + (of_char c - 48)) 0 ds"

text \<open>The digits after the point; digits beyond 63 bits are read and ignored.\<close>

fun leadingFraction :: "int \<Rightarrow> int \<Rightarrow> bool \<Rightarrow> bytes \<Rightarrow> int \<times> int \<times> bytes" where
  "leadingFraction x scale overflow [] = (x, scale, [])"
| "leadingFraction x scale overflow (c # cs) =
     (if \<not> is_digit c then (x, scale, c # cs)
      else
        let y = 10 * x + (of_char c - 48) in
        if overflow \<or> (2 ^ 63 - 1) div 10 < x \<or> 2 ^ 63 < y then leadingFraction x scale True cs
        else leadingFraction y (10 * scale) False cs)"

definition unit_names :: "(bytes \<times> int) list" where
  "unit_names =
     [(''ns'', 1), (''us'', 1000), ([CHR 0xC2, CHR 0xB5, CHR ''s''], 1000), ([CHR 0xCE, CHR 0xBC, CHR ''s''], 1000),
      (''ms'', 1000000), (''s'', 1000000000), (''m'', 60 * 1000000000), (''h'', 3600 * 1000000000)]"

text \<open>
  One number with its unit: its value in nanoseconds and the rest of the text. \<open>1<<63/unit\<close>
  and the sums are the checks of the library.
\<close>

definition duration_term :: "(rat \<Rightarrow> rat) \<Rightarrow> bytes \<Rightarrow> (int \<times> bytes) option" where
  "duration_term rnd s =
     (let whole = takeWhile is_digit s;
          v = digits_value whole;
          s1 = dropWhile is_digit s;
          (f, scale, s2, post) =
            (case s1 of
               [] \<Rightarrow> (0, 1, [], False)
             | c # cs \<Rightarrow>
                 if c = CHR ''.''
                 then (case leadingFraction 0 1 False cs of (f, scale, rem) \<Rightarrow> (f, scale, rem, length rem \<noteq> length cs))
                 else (0, 1, s1, False));
          u = takeWhile (\<lambda>c. c \<noteq> CHR ''.'' \<and> \<not> is_digit c) s2 in
      if 2 ^ 63 < v then None
      else if whole = [] \<and> \<not> post then None
      else if u = [] then None
      else case map_of unit_names u of
        None \<Rightarrow> None
      | Some unit \<Rightarrow>
          if 2 ^ 63 div unit < v then None
          else
            let w = v * unit + (if 0 < f then \<lfloor>rnd (rnd (of_int f) * rnd (of_int unit / of_int scale))\<rfloor> else 0) in
            if 2 ^ 63 < w then None
            else Some (w, dropWhile (\<lambda>c. c \<noteq> CHR ''.'' \<and> \<not> is_digit c) s2))"

lemma leadingFraction_length: "leadingFraction x scale b s = (f, sc, rest) \<Longrightarrow> length rest \<le> length s"
  by (induction x scale b s rule: leadingFraction.induct) (auto simp: Let_def split: if_splits)

lemma dropWhile_unit_less:
  "takeWhile P s \<noteq> [] \<Longrightarrow> length (dropWhile P s) < length s"
  by (cases s) (auto simp: less_Suc_eq_le length_dropWhile_le split: if_splits)

lemma duration_term_length:
  assumes "duration_term rnd s = Some (v, rest)"
  shows "length rest < length s"
proof -
  define s1 where "s1 = dropWhile is_digit s"
  define s2 where "s2 = (case s1 of [] \<Rightarrow> [] | c # cs \<Rightarrow>
      if c = CHR ''.'' then snd (snd (leadingFraction 0 1 False cs)) else s1)"
  have "length s2 \<le> length s1"
    by (auto simp: s2_def split: list.splits) (metis leadingFraction_length le_SucI prod.collapse)
  moreover have "length s1 \<le> length s" by (simp add: s1_def length_dropWhile_le)
  moreover have "length rest < length s2"
    using assms unfolding duration_term_def s2_def s1_def [symmetric]
    by (auto simp: Let_def dropWhile_unit_less less_Suc_eq_le length_dropWhile_le split: if_splits option.splits list.splits prod.splits)
  ultimately show ?thesis by simp
qed

function duration_sum :: "(rat \<Rightarrow> rat) \<Rightarrow> int \<Rightarrow> bytes \<Rightarrow> int option" where
  "duration_sum rnd d s =
     (if s = [] then Some d
      else if \<not> (hd s = CHR ''.'' \<or> is_digit (hd s)) then None
      else case duration_term rnd s of
        None \<Rightarrow> None
      | Some (v, rest) \<Rightarrow>
          let d' = (d + v) mod 2 ^ 64 in
          if 2 ^ 63 < d' then None else duration_sum rnd d' rest)"
  by pat_completeness auto
termination
  by (relation "measure (\<lambda>(rnd, d, s). length s)") (auto dest: duration_term_length)

declare duration_sum.simps [simp del]

definition ParseDuration :: "(rat \<Rightarrow> rat) \<Rightarrow> bytes \<Rightarrow> duration option" where
  "ParseDuration rnd text =
     (let (neg, s) = (case text of
            c # cs \<Rightarrow> if c = CHR ''-'' then (True, cs) else if c = CHR ''+'' then (False, cs) else (False, text)
          | [] \<Rightarrow> (False, [])) in
      if s = ''0'' then Some 0
      else if s = [] then None
      else case duration_sum rnd 0 s of
        None \<Rightarrow> None
      | Some d \<Rightarrow> if neg then Some (- d) else if 2 ^ 63 - 1 < d then None else Some d)"

section \<open>Configuration\<close>

record config =
  cfg_Service :: bytes
  cfg_HTTPAddr :: bytes
  cfg_MetricsAddr :: bytes
  cfg_PostgresDSN :: bytes
  cfg_RedisURL :: bytes
  cfg_KafkaBrokers :: "bytes list"
  cfg_KafkaTopic :: bytes
  cfg_ClickHouseAddr :: bytes
  cfg_ClickHouseDatabase :: bytes
  cfg_AdminToken :: bytes
  cfg_RateLimit :: int
  cfg_RateWindow :: duration
  cfg_MaxPayloadBytes :: int
  cfg_MaxBatchBytes :: int
  cfg_MaxBatchEvents :: int
  cfg_ConsumerBatchSize :: int
  cfg_ConsumerBatchTimeout :: duration
  cfg_AuthCacheTTL :: duration
  cfg_LocalFallback :: bool

definition env_or :: "(bytes \<Rightarrow> bytes) \<Rightarrow> bytes \<Rightarrow> bytes \<Rightarrow> bytes" where
  "env_or getenv k fallback = (if getenv k \<noteq> [] then getenv k else fallback)"

definition intEnv :: "(bytes \<Rightarrow> bytes) \<Rightarrow> bytes \<Rightarrow> int \<Rightarrow> int" where
  "intEnv getenv k fallback =
     (case parse_int 64 (getenv k) of None \<Rightarrow> fallback | Some v \<Rightarrow> if v < 0 then fallback else v)"

definition durationEnv :: "(rat \<Rightarrow> rat) \<Rightarrow> (bytes \<Rightarrow> bytes) \<Rightarrow> bytes \<Rightarrow> duration \<Rightarrow> duration" where
  "durationEnv rnd getenv k fallback =
     (case ParseDuration rnd (getenv k) of None \<Rightarrow> fallback | Some v \<Rightarrow> if v \<le> 0 then fallback else v)"

definition durationEnvAllowZero :: "(rat \<Rightarrow> rat) \<Rightarrow> (bytes \<Rightarrow> bytes) \<Rightarrow> bytes \<Rightarrow> duration \<Rightarrow> duration" where
  "durationEnvAllowZero rnd getenv k fallback =
     (case ParseDuration rnd (getenv k) of None \<Rightarrow> fallback | Some v \<Rightarrow> if v < 0 then fallback else v)"

definition split_list :: "bytes \<Rightarrow> bytes list" where
  "split_list v = map TrimSpace (filter (\<lambda>p. TrimSpace p \<noteq> []) (Split v (CHR '','')))"

definition Load :: "(rat \<Rightarrow> rat) \<Rightarrow> (bytes \<Rightarrow> bytes) \<Rightarrow> bytes \<Rightarrow> config" where
  "Load rnd getenv service =
     \<lparr>cfg_Service = service,
      cfg_HTTPAddr = env_or getenv ''PULSE_HTTP_ADDR'' '':8080'',
      cfg_MetricsAddr = env_or getenv ''PULSE_METRICS_ADDR'' '':9091'',
      cfg_PostgresDSN = getenv ''PULSE_POSTGRES_DSN'',
      cfg_RedisURL = getenv ''PULSE_REDIS_URL'',
      cfg_KafkaBrokers = split_list (getenv ''PULSE_KAFKA_BROKERS''),
      cfg_KafkaTopic = env_or getenv ''PULSE_KAFKA_TOPIC'' ''events.raw'',
      cfg_ClickHouseAddr = getenv ''PULSE_CLICKHOUSE_ADDR'',
      cfg_ClickHouseDatabase = env_or getenv ''PULSE_CLICKHOUSE_DATABASE'' ''default'',
      cfg_AdminToken = getenv ''PULSE_ADMIN_TOKEN'',
      cfg_RateLimit = intEnv getenv ''PULSE_RATE_LIMIT'' 1000,
      cfg_RateWindow = durationEnv rnd getenv ''PULSE_RATE_WINDOW'' Minute,
      cfg_MaxPayloadBytes = intEnv getenv ''PULSE_MAX_PAYLOAD_BYTES'' (2 ^ 20),
      cfg_MaxBatchBytes = intEnv getenv ''PULSE_MAX_BATCH_BYTES'' (16 * 2 ^ 20),
      cfg_MaxBatchEvents = intEnv getenv ''PULSE_MAX_BATCH_EVENTS'' 500,
      cfg_ConsumerBatchSize = intEnv getenv ''PULSE_CONSUMER_BATCH_SIZE'' 1,
      cfg_ConsumerBatchTimeout = durationEnv rnd getenv ''PULSE_CONSUMER_BATCH_TIMEOUT'' (10 * Millisecond),
      cfg_AuthCacheTTL = durationEnvAllowZero rnd getenv ''PULSE_AUTH_CACHE_TTL'' 0,
      cfg_LocalFallback = (getenv ''PULSE_LOCAL_FALLBACK'' = ''true'')\<rparr>"

section \<open>The in-memory publisher\<close>

definition memory_PublishBatch :: "event list \<Rightarrow> event list \<Rightarrow> bool \<times> event list" where
  "memory_PublishBatch batch published = (True, published @ batch)"

lemmas [config_defs] = env_or_def intEnv_def durationEnv_def durationEnvAllowZero_def split_list_def Load_def

section \<open>Bounds\<close>

lemma parse_int_bounds: "parse_int width s = Some v \<Longrightarrow> - (2 ^ (width - 1)) \<le> v \<and> v < 2 ^ (width - 1)"
  by (auto simp: parse_int_def Let_def split: prod.splits if_splits option.splits)

lemma duration_sum_bounds: "duration_sum rnd d s = Some e \<Longrightarrow> 0 \<le> d \<Longrightarrow> d \<le> 2 ^ 63 \<Longrightarrow> 0 \<le> e \<and> e \<le> 2 ^ 63"
proof (induction rnd d s rule: duration_sum.induct)
  case (1 rnd d s)
  show ?case
  proof (cases "s = []")
    case True
    then show ?thesis using "1.prems" by (simp add: duration_sum.simps)
  next
    case False
    have start: "hd s = CHR ''.'' \<or> is_digit (hd s)"
      using "1.prems"(1) False by (subst (asm) duration_sum.simps) (simp split: if_splits)
    then obtain v rest where t: "duration_term rnd s = Some (v, rest)"
      using "1.prems"(1) False by (subst (asm) duration_sum.simps) (auto split: option.splits)
    then have "\<not> 2 ^ 63 < (d + v) mod 2 ^ 64" "duration_sum rnd ((d + v) mod 2 ^ 64) rest = Some e"
      using "1.prems"(1) False start by (subst (asm) duration_sum.simps, simp add: Let_def split: if_splits)+
    then show ?thesis using "1.IH" [OF False _ t refl refl] start by simp
  qed
qed

lemma ParseDuration_bounds: "ParseDuration rnd s = Some d \<Longrightarrow> minDuration \<le> d \<and> d \<le> maxDuration"
  by (auto simp: ParseDuration_def Let_def time_defs split: prod.splits if_splits option.splits dest!: duration_sum_bounds)

lemma intEnv_bounds:
  "0 \<le> fallback \<Longrightarrow> fallback < 2 ^ 63 \<Longrightarrow> 0 \<le> intEnv getenv k fallback \<and> intEnv getenv k fallback < 2 ^ 63"
  by (auto simp: intEnv_def split: option.splits dest!: parse_int_bounds)

lemma durationEnv_bounds:
  "0 < fallback \<Longrightarrow> fallback \<le> maxDuration \<Longrightarrow>
     0 < durationEnv rnd getenv k fallback \<and> durationEnv rnd getenv k fallback \<le> maxDuration"
  "0 \<le> fallback \<Longrightarrow> fallback \<le> maxDuration \<Longrightarrow>
     0 \<le> durationEnvAllowZero rnd getenv k fallback \<and> durationEnvAllowZero rnd getenv k fallback \<le> maxDuration"
  by (auto simp: durationEnv_def durationEnvAllowZero_def split: option.splits dest!: ParseDuration_bounds)

section \<open>Properties\<close>

text \<open>
  C36: no environment makes a nonsensical configuration. Whatever the variables hold, the
  sizes and limits are not negative and fit an int, the rate window and the batch timeout
  are positive durations and the cache lifetime is not negative, the addresses, the topic
  and the database have a name, and every broker is a trimmed entry of the list that is not
  blank.
\<close>

theorem load_config_bounds:
  fixes rnd getenv service
  defines "cfg \<equiv> Load rnd getenv service"
  shows "(\<forall>n \<in> {cfg_RateLimit cfg, cfg_MaxPayloadBytes cfg, cfg_MaxBatchBytes cfg, cfg_MaxBatchEvents cfg, cfg_ConsumerBatchSize cfg}.
            0 \<le> n \<and> n < 2 ^ 63) \<and>
    0 < cfg_RateWindow cfg \<and> 0 < cfg_ConsumerBatchTimeout cfg \<and> 0 \<le> cfg_AuthCacheTTL cfg \<and>
    (\<forall>d \<in> {cfg_RateWindow cfg, cfg_ConsumerBatchTimeout cfg, cfg_AuthCacheTTL cfg}. d \<le> maxDuration) \<and>
    (\<forall>x \<in> {cfg_HTTPAddr cfg, cfg_MetricsAddr cfg, cfg_KafkaTopic cfg, cfg_ClickHouseDatabase cfg}. x \<noteq> []) \<and>
    (\<forall>b \<in> set (cfg_KafkaBrokers cfg). b \<noteq> [] \<and> (\<exists>p \<in> set (Split (getenv ''PULSE_KAFKA_BROKERS'') (CHR '','')). b = TrimSpace p))"
proof (intro conjI)
  show "\<forall>n \<in> {cfg_RateLimit cfg, cfg_MaxPayloadBytes cfg, cfg_MaxBatchBytes cfg, cfg_MaxBatchEvents cfg, cfg_ConsumerBatchSize cfg}.
            0 \<le> n \<and> n < 2 ^ 63"
    using intEnv_bounds [of _ getenv] by (simp add: cfg_def Load_def)
  show "0 < cfg_RateWindow cfg" "0 < cfg_ConsumerBatchTimeout cfg" "0 \<le> cfg_AuthCacheTTL cfg"
    "\<forall>d \<in> {cfg_RateWindow cfg, cfg_ConsumerBatchTimeout cfg, cfg_AuthCacheTTL cfg}. d \<le> maxDuration"
    using durationEnv_bounds(1) [of Minute rnd getenv "''PULSE_RATE_WINDOW''"]
      durationEnv_bounds(1) [of "10 * Millisecond" rnd getenv "''PULSE_CONSUMER_BATCH_TIMEOUT''"]
      durationEnv_bounds(2) [of 0 rnd getenv "''PULSE_AUTH_CACHE_TTL''"]
    by (simp_all add: cfg_def Load_def time_defs)
  show "\<forall>x \<in> {cfg_HTTPAddr cfg, cfg_MetricsAddr cfg, cfg_KafkaTopic cfg, cfg_ClickHouseDatabase cfg}. x \<noteq> []"
    by (simp add: cfg_def Load_def env_or_def)
  show "\<forall>b \<in> set (cfg_KafkaBrokers cfg). b \<noteq> [] \<and> (\<exists>p \<in> set (Split (getenv ''PULSE_KAFKA_BROKERS'') (CHR '','')). b = TrimSpace p)"
    by (auto simp: cfg_def Load_def split_list_def)
qed

definition sample_getenv :: "bytes \<Rightarrow> bytes" where
  "sample_getenv k =
     (if k = ''PULSE_RATE_WINDOW'' then ''1.5s'' else if k = ''PULSE_RATE_LIMIT'' then ''-7''
      else if k = ''PULSE_KAFKA_BROKERS'' then '' a:1, ,b:2'' else [])"

theorem load_config_bounds_witness:
  "0 < cfg_RateWindow (Load id sample_getenv ''ingestion'') \<and> cfg_RateLimit (Load id sample_getenv ''ingestion'') = 1000 \<and>
   cfg_KafkaBrokers (Load id sample_getenv ''ingestion'') = [''a:1'', ''b:2'']"
proof (intro conjI)
  show "0 < cfg_RateWindow (Load id sample_getenv ''ingestion'')"
    using load_config_bounds [of id sample_getenv "''ingestion''"] by blast
  have "parse_int 64 ''-7'' = Some (- 7)" by code_simp
  then show "cfg_RateLimit (Load id sample_getenv ''ingestion'') = 1000" by (simp add: Load_def intEnv_def sample_getenv_def)
  have "split_list '' a:1, ,b:2'' = [''a:1'', ''b:2'']" by code_simp
  then show "cfg_KafkaBrokers (Load id sample_getenv ''ingestion'') = [''a:1'', ''b:2'']" by (simp add: Load_def sample_getenv_def)
qed

end
