(* ===== verification/Http_Api.thy ===== *)
theory Http_Api
  imports Auth Ratelimit Webhook_Resilience
begin

text \<open>
  \<open>internal/api/http.go\<close>: the HTTP handlers and their routing.

  The handler's collaborators (the tenant store, the publisher, the limiter, the webhook
  and analytics stores, the random source, the resolver and the clock) are the operations
  of \<open>api_env\<close> on a world \<open>'w\<close>; an optional interface that is nil is \<open>None\<close>. A handler
  returns its response, the new world, the metrics it counted and the calls it made of its
  collaborators (\<open>api_call\<close>), in order. A response body is the data that is encoded as
  JSON. Latency histograms and tracing are left out. Request headers and query values are
  what \<open>Header.Get\<close> and \<open>Query().Get\<close> return for a name.
\<close>

named_theorems api_defs "definitions of the HTTP handlers"

section \<open>Requests, responses, collaborators\<close>

record http_request =
  hr_Method :: bytes
  hr_Path :: bytes
  hr_Header :: "bytes \<Rightarrow> bytes"
  hr_Query :: "bytes \<Rightarrow> bytes"
  hr_Body :: bytes

datatype api_message = Message bytes | EventMessage event_error | AuthMessage auth_error

type_synonym summary_row = "bytes \<times> nat"

datatype response_body =
    ErrorBody api_message
  | StatusBody bytes
  | AcceptedBody nat
  | TenantBody bytes bytes bytes
  | KeyBody bytes bytes
  | RowsBody "summary_row list"
  | WebhookBody bytes bytes bytes bytes
  | MetricsBody
  | NoBody

record response =
  rs_Status :: nat
  rs_Durability :: "bytes option"
  rs_Body :: response_body

record api_metrics =
  am_ValidationFailed :: nat
  am_PublishFailed :: nat
  am_RateLimitRejected :: nat
  am_Published :: nat
  am_EventsReceived :: nat
  am_Requests :: "(bytes \<times> bytes \<times> nat) list"

definition no_metrics :: api_metrics where
  "no_metrics = \<lparr>am_ValidationFailed = 0, am_PublishFailed = 0, am_RateLimitRejected = 0,
     am_Published = 0, am_EventsReceived = 0, am_Requests = []\<rparr>"

datatype api_call =
    CallAuthenticate bytes "auth_error + tenant"
  | CallAllowN bytes int "limiter_error + bool"
  | CallPublish "event list" bool
  | CallCreateTenant bytes
  | CallRotateKey bytes
  | CallSummary bytes bytes instant instant
  | CallCreateSubscription subscription

record 'w api_env =
  ae_Authenticate :: "bytes \<Rightarrow> 'w \<Rightarrow> (auth_error + tenant) \<times> 'w"
  ae_Create :: "bytes \<Rightarrow> 'w \<Rightarrow> (auth_error + tenant \<times> bytes) \<times> 'w"
  ae_RotateKey :: "bytes \<Rightarrow> 'w \<Rightarrow> (auth_error + bytes) \<times> 'w"
  ae_Publish :: "event list \<Rightarrow> 'w \<Rightarrow> bool \<times> 'w"
  ae_AllowN :: "(bytes \<Rightarrow> int \<Rightarrow> 'w \<Rightarrow> (limiter_error + bool) \<times> 'w) option"
  ae_Summary :: "(bytes \<Rightarrow> bytes \<Rightarrow> instant \<Rightarrow> instant \<Rightarrow> 'w \<Rightarrow> summary_row list option \<times> 'w) option"
  ae_CreateSubscription :: "(subscription \<Rightarrow> 'w \<Rightarrow> subscription option \<times> 'w) option"
  ae_ReadyCheck :: "('w \<Rightarrow> bool) option"
  ae_rand :: "'w \<Rightarrow> bytes option \<times> 'w"
  ae_now :: "'w \<Rightarrow> instant"
  ae_getenv :: "bytes \<Rightarrow> bytes"
  ae_parse :: "bytes \<Rightarrow> url option"
  ae_lookup :: "'w \<Rightarrow> bytes \<Rightarrow> ip list option"

record api_config =
  ac_maxPayload :: int
  ac_maxBatchBytes :: int
  ac_maxBatchEvents :: int
  ac_durability :: bytes
  ac_adminToken :: bytes

definition NewHandler :: "int \<Rightarrow> int \<Rightarrow> int \<Rightarrow> bytes \<Rightarrow> bytes \<Rightarrow> api_config" where
  "NewHandler maxPayload maxBatchBytes maxBatchEvents durability adminToken =
     \<lparr>ac_maxPayload = maxPayload, ac_maxBatchBytes = maxBatchBytes, ac_maxBatchEvents = maxBatchEvents,
      ac_durability = durability, ac_adminToken = adminToken\<rparr>"

definition SetReadyCheck :: "('w \<Rightarrow> bool) option \<Rightarrow> 'w api_env \<Rightarrow> 'w api_env" where
  "SetReadyCheck check env = env\<lparr>ae_ReadyCheck := check\<rparr>"

type_synonym 'w api_result = "response \<times> 'w \<times> api_metrics \<times> api_call list"

definition fail :: "nat \<Rightarrow> bytes \<Rightarrow> response" where
  "fail status message = \<lparr>rs_Status = status, rs_Durability = None, rs_Body = ErrorBody (Message message)\<rparr>"

definition writeJSON :: "nat \<Rightarrow> response_body \<Rightarrow> response" where
  "writeJSON status body = \<lparr>rs_Status = status, rs_Durability = None, rs_Body = body\<rparr>"

section \<open>Bounded bodies\<close>

text \<open>
  \<open>json.NewDecoder(http.MaxBytesReader(w, r.Body, limit)).Decode\<close>. A body longer than the
  limit ends in an error instead of EOF: a value is decoded only if the scanner knows its
  end without seeing the next byte, that is when it ends in a bracket or brace or when
  bytes of the prefix follow it.
\<close>

definition limited_decode :: "int \<Rightarrow> bytes \<Rightarrow> (bytes \<times> bytes) option" where
  "limited_decode limit body =
     (let seen = take (nat limit) body; cut = limit < int (length body) in
      case decoder_next seen of
        Value v rest \<Rightarrow>
          if cut \<and> rest = [] \<and> last v \<notin> {CHR '']'', CHR ''}''} then None else Some (v, rest)
      | _ \<Rightarrow> None)"

text \<open>A second \<open>Decode\<close> that returns \<open>io.EOF\<close>.\<close>

definition limited_eof :: "int \<Rightarrow> bytes \<Rightarrow> bytes \<Rightarrow> bool" where
  "limited_eof limit body rest \<longleftrightarrow> \<not> limit < int (length body) \<and> decoder_next rest = AtEOF"

definition raw_messages :: "bytes \<Rightarrow> bytes list option" where
  "raw_messages v = (if v = ''null'' then Some [] else raw_array v)"

text \<open>A string field of an anonymous struct, unknown members ignored; \<open>None\<close> on a type error.\<close>

fun member_string :: "bytes \<Rightarrow> (bytes \<times> bytes) list \<Rightarrow> bytes \<Rightarrow> bytes option" where
  "member_string name [] old = Some old"
| "member_string name ((k, v) # ms) old =
     (if fold_name (unquote_body k) = name
      then case string_field old v of None \<Rightarrow> None | Some x \<Rightarrow> member_string name ms x
      else member_string name ms old)"

definition struct_members :: "bytes \<Rightarrow> (bytes \<times> bytes) list option" where
  "struct_members v = (if v = ''null'' then Some [] else raw_object v)"

section \<open>Handlers\<close>

text \<open>\<open>authenticate\<close>: the tenant, or the response that was written.\<close>

definition authenticate ::
  "'w api_env \<Rightarrow> http_request \<Rightarrow> 'w \<Rightarrow> (response + tenant) \<times> 'w \<times> api_call list" where
  "authenticate env r w =
     (case Bearer (hr_Header r ''Authorization'') of
        None \<Rightarrow> (Inl (fail 401 ''missing bearer token''), w, [])
      | Some key \<Rightarrow>
          (case ae_Authenticate env key w of
             (Inl err, w1) \<Rightarrow> (Inl (fail 401 ''invalid credentials''), w1, [CallAuthenticate key (Inl err)])
           | (Inr t, w1) \<Rightarrow> (Inr t, w1, [CallAuthenticate key (Inr t)])))"

fun decode_events :: "instant \<Rightarrow> bytes \<Rightarrow> int \<Rightarrow> bytes list \<Rightarrow> event_error + event list" where
  "decode_events now tid mx [] = Inr []"
| "decode_events now tid mx (v # vs) =
     (case Decode now v tid mx of
        (e, Some err) \<Rightarrow> Inl err
      | (e, None) \<Rightarrow> map_sum id (Cons e) (decode_events now tid mx vs))"

text \<open>The part of \<open>ingestBatch\<close> behind the decoding: rate limit, publish, answer.\<close>

definition publish_batch ::
  "'w api_env \<Rightarrow> api_config \<Rightarrow> tenant \<Rightarrow> event list \<Rightarrow> 'w \<Rightarrow> 'w api_result" where
  "publish_batch env cfg tenant batch w =
     (let publish = (\<lambda>w calls.
            case ae_Publish env batch w of
              (False, w1) \<Rightarrow> (fail 503 ''events were not durable'', w1,
                 no_metrics\<lparr>am_PublishFailed := length batch\<rparr>, calls @ [CallPublish batch False])
            | (True, w1) \<Rightarrow>
                (\<lparr>rs_Status = 202, rs_Durability = Some (ac_durability cfg), rs_Body = AcceptedBody (length batch)\<rparr>, w1,
                 no_metrics\<lparr>am_Published := length batch, am_EventsReceived := length batch\<rparr>,
                 calls @ [CallPublish batch True])) in
      case ae_AllowN env of
        None \<Rightarrow> publish w []
      | Some allowN \<Rightarrow>
          (case allowN (ten_ID tenant) (int (length batch)) w of
             (Inl err, w1) \<Rightarrow> (fail 503 ''rate limiter unavailable'', w1, no_metrics,
                [CallAllowN (ten_ID tenant) (int (length batch)) (Inl err)])
           | (Inr False, w1) \<Rightarrow> (fail 429 ''rate limit exceeded'', w1,
                no_metrics\<lparr>am_RateLimitRejected := 1\<rparr>,
                [CallAllowN (ten_ID tenant) (int (length batch)) (Inr False)])
           | (Inr True, w1) \<Rightarrow> publish w1 [CallAllowN (ten_ID tenant) (int (length batch)) (Inr True)]))"

definition with_calls :: "api_call list \<Rightarrow> 'w api_result \<Rightarrow> 'w api_result" where
  "with_calls calls res = (case res of (rsp, w, m, l) \<Rightarrow> (rsp, w, m, calls @ l))"

definition ingestBatch :: "'w api_env \<Rightarrow> api_config \<Rightarrow> http_request \<Rightarrow> 'w \<Rightarrow> 'w api_result" where
  "ingestBatch env cfg r w =
     (case authenticate env r w of
        (Inl rsp, w1, calls) \<Rightarrow> (rsp, w1, no_metrics, calls)
      | (Inr tenant, w1, calls) \<Rightarrow>
          (let bad = (\<lambda>msg. (fail 400 msg, w1, no_metrics, calls));
               size_msg = ''batch must contain between 1 and the configured maximum number of events'' in
           case limited_decode (ac_maxBatchBytes cfg) (hr_Body r) of
             None \<Rightarrow> bad size_msg
           | Some (v, rest) \<Rightarrow>
               (case raw_messages v of
                  None \<Rightarrow> bad size_msg
                | Some raw \<Rightarrow>
                    if length raw = 0 \<or> ac_maxBatchEvents cfg < int (length raw) then bad size_msg
                    else if \<not> limited_eof (ac_maxBatchBytes cfg) (hr_Body r) rest then bad ''invalid JSON''
                    else case decode_events (ae_now env w1) (ten_ID tenant) (ac_maxPayload cfg) raw of
                      Inl err \<Rightarrow> (\<lparr>rs_Status = 400, rs_Durability = None, rs_Body = ErrorBody (EventMessage err)\<rparr>, w1,
                         no_metrics\<lparr>am_ValidationFailed := 1\<rparr>, calls)
                    | Inr batch \<Rightarrow> with_calls calls (publish_batch env cfg tenant batch w1))))"

definition createTenant :: "'w api_env \<Rightarrow> api_config \<Rightarrow> http_request \<Rightarrow> 'w \<Rightarrow> 'w api_result" where
  "createTenant env cfg r w =
     (if ac_adminToken cfg = [] \<or> hr_Header r ''X-Admin-Token'' \<noteq> ac_adminToken cfg
      then (fail 401 ''admin authentication required'', w, no_metrics, [])
      else
        case (case limited_decode 4096 (hr_Body r) of
                None \<Rightarrow> None
              | Some (v, rest) \<Rightarrow>
                  (case struct_members v of None \<Rightarrow> None | Some ms \<Rightarrow> member_string ''name'' ms [])) of
          None \<Rightarrow> (fail 400 ''invalid JSON'', w, no_metrics, [])
        | Some raw \<Rightarrow>
            let name = TrimSpace raw in
            if name = [] \<or> 200 < length name
            then (fail 400 ''name must be between 1 and 200 characters'', w, no_metrics, [])
            else case ae_Create env name w of
              (Inl err, w1) \<Rightarrow>
                (\<lparr>rs_Status = 400, rs_Durability = None, rs_Body = ErrorBody (AuthMessage err)\<rparr>, w1, no_metrics,
                 [CallCreateTenant name])
            | (Inr (t, key), w1) \<Rightarrow>
                (writeJSON 201 (TenantBody (ten_ID t) (ten_Name t) key), w1, no_metrics, [CallCreateTenant name]))"

definition rotateTenant :: "'w api_env \<Rightarrow> http_request \<Rightarrow> 'w \<Rightarrow> 'w api_result" where
  "rotateTenant env r w =
     (let parts = Split (Trim (hr_Path r) (CHR ''/'')) (CHR ''/'') in
      if length parts \<noteq> 4 \<or> parts ! 3 \<noteq> ''rotate'' then (fail 404 ''not found'', w, no_metrics, [])
      else case authenticate env r w of
        (Inl rsp, w1, calls) \<Rightarrow> (rsp, w1, no_metrics, calls)
      | (Inr tenant, w1, calls) \<Rightarrow>
          if ten_ID tenant \<noteq> parts ! 2 then (fail 403 ''tenant mismatch'', w1, no_metrics, calls)
          else case ae_RotateKey env (ten_ID tenant) w1 of
            (Inl err, w2) \<Rightarrow> (fail 404 ''tenant not found'', w2, no_metrics, calls @ [CallRotateKey (ten_ID tenant)])
          | (Inr key, w2) \<Rightarrow>
              (writeJSON 200 (KeyBody (ten_ID tenant) key), w2, no_metrics, calls @ [CallRotateKey (ten_ID tenant)]))"

text \<open>One bound of the range: the query value if given, else the default.\<close>

definition range_bound :: "bytes \<Rightarrow> instant \<Rightarrow> instant option" where
  "range_bound value fallback = (if value = [] then Some fallback else time_Parse value)"

definition summary :: "'w api_env \<Rightarrow> http_request \<Rightarrow> 'w \<Rightarrow> 'w api_result" where
  "summary env r w =
     (case ae_Summary env of
        None \<Rightarrow> (fail 501 ''analytics is not configured'', w, no_metrics, [])
      | Some query \<Rightarrow>
          (case authenticate env r w of
             (Inl rsp, w1, calls) \<Rightarrow> (rsp, w1, no_metrics, calls)
           | (Inr tenant, w1, calls) \<Rightarrow>
               let bad = (\<lambda>msg. (fail 400 msg, w1, no_metrics, calls));
                   now = ae_now env w1 in
               (case range_bound (hr_Query r ''from'') (time_Add now (- (24 * Hour))) of
                  None \<Rightarrow> bad ''invalid from''
                | Some from \<Rightarrow>
                    (case range_bound (hr_Query r ''to'') now of
                       None \<Rightarrow> bad ''invalid to''
                     | Some til \<Rightarrow>
                         if \<not> from < til then bad ''from must be before to''
                         else if 31 * 24 * Hour < time_Sub til from then bad ''analytics range cannot exceed 31 days''
                         else
                           let call = CallSummary (ten_ID tenant) (hr_Query r ''type'') from til in
                           case query (ten_ID tenant) (hr_Query r ''type'') from til w1 of
                             (None, w2) \<Rightarrow> (fail 503 ''analytics unavailable'', w2, no_metrics, calls @ [call])
                           | (Some rows, w2) \<Rightarrow> (writeJSON 200 (RowsBody rows), w2, no_metrics, calls @ [call])))))"

definition createWebhook :: "'w api_env \<Rightarrow> http_request \<Rightarrow> 'w \<Rightarrow> 'w api_result" where
  "createWebhook env r w =
     (case ae_CreateSubscription env of
        None \<Rightarrow> (fail 501 ''webhooks are not configured'', w, no_metrics, [])
      | Some create \<Rightarrow>
          (case authenticate env r w of
             (Inl rsp, w1, calls) \<Rightarrow> (rsp, w1, no_metrics, calls)
           | (Inr tenant, w1, calls) \<Rightarrow>
               (case (case limited_decode 4096 (hr_Body r) of
                        None \<Rightarrow> None
                      | Some (v, rest) \<Rightarrow>
                          (case struct_members v of
                             None \<Rightarrow> None
                           | Some ms \<Rightarrow>
                               (case (member_string ''eventtype'' ms [], member_string ''endpoint'' ms []) of
                                  (Some a, Some b) \<Rightarrow> Some (a, b)
                                | _ \<Rightarrow> None))) of
                  None \<Rightarrow> (fail 400 ''eventType and endpoint are required'', w1, no_metrics, calls)
                | Some (eventType, endpoint) \<Rightarrow>
                    if TrimSpace eventType = []
                    then (fail 400 ''eventType and endpoint are required'', w1, no_metrics, calls)
                    else if ValidateEndpoint (ae_getenv env) (ae_parse env) endpoint (Some (ae_lookup env w1)) \<noteq> None
                    then (fail 400 ''endpoint rejected by SSRF policy'', w1, no_metrics, calls)
                    else case ae_rand env w1 of (rnd1, w2) \<Rightarrow>
                      (case NewID rnd1 of
                         None \<Rightarrow> (fail 500 ''could not create subscription'', w2, no_metrics, calls)
                       | Some ident \<Rightarrow>
                           (case ae_rand env w2 of (rnd2, w3) \<Rightarrow>
                              (case NewSecret rnd2 of
                                 None \<Rightarrow> (fail 500 ''could not create subscription'', w3, no_metrics, calls)
                               | Some secret \<Rightarrow>
                                   let sub = \<lparr>sub_ID = ident, sub_TenantID = ten_ID tenant, sub_EventType = eventType,
                                              sub_Endpoint = endpoint, sub_Secret = secret, sub_Enabled = True,
                                              sub_CreatedAt = ae_now env w3, sub_UpdatedAt = ae_now env w3\<rparr> in
                                   (case create sub w3 of
                                      (None, w4) \<Rightarrow> (fail 500 ''could not create subscription'', w4, no_metrics,
                                         calls @ [CallCreateSubscription sub])
                                    | (Some out, w4) \<Rightarrow>
                                        (writeJSON 201 (WebhookBody (sub_ID out) (sub_EventType out) (sub_Endpoint out)
                                           (RawURLEncode secret)), w4, no_metrics,
                                         calls @ [CallCreateSubscription sub]))))))))"

definition health_ready :: "'w api_env \<Rightarrow> 'w \<Rightarrow> 'w api_result" where
  "health_ready env w =
     (case ae_ReadyCheck env of
        Some check \<Rightarrow>
          if \<not> check w then (fail 503 ''dependencies are not ready'', w, no_metrics, [])
          else (writeJSON 200 (StatusBody ''ready''), w, no_metrics, [])
      | None \<Rightarrow> (writeJSON 200 (StatusBody ''ready''), w, no_metrics, []))"

section \<open>Routing\<close>

text \<open>
  The patterns of the mux. A \<open>GET\<close> pattern also matches \<open>HEAD\<close>; a path that some pattern
  matches only for another method is answered with 405, any other with 404. (A path that
  is not in clean form is redirected by the mux before it gets here.)
\<close>

datatype route = Live | Ready | MetricsRoute | IngestBatch | CreateTenant | RotateTenant | CreateWebhook | Summary

definition route_table :: "(bytes \<times> bytes \<times> bool \<times> route) list" where
  "route_table =
     [(''GET'', ''/health/live'', False, Live), (''GET'', ''/health/ready'', False, Ready),
      (''GET'', ''/metrics'', False, MetricsRoute), (''POST'', ''/v1/events/batch'', False, IngestBatch),
      (''POST'', ''/v1/tenants'', False, CreateTenant), (''POST'', ''/v1/tenants/'', True, RotateTenant),
      (''POST'', ''/v1/webhooks'', False, CreateWebhook), (''GET'', ''/v1/analytics/summary'', False, Summary)]"

definition path_matches :: "bytes \<Rightarrow> bytes \<times> bytes \<times> bool \<times> route \<Rightarrow> bool" where
  "path_matches path entry =
     (case entry of (m, p, subtree, rt) \<Rightarrow> if subtree then HasPrefix path p else path = p)"

definition method_matches :: "bytes \<Rightarrow> bytes \<times> bytes \<times> bool \<times> route \<Rightarrow> bool" where
  "method_matches meth entry \<longleftrightarrow> meth = fst entry \<or> (meth = ''HEAD'' \<and> fst entry = ''GET'')"

definition find_route :: "http_request \<Rightarrow> nat + bytes \<times> route" where
  "find_route r =
     (let matching = filter (path_matches (hr_Path r)) route_table in
      case filter (method_matches (hr_Method r)) matching of
        (m, p, subtree, rt) # _ \<Rightarrow> Inr (m @ '' '' @ p, rt)
      | [] \<Rightarrow> Inl (if matching = [] then 404 else 405))"

definition serve_route :: "'w api_env \<Rightarrow> api_config \<Rightarrow> route \<Rightarrow> http_request \<Rightarrow> 'w \<Rightarrow> 'w api_result" where
  "serve_route env cfg rt r w =
     (case rt of
        Live \<Rightarrow> (writeJSON 200 (StatusBody ''ok''), w, no_metrics, [])
      | Ready \<Rightarrow> health_ready env w
      | MetricsRoute \<Rightarrow> (writeJSON 200 MetricsBody, w, no_metrics, [])
      | IngestBatch \<Rightarrow> ingestBatch env cfg r w
      | CreateTenant \<Rightarrow> createTenant env cfg r w
      | RotateTenant \<Rightarrow> rotateTenant env r w
      | CreateWebhook \<Rightarrow> createWebhook env r w
      | Summary \<Rightarrow> summary env r w)"

text \<open>\<open>Routes\<close> with \<open>instrument\<close> around it: every request is counted under its pattern.\<close>

definition Routes :: "'w api_env \<Rightarrow> api_config \<Rightarrow> http_request \<Rightarrow> 'w \<Rightarrow> 'w api_result" where
  "Routes env cfg r w =
     (case find_route r of
        Inl status \<Rightarrow>
          (writeJSON status NoBody, w, no_metrics\<lparr>am_Requests := [(hr_Method r, ''unknown'', status)]\<rparr>, [])
      | Inr (pattern, rt) \<Rightarrow>
          (case serve_route env cfg rt r w of
             (rsp, w1, m, calls) \<Rightarrow>
               (rsp, w1, m\<lparr>am_Requests := [(hr_Method r, pattern, rs_Status rsp)]\<rparr>, calls)))"

lemmas [api_defs] = authenticate_def publish_batch_def ingestBatch_def createTenant_def rotateTenant_def
  summary_def createWebhook_def health_ready_def serve_route_def Routes_def with_calls_def

section \<open>Lemmas\<close>

lemma authenticate_cases:
  assumes "authenticate env r w = (q, w1, cs)"
  obtains (refused) rsp where "q = Inl rsp" "rs_Status rsp = 401" "\<forall>c \<in> set cs. \<exists>key err. c = CallAuthenticate key (Inl err)"
    | (ok) key t where "q = Inr t" "Bearer (hr_Header r ''Authorization'') = Some key" "cs = [CallAuthenticate key (Inr t)]"
  using assms by (auto simp: authenticate_def fail_def split: option.splits prod.splits sum.splits)

lemma decode_events_Decode:
  "decode_events now tid mx vs = Inr es \<Longrightarrow> length es = length vs \<and> (\<forall>e \<in> set es. \<exists>v. Decode now v tid mx = (e, None))"
proof (induction vs arbitrary: es)
  case Nil
  then show ?case by simp
next
  case (Cons v vs)
  obtain e err where d: "Decode now v tid mx = (e, err)" by fastforce
  show ?case
  proof (cases err)
    case None
    then obtain es' where "decode_events now tid mx vs = Inr es'" "es = e # es'"
      using Cons.prems d by (cases "decode_events now tid mx vs") auto
    then show ?thesis using Cons.IH d [unfolded None] by auto
  next
    case (Some x)
    then show ?thesis using Cons.prems d by simp
  qed
qed

lemma decode_events_valid:
  "decode_events now tid mx vs = Inr es \<Longrightarrow>
     length es = length vs \<and> (\<forall>e \<in> set es. TenantID e = tid \<and> valid_event now mx e)"
  using decode_events_Decode Decode_None by meson

text \<open>What happens once the batch is decoded.\<close>

lemma publish_batch_calls:
  assumes "publish_batch env cfg t batch w = (rsp, w', m, calls)"
  shows "(rs_Status rsp = 202 \<longleftrightarrow> (\<exists>b. CallPublish b True \<in> set calls)) \<and>
    am_Published m = (if rs_Status rsp = 202 then length batch else 0) \<and>
    (rs_Status rsp = 202 \<longrightarrow> rs_Body rsp = AcceptedBody (length batch)) \<and>
    (\<exists>allow. (calls = allow \<or> (\<exists>ok. calls = allow @ [CallPublish batch ok] \<and>
          (\<forall>c \<in> set allow. c = CallAllowN (ten_ID t) (int (length batch)) (Inr True)))) \<and>
       (\<forall>c \<in> set allow. \<exists>x. c = CallAllowN (ten_ID t) (int (length batch)) x) \<and>
       (ae_AllowN env \<noteq> None \<longrightarrow> allow \<noteq> []))"
proof (cases "ae_AllowN env")
  case None
  then show ?thesis
    using assms
    by (auto simp: publish_batch_def fail_def no_metrics_def Let_def split: prod.splits bool.splits intro!: exI [of _ "[] :: api_call list"])
next
  case (Some allowN)
  obtain x w1 where x: "allowN (ten_ID t) (int (length batch)) w = (x, w1)" by fastforce
  let ?c = "CallAllowN (ten_ID t) (int (length batch)) x"
  consider (err) e where "x = Inl e" | (no) "x = Inr False" | (yes) "x = Inr True" by (cases x) auto
  then show ?thesis
  proof cases
    case yes
    then show ?thesis
      using assms Some x
      by (auto simp: publish_batch_def fail_def no_metrics_def Let_def split: prod.splits bool.splits intro!: exI [of _ "[?c]"])
  qed (use assms Some x in \<open>auto simp: publish_batch_def fail_def no_metrics_def Let_def intro!: exI [of _ "[?c]"]\<close>)
qed

text \<open>How an ingestion request reaches the publisher.\<close>

lemma ingestBatch_cases:
  assumes "ingestBatch env cfg r w = (rsp, w', m, calls)"
  obtains (early) "rs_Status rsp \<noteq> 202" "am_Published m = 0" "\<forall>c \<in> set calls. \<exists>key x. c = CallAuthenticate key x"
    | (decoded) key t w1 raw batch calls' where
      "Bearer (hr_Header r ''Authorization'') = Some key" "calls = CallAuthenticate key (Inr t) # calls'"
      "int (length (hr_Body r)) \<le> ac_maxBatchBytes cfg" "raw \<noteq> []" "int (length raw) \<le> ac_maxBatchEvents cfg"
      "decode_events (ae_now env w1) (ten_ID t) (ac_maxPayload cfg) raw = Inr batch"
      "publish_batch env cfg t batch w1 = (rsp, w', m, calls')"
proof -
  obtain q w1 cs where a: "authenticate env r w = (q, w1, cs)" by (metis prod_cases3)
  then show thesis
  proof (cases rule: authenticate_cases)
    case (refused rsp')
    then show thesis using assms a early by (force simp: ingestBatch_def no_metrics_def)
  next
    case (ok key t)
    show thesis
    proof (cases "\<exists>v rest raw batch. limited_decode (ac_maxBatchBytes cfg) (hr_Body r) = Some (v, rest) \<and>
        raw_messages v = Some raw \<and> \<not> (length raw = 0 \<or> ac_maxBatchEvents cfg < int (length raw)) \<and>
        limited_eof (ac_maxBatchBytes cfg) (hr_Body r) rest \<and>
        decode_events (ae_now env w1) (ten_ID t) (ac_maxPayload cfg) raw = Inr batch")
      case True
      then obtain v rest raw batch where *: "limited_decode (ac_maxBatchBytes cfg) (hr_Body r) = Some (v, rest)"
        "raw_messages v = Some raw" "\<not> (length raw = 0 \<or> ac_maxBatchEvents cfg < int (length raw))"
        "limited_eof (ac_maxBatchBytes cfg) (hr_Body r) rest"
        "decode_events (ae_now env w1) (ten_ID t) (ac_maxPayload cfg) raw = Inr batch" by blast
      obtain calls' where "publish_batch env cfg t batch w1 = (rsp, w', m, calls')" "calls = cs @ calls'"
        using assms a ok(1) * by (cases "publish_batch env cfg t batch w1") (auto simp: ingestBatch_def with_calls_def Let_def)
      then show thesis using decoded [of key t calls' raw w1 batch] ok * by (auto simp: limited_eof_def)
    next
      case False
      have "rs_Status rsp \<noteq> 202 \<and> am_Published m = 0 \<and> calls = cs"
        using assms a ok(1) False
        by (auto simp: ingestBatch_def fail_def no_metrics_def Let_def split: option.splits prod.splits if_splits sum.splits)
      then show thesis using early ok(3) by auto
    qed
  qed
qed

text \<open>The tenants a call acts for, beyond authentication.\<close>

fun call_tenants :: "api_call \<Rightarrow> bytes set" where
  "call_tenants (CallAllowN i n x) = {i}"
| "call_tenants (CallPublish batch ok) = TenantID ` set batch"
| "call_tenants (CallRotateKey i) = {i}"
| "call_tenants (CallSummary i ty a b) = {i}"
| "call_tenants (CallCreateSubscription sub) = {sub_TenantID sub}"
| "call_tenants _ = {}"

text \<open>All calls act for the tenant whose key the request carries.\<close>

definition own_tenant :: "http_request \<Rightarrow> api_call list \<Rightarrow> bool" where
  "own_tenant r calls \<longleftrightarrow>
     (\<forall>c \<in> set calls. \<forall>i \<in> call_tenants c. \<exists>key t. Bearer (hr_Header r ''Authorization'') = Some key \<and>
        CallAuthenticate key (Inr t) \<in> set calls \<and> ten_ID t = i)"

lemma own_tenant_refused: "\<forall>c \<in> set cs. \<exists>key x. c = CallAuthenticate key x \<Longrightarrow> own_tenant r cs"
  unfolding own_tenant_def by fastforce

lemma own_tenant_ok:
  assumes "Bearer (hr_Header r ''Authorization'') = Some key" "\<forall>c \<in> set cs. call_tenants c \<subseteq> {ten_ID t}"
  shows "own_tenant r (CallAuthenticate key (Inr t) # cs)"
  using assms unfolding own_tenant_def by fastforce

lemma ingestBatch_own: "ingestBatch env cfg r w = (rsp, w', m, calls) \<Longrightarrow> own_tenant r calls"
proof (erule ingestBatch_cases)
  assume "\<forall>c \<in> set calls. \<exists>key x. c = CallAuthenticate key x"
  then show ?thesis by (rule own_tenant_refused)
next
  fix key t w1 raw batch calls'
  assume b: "Bearer (hr_Header r ''Authorization'') = Some key" and c: "calls = CallAuthenticate key (Inr t) # calls'"
    and d: "decode_events (ae_now env w1) (ten_ID t) (ac_maxPayload cfg) raw = Inr batch"
    and p: "publish_batch env cfg t batch w1 = (rsp, w', m, calls')"
  have "TenantID ` set batch \<subseteq> {ten_ID t}" using decode_events_valid [OF d] by auto
  then have "\<forall>c \<in> set calls'. call_tenants c \<subseteq> {ten_ID t}" using publish_batch_calls [OF p] by fastforce
  then show ?thesis unfolding c by (rule own_tenant_ok [OF b])
qed

lemma rotateTenant_own: "rotateTenant env r w = (rsp, w', m, calls) \<Longrightarrow> own_tenant r calls"
proof -
  assume res: "rotateTenant env r w = (rsp, w', m, calls)"
  obtain q w1 cs where a: "authenticate env r w = (q, w1, cs)" by (metis prod_cases3)
  then show ?thesis
  proof (cases rule: authenticate_cases)
    case (refused rsp')
    then have "\<forall>c \<in> set calls. \<exists>key x. c = CallAuthenticate key x"
      using res a by (auto simp: rotateTenant_def Let_def split: if_splits)
    then show ?thesis by (rule own_tenant_refused)
  next
    case (ok key t)
    then have "calls = [] \<or> calls = [CallAuthenticate key (Inr t)] \<or> calls = [CallAuthenticate key (Inr t), CallRotateKey (ten_ID t)]"
      using res a by (auto simp: rotateTenant_def Let_def split: if_splits prod.splits sum.splits)
    then show ?thesis using own_tenant_ok [OF ok(2), of "[]" t] own_tenant_ok [OF ok(2), of "[CallRotateKey (ten_ID t)]" t]
      by (auto simp: own_tenant_def)
  qed
qed

lemma summary_calls:
  assumes "summary env r w = (rsp, w', m, calls)"
  shows "own_tenant r calls \<and>
    (\<forall>i ty a b. CallSummary i ty a b \<in> set calls \<longrightarrow> a < b \<and> time_Sub b a \<le> 31 * 24 * Hour)"
proof -
  obtain q w1 cs where a: "authenticate env r w = (q, w1, cs)" by (metis prod_cases3)
  then show ?thesis
  proof (cases rule: authenticate_cases)
    case (refused rsp')
    then have *: "\<forall>c \<in> set calls. \<exists>key x. c = CallAuthenticate key x"
      using assms a by (auto simp: summary_def split: option.splits)
    then show ?thesis using own_tenant_refused [OF *] by force
  next
    case (ok key t)
    then have "calls = [] \<or> calls = [CallAuthenticate key (Inr t)] \<or>
        (\<exists>ty x y. calls = [CallAuthenticate key (Inr t), CallSummary (ten_ID t) ty x y] \<and> x < y \<and> time_Sub y x \<le> 31 * 24 * Hour)"
      using assms a by (auto simp: summary_def Let_def split: if_splits prod.splits option.splits)
    then show ?thesis using ok(2) by (auto simp: own_tenant_def)
  qed
qed

lemma createWebhook_calls:
  assumes "createWebhook env r w = (rsp, w', m, calls)"
  shows "own_tenant r calls \<and>
    (\<forall>sub. CallCreateSubscription sub \<in> set calls \<longrightarrow>
       (\<exists>w1. ValidateEndpoint (ae_getenv env) (ae_parse env) (sub_Endpoint sub) (Some (ae_lookup env w1)) = None) \<and>
       TrimSpace (sub_EventType sub) \<noteq> [] \<and> sub_Enabled sub)"
proof -
  obtain q w1 cs where a: "authenticate env r w = (q, w1, cs)" by (metis prod_cases3)
  then show ?thesis
  proof (cases rule: authenticate_cases)
    case (refused rsp')
    then have *: "\<forall>c \<in> set calls. \<exists>key x. c = CallAuthenticate key x"
      using assms a by (auto simp: createWebhook_def split: option.splits)
    then show ?thesis using own_tenant_refused [OF *] by force
  next
    case (ok key t)
    then have "calls = [] \<or> calls = [CallAuthenticate key (Inr t)] \<or>
        (\<exists>sub. calls = [CallAuthenticate key (Inr t), CallCreateSubscription sub] \<and> sub_TenantID sub = ten_ID t \<and>
           ValidateEndpoint (ae_getenv env) (ae_parse env) (sub_Endpoint sub) (Some (ae_lookup env w1)) = None \<and>
           TrimSpace (sub_EventType sub) \<noteq> [] \<and> sub_Enabled sub)"
      using assms a by (auto simp: createWebhook_def Let_def split: if_splits prod.splits option.splits)
    then show ?thesis using ok(2) by (auto simp: own_tenant_def)
  qed
qed

lemma createTenant_calls:
  assumes "createTenant env cfg r w = (rsp, w', m, calls)"
  shows "own_tenant r calls \<and>
    (\<forall>c \<in> set calls. ac_adminToken cfg \<noteq> [] \<and> hr_Header r ''X-Admin-Token'' = ac_adminToken cfg)"
proof (cases "ac_adminToken cfg = [] \<or> hr_Header r ''X-Admin-Token'' \<noteq> ac_adminToken cfg")
  case True
  then show ?thesis using assms by (auto simp: createTenant_def own_tenant_def)
next
  case False
  then have "\<forall>c \<in> set calls. \<exists>n. c = CallCreateTenant n"
    using assms by (auto simp: createTenant_def Let_def split: option.splits if_splits prod.splits sum.splits)
  then show ?thesis using False unfolding own_tenant_def by fastforce
qed

lemma Routes_calls:
  assumes "Routes env cfg r w = (rsp, w', m, calls)"
  obtains "calls = []" | rt m0 where "serve_route env cfg rt r w = (rsp, w', m0, calls)"
  using assms by (auto simp: Routes_def split: sum.splits prod.splits)

lemma serve_route_own: "serve_route env cfg rt r w = (rsp, w', m, calls) \<Longrightarrow> own_tenant r calls"
  by (cases rt)
    (auto simp: serve_route_def health_ready_def own_tenant_def [of r "[]"] split: option.splits if_splits
      dest: ingestBatch_own rotateTenant_own summary_calls createWebhook_calls createTenant_calls)

section \<open>A sample request\<close>

text \<open>
  A tenant whose key is \<open>k\<close>, a limiter that allows everything, a publisher and stores that
  succeed; the world is the clock.
\<close>

definition sample_tenant :: tenant where
  "sample_tenant = \<lparr>ten_ID = ''acme'', ten_Name = ''Acme'', ten_APIKeyHash = [], ten_Status = ''active'',
     ten_CreatedAt = 0, ten_UpdatedAt = 0\<rparr>"

definition sample_api :: "int api_env" where
  "sample_api =
     \<lparr>ae_Authenticate = \<lambda>k w. (if k = ''k'' then Inr sample_tenant else Inl ErrUnauthorized, w),
      ae_Create = \<lambda>n w. (Inr (sample_tenant, ''k''), w), ae_RotateKey = \<lambda>i w. (Inr ''k2'', w),
      ae_Publish = \<lambda>b w. (True, w), ae_AllowN = Some (\<lambda>i n w. (Inr True, w)),
      ae_Summary = Some (\<lambda>i t a b w. (Some [], w)), ae_CreateSubscription = Some (\<lambda>sub w. (Some sub, w)),
      ae_ReadyCheck = None, ae_rand = \<lambda>w. (Some ''abcdefghijklmnopqrstuvwxyz012345'', w), ae_now = \<lambda>w. w,
      ae_getenv = \<lambda>_. [], ae_parse = \<lambda>_. Some \<lparr>u_Scheme = ''https'', u_Hostname = ''x'', u_User = None\<rparr>,
      ae_lookup = \<lambda>_ _. Some [Some [93, 184, 216, 34]]\<rparr>"

definition sample_cfg :: api_config where
  "sample_cfg = \<lparr>ac_maxPayload = 100, ac_maxBatchBytes = 1000, ac_maxBatchEvents = 5, ac_durability = ''kafka-ack'',
     ac_adminToken = ''root''\<rparr>"

definition sample_request :: "bytes \<Rightarrow> bytes \<Rightarrow> bytes \<Rightarrow> http_request" where
  "sample_request meth path body =
     \<lparr>hr_Method = meth, hr_Path = path,
      hr_Header = \<lambda>n. if n = ''Authorization'' then ''Bearer k'' else if n = ''X-Admin-Token'' then ''root'' else [],
      hr_Query = \<lambda>_. [], hr_Body = body\<rparr>"

definition sample_ingest :: http_request where
  "sample_ingest = sample_request ''POST'' ''/v1/events/batch'' (CHR ''['' # sample_body @ '']'')"

definition sample_ingested :: event where
  "sample_ingested = \<lparr>TenantID = ''acme'', EventID = ''e1'', Type = ''t'', Timestamp = 1735689600000000000, Payload = ''{}''\<rparr>"

lemma sample_ingest_calls:
  "snd (snd (snd (ingestBatch sample_api sample_cfg sample_ingest 1735689600000000000))) =
     [CallAuthenticate ''k'' (Inr sample_tenant), CallAllowN ''acme'' 1 (Inr True), CallPublish [sample_ingested] True]"
  by code_simp

section \<open>Properties\<close>

text \<open>
  C1: what ingestion publishes. The request is answered with 202 exactly when a batch was
  published, and the count in the answer is the number of events counted as published.
  Whatever the answer, a batch reaches the publisher only if the request carried a key
  that authenticated, the body was within its limit, the batch is not empty and within its
  limit, every event in it is valid and belongs to the authenticated tenant, and the rate
  limiter (if there is one) allowed the tenant exactly that many events.
\<close>

theorem ingest_publishes_only_admitted:
  assumes "ingestBatch env cfg r w = (rsp, w', m, calls)"
  shows "(rs_Status rsp = 202 \<longleftrightarrow> (\<exists>b. CallPublish b True \<in> set calls)) \<and>
    (rs_Status rsp = 202 \<longrightarrow> rs_Body rsp = AcceptedBody (am_Published m)) \<and>
    (\<forall>batch ok. CallPublish batch ok \<in> set calls \<longrightarrow>
       int (length (hr_Body r)) \<le> ac_maxBatchBytes cfg \<and> batch \<noteq> [] \<and> int (length batch) \<le> ac_maxBatchEvents cfg \<and>
       (\<exists>key t now. Bearer (hr_Header r ''Authorization'') = Some key \<and> CallAuthenticate key (Inr t) \<in> set calls \<and>
          (\<forall>e \<in> set batch. TenantID e = ten_ID t \<and> valid_event now (ac_maxPayload cfg) e) \<and>
          (ae_AllowN env \<noteq> None \<longrightarrow> CallAllowN (ten_ID t) (int (length batch)) (Inr True) \<in> set calls)))"
  using assms
proof (cases rule: ingestBatch_cases)
  case early
  then have "CallPublish b ok \<notin> set calls" for b ok by auto
  then show ?thesis using early(1) by auto
next
  case (decoded key t w1 raw batch calls')
  note pb = publish_batch_calls [OF decoded(7)] and de = decode_events_valid [OF decoded(6)]
  obtain allow where al: "calls' = allow \<or> (\<exists>ok. calls' = allow @ [CallPublish batch ok] \<and>
        (\<forall>c \<in> set allow. c = CallAllowN (ten_ID t) (int (length batch)) (Inr True)))"
      "\<forall>c \<in> set allow. \<exists>x. c = CallAllowN (ten_ID t) (int (length batch)) x" "ae_AllowN env \<noteq> None \<longrightarrow> allow \<noteq> []"
    using pb by blast
  have b: "b = batch" "ae_AllowN env \<noteq> None \<longrightarrow> CallAllowN (ten_ID t) (int (length batch)) (Inr True) \<in> set calls'"
    if "CallPublish b ok \<in> set calls'" for b ok
    using that al by (auto simp: neq_Nil_conv)
  have pub: "CallPublish b ok \<in> set calls \<longleftrightarrow> CallPublish b ok \<in> set calls'" for b ok
    using decoded(2) by simp
  have lens: "batch \<noteq> []" "int (length batch) \<le> ac_maxBatchEvents cfg" using de decoded(4,5) by auto
  have "\<exists>key t now. Bearer (hr_Header r ''Authorization'') = Some key \<and> CallAuthenticate key (Inr t) \<in> set calls \<and>
      (\<forall>e \<in> set batch. TenantID e = ten_ID t \<and> valid_event now (ac_maxPayload cfg) e) \<and>
      (ae_AllowN env \<noteq> None \<longrightarrow> CallAllowN (ten_ID t) (int (length batch)) (Inr True) \<in> set calls)"
    if "CallPublish batch ok \<in> set calls'" for ok
    using decoded(1,2) de b(2) [OF that] by (intro exI [of _ key] exI [of _ t] exI [of _ "ae_now env w1"]) simp
  note who = this
  show ?thesis
  proof (intro conjI allI impI)
    show "rs_Status rsp = 202 \<longleftrightarrow> (\<exists>b. CallPublish b True \<in> set calls)" using pb unfolding pub by blast
    show "rs_Status rsp = 202 \<Longrightarrow> rs_Body rsp = AcceptedBody (am_Published m)" using pb by simp
    fix b' ok
    assume p: "CallPublish b' ok \<in> set calls"
    then have [simp]: "b' = batch" using b(1) pub by blast
    show "int (length (hr_Body r)) \<le> ac_maxBatchBytes cfg" "b' \<noteq> []" "int (length b') \<le> ac_maxBatchEvents cfg"
      using decoded(3) lens by simp_all
    show "\<exists>key t now. Bearer (hr_Header r ''Authorization'') = Some key \<and> CallAuthenticate key (Inr t) \<in> set calls \<and>
      (\<forall>e \<in> set b'. TenantID e = ten_ID t \<and> valid_event now (ac_maxPayload cfg) e) \<and>
      (ae_AllowN env \<noteq> None \<longrightarrow> CallAllowN (ten_ID t) (int (length b')) (Inr True) \<in> set calls)"
      using who [of ok] p pub by simp
  qed
qed

theorem ingest_publishes_only_admitted_witness:
  "CallPublish [sample_ingested] True \<in>
     set (snd (snd (snd (ingestBatch sample_api sample_cfg sample_ingest 1735689600000000000)))) \<and>
   TenantID sample_ingested = ''acme'' \<and> (\<exists>now. valid_event now 100 sample_ingested) \<and>
   rs_Status (fst (ingestBatch sample_api sample_cfg sample_ingest 1735689600000000000)) = 202"
proof -
  obtain rsp w' m calls where i: "ingestBatch sample_api sample_cfg sample_ingest 1735689600000000000 = (rsp, w', m, calls)"
    by (metis prod_cases4)
  then have c: "calls = [CallAuthenticate ''k'' (Inr sample_tenant), CallAllowN ''acme'' 1 (Inr True),
      CallPublish [sample_ingested] True]"
    using sample_ingest_calls by simp
  from ingest_publishes_only_admitted [OF i] i c show ?thesis
    by (auto simp: sample_tenant_def sample_cfg_def)
qed

text \<open>
  C4: tenants are separated at the interface. Whatever the route, every call a request
  makes of the limiter, the publisher, the key rotation, the analytics and the webhook
  store is for the tenant that the request's own bearer key authenticated as.
\<close>

theorem requests_act_for_own_tenant:
  assumes "Routes env cfg r w = (rsp, w', m, calls)" "c \<in> set calls" "i \<in> call_tenants c"
  shows "\<exists>key t. Bearer (hr_Header r ''Authorization'') = Some key \<and> CallAuthenticate key (Inr t) \<in> set calls \<and> ten_ID t = i"
  using assms(1)
proof (cases rule: Routes_calls)
  case 1
  then show ?thesis using assms(2) by simp
next
  case (2 rt m0)
  from serve_route_own [OF this] assms(2,3) show ?thesis unfolding own_tenant_def by blast
qed

theorem requests_act_for_own_tenant_witness:
  "\<exists>key. Bearer (hr_Header sample_ingest ''Authorization'') = Some key"
proof -
  obtain rsp w' m calls where i: "ingestBatch sample_api sample_cfg sample_ingest 1735689600000000000 = (rsp, w', m, calls)"
    by (metis prod_cases4)
  have f: "find_route sample_ingest = Inr (''POST /v1/events/batch'', IngestBatch)" by code_simp
  have c: "CallPublish [sample_ingested] True \<in> set calls" using sample_ingest_calls i by simp
  have r: "Routes sample_api sample_cfg sample_ingest 1735689600000000000 =
      (rsp, w', m\<lparr>am_Requests := [(hr_Method sample_ingest, ''POST /v1/events/batch'', rs_Status rsp)]\<rparr>, calls)"
    using f i by (simp add: Routes_def serve_route_def)
  show ?thesis using requests_act_for_own_tenant [OF r c, of "''acme''"] by (auto simp: sample_ingested_def)
qed

text \<open>
  Tenants are created only by an administrator: the store is called only if an admin
  token is configured and the request carries it, and then with a trimmed name of 1 to 200
  bytes.
\<close>

theorem create_tenant_needs_admin:
  assumes "createTenant env cfg r w = (rsp, w', m, calls)" "CallCreateTenant name \<in> set calls"
  shows "ac_adminToken cfg \<noteq> [] \<and> hr_Header r ''X-Admin-Token'' = ac_adminToken cfg \<and>
    (\<exists>raw. name = TrimSpace raw) \<and> length name \<in> {1..200}"
proof -
  have "(\<exists>raw. name = TrimSpace raw) \<and> length name \<in> {1..200}"
    using assms by (auto simp: createTenant_def Let_def Suc_le_eq split: if_splits option.splits prod.splits sum.splits)
  then show ?thesis using createTenant_calls [OF assms(1)] assms(2) by blast
qed

definition sample_create :: http_request where
  "sample_create = sample_request ''POST'' ''/v1/tenants'' (''{'' @ quote # ''name'' @ quote # '':'' @ quote # '' Acme'' @ quote # ''}'')"

theorem create_tenant_needs_admin_witness:
  "hr_Header sample_create ''X-Admin-Token'' = ac_adminToken sample_cfg \<and> length ''Acme'' \<in> {1..200}"
proof -
  have c: "snd (snd (snd (createTenant sample_api sample_cfg sample_create 0))) = [CallCreateTenant ''Acme'']"
    by code_simp
  obtain rsp w' m calls where i: "createTenant sample_api sample_cfg sample_create 0 = (rsp, w', m, calls)"
    by (metis prod_cases4)
  show ?thesis using create_tenant_needs_admin [OF i, of "''Acme''"] c i by simp
qed

text \<open>
  What is stored and queried for a tenant. A subscription is stored only if its
  endpoint passed the endpoint policy and its event type is not blank; an analytics query
  is made only for a range that is not empty and not longer than 31 days.
\<close>

theorem stored_and_queried_within_policy:
  "(createWebhook env r w = (rsp, w', m, calls) \<longrightarrow> CallCreateSubscription sub \<in> set calls \<longrightarrow>
      (\<exists>w1. ValidateEndpoint (ae_getenv env) (ae_parse env) (sub_Endpoint sub) (Some (ae_lookup env w1)) = None) \<and>
      TrimSpace (sub_EventType sub) \<noteq> [] \<and> sub_Enabled sub) \<and>
   (summary env r w = (rsp, w', m, calls) \<longrightarrow> CallSummary i ty a b \<in> set calls \<longrightarrow>
      a < b \<and> b - a \<le> 31 * 24 * Hour)"
proof -
  have "time_Sub b a \<le> 31 * 24 * Hour \<longleftrightarrow> b - a \<le> 31 * 24 * Hour"
    using time_Sub_gt_iff [of "31 * 24 * Hour" b a] by (simp add: time_defs not_less [symmetric])
  then show ?thesis using createWebhook_calls [of env r w rsp w' m calls] summary_calls [of env r w rsp w' m calls] by blast
qed

definition sample_summary :: http_request where
  "sample_summary = sample_request ''GET'' ''/v1/analytics/summary'' []"

theorem stored_and_queried_within_policy_witness:
  "\<exists>a b. CallSummary ''acme'' [] a b \<in> set (snd (snd (snd (summary sample_api sample_summary 0)))) \<and>
     a < b \<and> b - a \<le> 31 * 24 * Hour"
proof -
  have c: "CallSummary ''acme'' [] (- (24 * Hour)) 0 \<in> set (snd (snd (snd (summary sample_api sample_summary 0))))"
    by code_simp
  obtain rsp w' m calls where i: "summary sample_api sample_summary 0 = (rsp, w', m, calls)" by (metis prod_cases4)
  show ?thesis
    using stored_and_queried_within_policy [of sample_api sample_summary 0 rsp w' m calls _ "''acme''" "[]" "- (24 * Hour)" 0] c i
    by force
qed

end
