(* ===== verification/Telemetry.thy ===== *)
theory Telemetry
  imports Go_Text
begin

text \<open>
  \<open>internal/telemetry\<close>: the exporter that \<open>tracing.go\<close> sets up from \<open>PULSE_OTEL_ENDPOINT\<close>, and
  the collectors that \<open>metrics.go\<close> registers, and the spans that the services open and end.
  \<open>url.Parse\<close> and the constructors of the OTLP exporters are parameters; the values of metrics
  belong to the components that count.
\<close>

named_theorems telemetry_defs "definitions of the tracing set-up"

section \<open>Exporter options\<close>

fun Contains :: "bytes \<Rightarrow> bytes \<Rightarrow> bool" where
  "Contains [] sub \<longleftrightarrow> sub = []"
| "Contains (c # cs) sub \<longleftrightarrow> HasPrefix (c # cs) sub \<or> Contains cs sub"

record trace_url =
  tu_Scheme :: bytes
  tu_Host :: bytes
  tu_Path :: bytes

datatype trace_option = WithEndpoint bytes | WithInsecure | WithURLPath bytes

datatype trace_error = ErrParse | ErrNoHost | ErrScheme bytes | ErrPath | ErrExporter

definition httpExporterOptions :: "(bytes \<Rightarrow> trace_url option) \<Rightarrow> bytes \<Rightarrow> trace_error + trace_option list" where
  "httpExporterOptions parse endpoint =
     (if \<not> Contains endpoint ''://'' then Inr [WithEndpoint endpoint, WithInsecure]
      else case parse endpoint of
        None \<Rightarrow> Inl ErrParse
      | Some u \<Rightarrow>
          if tu_Host u = [] then Inl ErrNoHost
          else if tu_Scheme u \<noteq> ''http'' \<and> tu_Scheme u \<noteq> ''https'' then Inl (ErrScheme (tu_Scheme u))
          else Inr ([WithEndpoint (tu_Host u)] @ (if tu_Scheme u = ''http'' then [WithInsecure] else [])
                 @ (if tu_Path u \<noteq> [] \<and> tu_Path u \<noteq> ''/'' then [WithURLPath (tu_Path u)] else [])))"

definition grpcExporterOptions :: "(bytes \<Rightarrow> trace_url option) \<Rightarrow> bytes \<Rightarrow> trace_error + trace_option list" where
  "grpcExporterOptions parse endpoint =
     (case parse endpoint of
        None \<Rightarrow> Inl ErrParse
      | Some u \<Rightarrow>
          if tu_Host u = [] then Inl ErrNoHost
          else if tu_Path u \<noteq> [] \<and> tu_Path u \<noteq> ''/'' then Inl ErrPath
          else Inr ([WithEndpoint (tu_Host u)] @ (if tu_Scheme u = ''grpc'' then [WithInsecure] else [])))"

section \<open>Set-up\<close>

datatype exporter = GrpcExporter "trace_option list" | HttpExporter "trace_option list"

fun exporter_options :: "exporter \<Rightarrow> trace_option list" where
  "exporter_options (GrpcExporter opts) = opts"
| "exporter_options (HttpExporter opts) = opts"

text \<open>
  \<open>SetupTracing\<close>: the exporter of the installed provider, or \<open>None\<close> when tracing is off.
  \<open>start\<close> says whether the exporter's constructor succeeds.
\<close>

definition SetupTracing ::
  "(bytes \<Rightarrow> bytes) \<Rightarrow> (bytes \<Rightarrow> trace_url option) \<Rightarrow> (exporter \<Rightarrow> bool) \<Rightarrow> exporter option" where
  "SetupTracing getenv parse start =
     (let endpoint = TrimSpace (getenv ''PULSE_OTEL_ENDPOINT'') in
      if endpoint = [] then None
      else
        let chosen = (if HasPrefix endpoint ''grpc://'' \<or> HasPrefix endpoint ''grpcs://''
                      then map_sum id GrpcExporter (grpcExporterOptions parse endpoint)
                      else map_sum id HttpExporter (httpExporterOptions parse endpoint)) in
        case chosen of
          Inl err \<Rightarrow> None
        | Inr x \<Rightarrow> if start x then Some x else None)"

lemmas [telemetry_defs] = httpExporterOptions_def grpcExporterOptions_def SetupTracing_def

section \<open>Spans\<close>

text \<open>
  A span as the OpenTelemetry API documents it: it collects attributes, recorded errors and
  a status until it is ended; what is done to it afterwards has no effect. \<open>'e\<close> is the type
  of the errors.
\<close>

datatype span_kind = SpanKindInternal | SpanKindServer | SpanKindProducer | SpanKindConsumer

datatype attribute = AttributeString bytes bytes | AttributeInt bytes int

datatype span_status = StatusUnset | StatusError bytes

record 'e span =
  sp_Name :: bytes
  sp_Kind :: span_kind
  sp_Parent :: "bytes option"
  sp_Attributes :: "attribute list"
  sp_Errors :: "'e list"
  sp_Status :: span_status
  sp_Ended :: bool

text \<open>\<open>StartSpan\<close>: \<open>parent\<close> is the trace context that the context carries.\<close>

definition StartSpan :: "bytes option \<Rightarrow> bytes \<Rightarrow> span_kind \<Rightarrow> attribute list \<Rightarrow> 'e span" where
  "StartSpan parent name k attrs =
     \<lparr>sp_Name = name, sp_Kind = k, sp_Parent = parent, sp_Attributes = attrs, sp_Errors = [],
      sp_Status = StatusUnset, sp_Ended = False\<rparr>"

definition span_SetAttributes :: "attribute list \<Rightarrow> 'e span \<Rightarrow> 'e span" where
  "span_SetAttributes attrs s = (if sp_Ended s then s else s\<lparr>sp_Attributes := sp_Attributes s @ attrs\<rparr>)"

definition span_SetStatus :: "span_status \<Rightarrow> 'e span \<Rightarrow> 'e span" where
  "span_SetStatus st s = (if sp_Ended s then s else s\<lparr>sp_Status := st\<rparr>)"

definition span_RecordError :: "'e \<Rightarrow> 'e span \<Rightarrow> 'e span" where
  "span_RecordError err s = (if sp_Ended s then s else s\<lparr>sp_Errors := sp_Errors s @ [err]\<rparr>)"

definition span_End :: "'e span \<Rightarrow> 'e span" where
  "span_End s = s\<lparr>sp_Ended := True\<rparr>"

text \<open>\<open>msg\<close> is the method \<open>Error\<close> of the error.\<close>

definition EndSpan :: "('e \<Rightarrow> bytes) \<Rightarrow> 'e option \<Rightarrow> 'e span \<Rightarrow> 'e span" where
  "EndSpan msg err s =
     span_End (case err of None \<Rightarrow> s | Some e \<Rightarrow> span_SetStatus (StatusError (msg e)) (span_RecordError e s))"

lemmas span_defs = StartSpan_def span_SetAttributes_def span_SetStatus_def span_RecordError_def span_End_def EndSpan_def

text \<open>A span is ended with the error it was given, once: ending it again changes nothing.\<close>

lemma EndSpan_outcome:
  assumes "\<not> sp_Ended s" "sp_Status s = StatusUnset"
  shows "sp_Ended (EndSpan msg err s)"
    and "sp_Status (EndSpan msg err s) = (case err of None \<Rightarrow> StatusUnset | Some e \<Rightarrow> StatusError (msg e))"
    and "sp_Errors (EndSpan msg err s) = sp_Errors s @ (case err of None \<Rightarrow> [] | Some e \<Rightarrow> [e])"
    and "EndSpan msg err' (EndSpan msg err s) = EndSpan msg err s"
  using assms by (auto simp: span_defs split: option.splits)

section \<open>Collectors\<close>

datatype metric_kind = CounterVec | HistogramVec | GaugeVec

record metric =
  mt_name :: bytes
  mt_kind :: metric_kind
  mt_labels :: "bytes list"

definition metric_of :: "metric_kind \<Rightarrow> bytes \<Rightarrow> bytes list \<Rightarrow> metric" where
  "metric_of k n ls = \<lparr>mt_name = n, mt_kind = k, mt_labels = ls\<rparr>"

definition pulse_metrics :: "metric list" where
  "pulse_metrics =
     [metric_of CounterVec ''pulse_http_requests_total'' [''method'', ''route'', ''status''],
      metric_of HistogramVec ''pulse_http_request_duration_seconds'' [''method'', ''route''],
      metric_of CounterVec ''pulse_events_received_total'' [],
      metric_of CounterVec ''pulse_events_processed_total'' [''worker''],
      metric_of CounterVec ''pulse_events_failed_total'' [''reason''],
      metric_of CounterVec ''pulse_events_duplicate_total'' [],
      metric_of CounterVec ''pulse_rate_limit_rejected_total'' [],
      metric_of CounterVec ''pulse_kafka_published_total'' [''topic''],
      metric_of CounterVec ''pulse_webhook_delivery_total'' [''result''],
      metric_of CounterVec ''pulse_webhook_retry_total'' [],
      metric_of CounterVec ''pulse_webhook_dlq_total'' [],
      metric_of HistogramVec ''pulse_kafka_publish_latency_seconds'' [''topic''],
      metric_of HistogramVec ''pulse_processing_latency_seconds'' [''worker''],
      metric_of GaugeVec ''pulse_consumer_lag'' [''group'', ''partition''],
      metric_of GaugeVec ''pulse_workers'' [''worker''],
      metric_of GaugeVec ''pulse_queue_depth'' [''queue'']]"

text \<open>\<open>MustRegister\<close> panics (\<open>None\<close>) when a collector of that name is registered already.\<close>

fun register_all :: "metric list \<Rightarrow> metric list \<Rightarrow> metric list option" where
  "register_all reg [] = Some reg"
| "register_all reg (m # ms) =
     (if mt_name m \<in> set (map mt_name reg) then None else register_all (reg @ [m]) ms)"

definition NewMetrics :: "metric list \<Rightarrow> metric list option" where
  "NewMetrics reg = register_all reg pulse_metrics"

lemma register_all_iff:
  "register_all reg ms \<noteq> None \<longleftrightarrow> distinct (map mt_name ms) \<and> set (map mt_name reg) \<inter> set (map mt_name ms) = {}"
  by (induction reg ms rule: register_all.induct) auto

lemma NewMetrics_fresh: "NewMetrics [] \<noteq> None"
  unfolding NewMetrics_def register_all_iff by (simp add: pulse_metrics_def metric_of_def)

lemma SetupTracing_cases:
  assumes "SetupTracing getenv parse start = Some x" "endpoint = TrimSpace (getenv ''PULSE_OTEL_ENDPOINT'')"
  shows "endpoint \<noteq> []"
    and "HasPrefix endpoint ''grpc://'' \<or> HasPrefix endpoint ''grpcs://'' \<Longrightarrow>
      \<exists>opts. grpcExporterOptions parse endpoint = Inr opts \<and> x = GrpcExporter opts"
    and "\<not> (HasPrefix endpoint ''grpc://'' \<or> HasPrefix endpoint ''grpcs://'') \<Longrightarrow>
      \<exists>opts. httpExporterOptions parse endpoint = Inr opts \<and> x = HttpExporter opts"
  using assms
  by (cases "grpcExporterOptions parse endpoint"; cases "httpExporterOptions parse endpoint";
      simp add: SetupTracing_def Let_def split: if_splits)+

lemma grpc_Contains: "HasPrefix e ''grpc://'' \<or> HasPrefix e ''grpcs://'' \<Longrightarrow> Contains e ''://''"
  by (auto simp: HasPrefix_def strip_prefix_Some)

section \<open>Properties\<close>

text \<open>What \<open>url.Parse\<close> promises: the scheme is the text before \<open>://\<close>.\<close>

definition scheme_parsed :: "(bytes \<Rightarrow> trace_url option) \<Rightarrow> bool" where
  "scheme_parsed parse \<longleftrightarrow>
     (\<forall>e u. parse e = Some u \<longrightarrow>
        (HasPrefix e ''grpc://'' \<longrightarrow> tu_Scheme u = ''grpc'') \<and> (HasPrefix e ''grpcs://'' \<longrightarrow> tu_Scheme u = ''grpcs''))"

text \<open>
  Spans leave in clear only when the operator says so. When tracing is installed, it
  exports to the configured endpoint or its host, and without TLS exactly if the endpoint
  has no scheme or its scheme is \<open>http\<close> or \<open>grpc\<close>.
\<close>

theorem tracing_plaintext_only_if_asked:
  assumes "scheme_parsed parse" "SetupTracing getenv parse start = Some x"
    and "endpoint = TrimSpace (getenv ''PULSE_OTEL_ENDPOINT'')"
  shows "endpoint \<noteq> [] \<and>
    (WithInsecure \<in> set (exporter_options x) \<longleftrightarrow>
       \<not> Contains endpoint ''://'' \<or> (\<exists>u. parse endpoint = Some u \<and> tu_Scheme u \<in> {''http'', ''grpc''})) \<and>
    (\<exists>host. exporter_options x = WithEndpoint host # tl (exporter_options x) \<and>
       (host = endpoint \<or> (\<exists>u. parse endpoint = Some u \<and> host = tu_Host u \<and> host \<noteq> [])))"
proof (cases "HasPrefix endpoint ''grpc://'' \<or> HasPrefix endpoint ''grpcs://''")
  case True
  then obtain opts where o: "grpcExporterOptions parse endpoint = Inr opts" "x = GrpcExporter opts"
    using SetupTracing_cases(2) [OF assms(2,3)] by blast
  then obtain u where u: "parse endpoint = Some u" "tu_Host u \<noteq> []"
      "opts = [WithEndpoint (tu_Host u)] @ (if tu_Scheme u = ''grpc'' then [WithInsecure] else [])"
    by (auto simp: grpcExporterOptions_def split: option.splits if_splits)
  have "tu_Scheme u = ''grpc'' \<or> tu_Scheme u = ''grpcs''" using True u(1) assms(1) by (auto simp: scheme_parsed_def)
  moreover have "endpoint \<noteq> []" using SetupTracing_cases(1) [OF assms(2,3)] .
  ultimately show ?thesis using grpc_Contains [OF True] o(2) u by auto
next
  case False
  then obtain opts where o: "httpExporterOptions parse endpoint = Inr opts" "x = HttpExporter opts" "endpoint \<noteq> []"
    using SetupTracing_cases(1,3) [OF assms(2,3)] by blast
  then show ?thesis
    by (cases "Contains endpoint ''://''") (auto simp: httpExporterOptions_def split: option.splits if_splits)
qed

theorem tracing_plaintext_only_if_asked_witness:
  "SetupTracing (\<lambda>_. ''otel:4318'') (\<lambda>_. None) (\<lambda>_. True) = Some (HttpExporter [WithEndpoint ''otel:4318'', WithInsecure]) \<and>
   \<not> Contains ''otel:4318'' ''://''"
proof -
  have s: "SetupTracing (\<lambda>_. ''otel:4318'') (\<lambda>_. None) (\<lambda>_. True) = Some (HttpExporter [WithEndpoint ''otel:4318'', WithInsecure])"
    and e: "''otel:4318'' = TrimSpace ''otel:4318''"
    by code_simp+
  have "scheme_parsed (\<lambda>_. None)" by (simp add: scheme_parsed_def)
  from tracing_plaintext_only_if_asked [OF this s e] s show ?thesis by simp
qed

end
