(* ===== verification/App_Wiring.thy ===== *)
theory App_Wiring
  imports Platform_Config Persistence Http_Api Telemetry
begin

text \<open>
  \<open>internal/app/app.go\<close>: how the services are put together, with the constructors of the
  PostgreSQL pool and the ClickHouse connection.

  What opening a connection does is a parameter (\<open>app_env\<close>): whether a DSN or URL parses, a
  pool or client can be made, a ping is answered. A function returns its result with the
  resources it acquired and disposed of, in order; \<open>d.close\<close> is the list of resources it
  closes. The service's own work (\<open>ListenAndServe\<close>, \<open>Consumer.Run\<close>) happens between set-up
  and the deferred closes and is the subject of the other theories.
\<close>

named_theorems app_defs "definitions of the wiring"

section \<open>Resources\<close>

datatype resource = PostgresPool | KafkaWriter | RedisClient | ClickHouseConn | KafkaReader | DeadLetterWriter | MetricsServer

datatype app_event = Acquired resource | Disposed resource

datatype app_error =
    ErrPostgres | ErrPostgresRequired | ErrBrokersRequired | ErrRedisURL | ErrRedisPing | ErrRedisRequired
  | ErrClickHouse | ErrClickHouseRequired | ErrWorkerLocal | ErrUnknownWorker bytes | ErrMetricsServer | ErrServe

text \<open>The resources still held after a sequence of events, the most recent first.\<close>

fun held :: "app_event list \<Rightarrow> resource list \<Rightarrow> resource list" where
  "held [] rs = rs"
| "held (Acquired r # es) rs = held es (r # rs)"
| "held (Disposed r # es) rs = held es (remove1 r rs)"

record app_env =
  ap_getenv :: "bytes \<Rightarrow> bytes"
  ap_parseDSN :: "bytes \<Rightarrow> bool"
  ap_newPool :: bool
  ap_pingPostgres :: bool
  ap_parseRedis :: "bytes \<Rightarrow> bool"
  ap_pingRedis :: bool
  ap_openClickHouse :: "bytes \<Rightarrow> bytes \<Rightarrow> bool"
  ap_pingClickHouse :: bool

text \<open>\<open>NewPostgres\<close> gives the pool's maximal number of connections.\<close>

definition NewPostgres :: "app_env \<Rightarrow> bytes \<Rightarrow> int option \<times> app_event list" where
  "NewPostgres env dsn =
     (if \<not> ap_parseDSN env dsn then (None, [])
      else
        let maxConns = int32Env (ap_getenv env) ''PULSE_POSTGRES_MAX_CONNS'' 20 in
        if \<not> ap_newPool env then (None, [])
        else if \<not> ap_pingPostgres env then (None, [Acquired PostgresPool, Disposed PostgresPool])
        else (Some maxConns, [Acquired PostgresPool]))"

definition NewClickHouse :: "app_env \<Rightarrow> bytes \<Rightarrow> bytes \<Rightarrow> bool \<times> app_event list" where
  "NewClickHouse env addr database =
     (if \<not> ap_openClickHouse env addr database then (False, [])
      else if \<not> ap_pingClickHouse env then (False, [Acquired ClickHouseConn, Disposed ClickHouseConn])
      else (True, [Acquired ClickHouseConn]))"

section \<open>Dependencies of the HTTP services\<close>

datatype store_kind = PostgresTenants | CachedTenants duration | MemoryTenants
datatype publisher_kind = KafkaPublisher bytes | LocalPublisher
datatype limiter_kind = RedisLimiter redis_limiter | LocalLimiter memory_limiter

record dependencies =
  dep_store :: "store_kind option"
  dep_publisher :: "publisher_kind option"
  dep_limiter :: "limiter_kind option"
  dep_postgres :: bool
  dep_analytics :: bool
  dep_close :: "resource list"
  dep_checks :: "resource list"

definition no_dependencies :: dependencies where
  "no_dependencies = \<lparr>dep_store = None, dep_publisher = None, dep_limiter = None, dep_postgres = False,
     dep_analytics = False, dep_close = [], dep_checks = []\<rparr>"

text \<open>\<open>auth.NewCachedStore\<close> over the pool.\<close>

definition tenant_store_kind :: "duration \<Rightarrow> store_kind" where
  "tenant_store_kind ttl = (case NewCachedStore ttl of None \<Rightarrow> PostgresTenants | Some (t, _) \<Rightarrow> CachedTenants t)"

definition setup_store :: "app_env \<Rightarrow> config \<Rightarrow> dependencies \<Rightarrow> (app_error + dependencies) \<times> app_event list" where
  "setup_store env cfg d =
     (if cfg_PostgresDSN cfg \<noteq> [] then
        (case NewPostgres env (cfg_PostgresDSN cfg) of
           (None, ev) \<Rightarrow> (Inl ErrPostgres, ev)
         | (Some n, ev) \<Rightarrow>
             (Inr (d\<lparr>dep_postgres := True, dep_store := Some (tenant_store_kind (cfg_AuthCacheTTL cfg)),
                     dep_checks := dep_checks d @ [PostgresPool], dep_close := [PostgresPool]\<rparr>), ev))
      else if cfg_LocalFallback cfg then (Inr (d\<lparr>dep_store := Some MemoryTenants\<rparr>), [])
      else (Inl ErrPostgresRequired, []))"

definition setup_publisher :: "config \<Rightarrow> dependencies \<Rightarrow> (app_error + dependencies) \<times> app_event list" where
  "setup_publisher cfg d =
     (if 0 < length (cfg_KafkaBrokers cfg) then
        (Inr (d\<lparr>dep_publisher := Some (KafkaPublisher (cfg_KafkaTopic cfg)), dep_checks := dep_checks d @ [KafkaWriter],
                dep_close := KafkaWriter # dep_close d\<rparr>), [Acquired KafkaWriter])
      else if cfg_LocalFallback cfg then (Inr (d\<lparr>dep_publisher := Some LocalPublisher\<rparr>), [])
      else (Inl ErrBrokersRequired, map Disposed (dep_close d)))"

definition setup_limiter :: "(rat \<Rightarrow> rat) \<Rightarrow> app_env \<Rightarrow> config \<Rightarrow> dependencies \<Rightarrow> (app_error + dependencies) \<times> app_event list" where
  "setup_limiter rnd env cfg d =
     (if cfg_RedisURL cfg \<noteq> [] then
        if \<not> ap_parseRedis env (cfg_RedisURL cfg) then (Inl ErrRedisURL, map Disposed (dep_close d))
        else if \<not> ap_pingRedis env then (Inl ErrRedisPing, Acquired RedisClient # map Disposed (dep_close d))
        else (Inr (d\<lparr>dep_limiter := Some (RedisLimiter (NewRedis (cfg_RateLimit cfg) (cfg_RateWindow cfg))),
                     dep_checks := dep_checks d @ [RedisClient], dep_close := RedisClient # dep_close d\<rparr>), [Acquired RedisClient])
      else if cfg_LocalFallback cfg then
        (Inr (d\<lparr>dep_limiter := Some (LocalLimiter (NewMemoryWithClock rnd (cfg_RateLimit cfg) (cfg_RateWindow cfg)))\<rparr>), [])
      else (Inl ErrRedisRequired, map Disposed (dep_close d)))"

definition setup_analytics :: "app_env \<Rightarrow> config \<Rightarrow> dependencies \<Rightarrow> (app_error + dependencies) \<times> app_event list" where
  "setup_analytics env cfg d =
     (if cfg_ClickHouseAddr cfg \<noteq> [] then
        (case NewClickHouse env (cfg_ClickHouseAddr cfg) (cfg_ClickHouseDatabase cfg) of
           (False, ev) \<Rightarrow> (Inl ErrClickHouse, ev @ map Disposed (dep_close d))
         | (True, ev) \<Rightarrow>
             (Inr (d\<lparr>dep_analytics := True, dep_checks := dep_checks d @ [ClickHouseConn],
                     dep_close := ClickHouseConn # dep_close d\<rparr>), ev))
      else (Inr d, []))"

text \<open>The stages of \<open>setup\<close>, each of which may return early.\<close>

definition and_then ::
  "(app_error + 'd) \<times> app_event list \<Rightarrow> ('d \<Rightarrow> (app_error + 'd) \<times> app_event list) \<Rightarrow> (app_error + 'd) \<times> app_event list" where
  "and_then r f = (case r of (Inl err, ev) \<Rightarrow> (Inl err, ev) | (Inr d, ev) \<Rightarrow> (case f d of (r', ev') \<Rightarrow> (r', ev @ ev')))"

definition app_setup :: "(rat \<Rightarrow> rat) \<Rightarrow> app_env \<Rightarrow> config \<Rightarrow> (app_error + dependencies) \<times> app_event list" where
  "app_setup rnd env cfg =
     and_then (and_then (and_then (setup_store env cfg no_dependencies) (setup_publisher cfg)) (setup_limiter rnd env cfg))
       (setup_analytics env cfg)"

text \<open>\<open>d.ready\<close>: the first dependency whose check fails.\<close>

definition ready :: "dependencies \<Rightarrow> (resource \<Rightarrow> bool) \<Rightarrow> resource option" where
  "ready d alive = find (\<lambda>r. \<not> alive r) (dep_checks d)"

definition durability :: "config \<Rightarrow> bytes" where
  "durability cfg = (if 0 < length (cfg_KafkaBrokers cfg) then ''kafka-ack'' else ''local-memory-test-only'')"

text \<open>
  \<open>RunHTTP\<close>: the handler's configuration and whether it has webhooks, then the server until
  it stops (\<open>served\<close> says whether it stopped without an error), then the deferred close.
\<close>

record http_service =
  hs_config :: api_config
  hs_dependencies :: dependencies
  hs_webhooks :: bool

definition http_handler :: "config \<Rightarrow> dependencies \<Rightarrow> http_service" where
  "http_handler cfg d =
     \<lparr>hs_config = NewHandler (cfg_MaxPayloadBytes cfg) (cfg_MaxBatchBytes cfg) (cfg_MaxBatchEvents cfg) (durability cfg)
         (cfg_AdminToken cfg),
      hs_dependencies = d,
      hs_webhooks = (dep_postgres d \<or> cfg_LocalFallback cfg)\<rparr>"

definition RunHTTP ::
  "(rat \<Rightarrow> rat) \<Rightarrow> app_env \<Rightarrow> (http_service \<Rightarrow> bool) \<Rightarrow> bytes \<Rightarrow> app_error option \<times> http_service option \<times> app_event list" where
  "RunHTTP rnd env served service =
     (let cfg = Load rnd (ap_getenv env) service in
      case app_setup rnd env cfg of
        (Inl err, ev) \<Rightarrow> (Some err, None, ev)
      | (Inr d, ev) \<Rightarrow>
          let h = http_handler cfg d in
          (if served h then None else Some ErrServe, Some h, ev @ map Disposed (dep_close d)))"

section \<open>Workers\<close>

definition NewConsumer :: "bytes \<Rightarrow> consumer" where
  "NewConsumer groupID = \<lparr>co_batchHandler = False, co_batchSize = 0, co_batchTimeout = 0, co_dlq = False,
     co_metrics = False, co_group = groupID, co_worker = []\<rparr>"

definition NewConsumerWithDLQ :: "bytes \<Rightarrow> consumer" where
  "NewConsumerWithDLQ groupID = (NewConsumer groupID)\<lparr>co_dlq := True\<rparr>"

definition SetMetrics :: "bytes \<Rightarrow> consumer \<Rightarrow> consumer" where
  "SetMetrics worker c = c\<lparr>co_metrics := True, co_worker := worker\<rparr>"

definition consumer_Close :: "consumer \<Rightarrow> resource list" where
  "consumer_Close c = (if co_dlq c then [DeadLetterWriter] else []) @ [KafkaReader]"

datatype worker_kind = PersistenceWorker | AnalyticsWorker | WebhookWorker dispatcher

text \<open>The \<open>switch\<close> of \<open>RunWorker\<close>: the handler, and what was opened for it.\<close>

definition worker_handler :: "app_env \<Rightarrow> config \<Rightarrow> bytes \<Rightarrow> (app_error + worker_kind) \<times> app_event list" where
  "worker_handler env cfg service =
     (if service = ''persistence-worker'' then
        if cfg_PostgresDSN cfg = [] then (Inl ErrPostgresRequired, [])
        else (case NewPostgres env (cfg_PostgresDSN cfg) of
                (None, ev) \<Rightarrow> (Inl ErrPostgres, ev) | (Some _, ev) \<Rightarrow> (Inr PersistenceWorker, ev))
      else if service = ''analytics-worker'' then
        if cfg_ClickHouseAddr cfg = [] then (Inl ErrClickHouseRequired, [])
        else (case NewClickHouse env (cfg_ClickHouseAddr cfg) (cfg_ClickHouseDatabase cfg) of
                (False, ev) \<Rightarrow> (Inl ErrClickHouse, ev) | (True, ev) \<Rightarrow> (Inr AnalyticsWorker, ev))
      else if service = ''webhook-worker'' then
        if cfg_PostgresDSN cfg = [] then (Inl ErrPostgresRequired, [])
        else (case NewPostgres env (cfg_PostgresDSN cfg) of
                (None, ev) \<Rightarrow> (Inl ErrPostgres, ev)
              | (Some _, ev) \<Rightarrow> (Inr (WebhookWorker (NewDispatcher 20 5 (15 * Second))), ev))
      else (Inl (ErrUnknownWorker service), []))"

definition worker_resource :: "worker_kind \<Rightarrow> resource" where
  "worker_resource k = (case k of AnalyticsWorker \<Rightarrow> ClickHouseConn | _ \<Rightarrow> PostgresPool)"

definition worker_consumer :: "config \<Rightarrow> bytes \<Rightarrow> consumer" where
  "worker_consumer cfg service =
     (let c = SetMetrics service (NewConsumerWithDLQ (service @ ''s'')) in
      if 1 < cfg_ConsumerBatchSize cfg
      then SetBatchHandler (cfg_ConsumerBatchSize cfg) (cfg_ConsumerBatchTimeout cfg) c else c)"

text \<open>
  \<open>RunWorker\<close>: the handler and the consumer it runs. \<open>Consumer.Run\<close> returns nil when it
  returns; \<open>metricsFailed\<close> says whether the metrics server had failed by then. The deferred
  calls run in reverse order.
\<close>

definition RunWorker ::
  "(rat \<Rightarrow> rat) \<Rightarrow> app_env \<Rightarrow> bool \<Rightarrow> bytes \<Rightarrow> app_error option \<times> (worker_kind \<times> consumer) option \<times> app_event list" where
  "RunWorker rnd env metricsFailed service =
     (let cfg = Load rnd (ap_getenv env) service in
      if cfg_LocalFallback cfg then (Some ErrWorkerLocal, None, [])
      else if length (cfg_KafkaBrokers cfg) = 0 then (Some ErrBrokersRequired, None, [])
      else case worker_handler env cfg service of
        (Inl err, ev) \<Rightarrow> (Some err, None, ev)
      | (Inr k, ev) \<Rightarrow>
          let c = worker_consumer cfg service in
          (if metricsFailed then Some ErrMetricsServer else None, Some (k, c),
           ev @ [Acquired KafkaReader, Acquired DeadLetterWriter, Acquired MetricsServer]
              @ map Disposed (MetricsServer # consumer_Close c @ [worker_resource k])))"

text \<open>
  \<open>metricsRoutes\<close>, the mux of a worker's own server; its patterns name no method. The
  readiness route of a worker does not ask its dependencies.
\<close>

datatype worker_route = WorkerMetrics | WorkerLive | WorkerReady

definition metricsRoutes :: "bytes \<Rightarrow> nat \<times> worker_route option" where
  "metricsRoutes path =
     (if path = ''/metrics'' then (200, Some WorkerMetrics)
      else if path = ''/health/live'' then (200, Some WorkerLive)
      else if path = ''/health/ready'' then (200, Some WorkerReady)
      else (404, None))"

section \<open>Entry points\<close>

text \<open>The exit status of a \<open>main\<close>: \<open>log.Fatal\<close> ends the process with status 1.\<close>

definition exit_status :: "app_error option \<Rightarrow> nat" where
  "exit_status err = (case err of None \<Rightarrow> 0 | Some _ \<Rightarrow> 1)"

definition ingestion_main :: "(rat \<Rightarrow> rat) \<Rightarrow> app_env \<Rightarrow> (http_service \<Rightarrow> bool) \<Rightarrow> nat" where
  "ingestion_main rnd env served = exit_status (fst (RunHTTP rnd env served ''ingestion''))"

definition query_api_main :: "(rat \<Rightarrow> rat) \<Rightarrow> app_env \<Rightarrow> (http_service \<Rightarrow> bool) \<Rightarrow> nat" where
  "query_api_main rnd env served = exit_status (fst (RunHTTP rnd env served ''query-api''))"

definition persistence_worker_main :: "(rat \<Rightarrow> rat) \<Rightarrow> app_env \<Rightarrow> bool \<Rightarrow> nat" where
  "persistence_worker_main rnd env metricsFailed = exit_status (fst (RunWorker rnd env metricsFailed ''persistence-worker''))"

definition analytics_worker_main :: "(rat \<Rightarrow> rat) \<Rightarrow> app_env \<Rightarrow> bool \<Rightarrow> nat" where
  "analytics_worker_main rnd env metricsFailed = exit_status (fst (RunWorker rnd env metricsFailed ''analytics-worker''))"

definition webhook_worker_main :: "(rat \<Rightarrow> rat) \<Rightarrow> app_env \<Rightarrow> bool \<Rightarrow> nat" where
  "webhook_worker_main rnd env metricsFailed = exit_status (fst (RunWorker rnd env metricsFailed ''webhook-worker''))"

lemmas [app_defs] = NewPostgres_def NewClickHouse_def setup_store_def setup_publisher_def setup_limiter_def
  setup_analytics_def and_then_def app_setup_def no_dependencies_def

section \<open>Resources of the set-up\<close>

lemma held_append: "held (xs @ ys) rs = held ys (held xs rs)"
  by (induction xs rs rule: held.induct) auto

lemma held_disposed: "held (map Disposed rs) (rs @ ss) = ss"
  by (induction rs) auto

text \<open>
  A stage that gets on holds exactly what its dependencies close; one that fails has closed
  everything, but for the Redis client whose first ping failed.
\<close>

definition stage_ok :: "resource list \<Rightarrow> (app_error + dependencies) \<times> app_event list \<Rightarrow> bool" where
  "stage_ok rs st \<longleftrightarrow>
     (case st of
        (Inr d, ev) \<Rightarrow> held ev rs = dep_close d
      | (Inl err, ev) \<Rightarrow> held ev rs = (if err = ErrRedisPing then [RedisClient] else []))"

lemma setup_store_ok: "stage_ok [] (setup_store env cfg d)" if "dep_close d = []"
  using that by (auto simp: stage_ok_def setup_store_def NewPostgres_def Let_def)

lemma setup_publisher_ok: "stage_ok (dep_close d) (setup_publisher cfg d)"
  using held_disposed [of "dep_close d" "[]"] by (simp add: stage_ok_def setup_publisher_def)

lemma setup_limiter_ok: "RedisClient \<notin> set (dep_close d) \<Longrightarrow> stage_ok (dep_close d) (setup_limiter rnd env cfg d)"
proof -
  assume r: "RedisClient \<notin> set (dep_close d)"
  have "held (map Disposed rs) (RedisClient # rs) = [RedisClient]" if "RedisClient \<notin> set rs" for rs
    using that by (induction rs) auto
  then show ?thesis using r held_disposed [of "dep_close d" "[]"] by (simp add: stage_ok_def setup_limiter_def)
qed

lemma setup_analytics_ok: "stage_ok (dep_close d) (setup_analytics env cfg d)"
  using held_disposed [of "dep_close d" "[]"] by (auto simp: stage_ok_def setup_analytics_def NewClickHouse_def)

lemma and_then_ok:
  assumes "stage_ok rs r" "\<And>d ev. r = (Inr d, ev) \<Longrightarrow> stage_ok (dep_close d) (f d)"
  shows "stage_ok rs (and_then r f)"
proof (cases r)
  case (Pair x ev)
  show ?thesis
  proof (cases x)
    case (Inl err)
    then show ?thesis using assms(1) Pair by (simp add: and_then_def)
  next
    case (Inr d)
    then show ?thesis using assms(1) assms(2) [of d ev] Pair
      by (auto simp: and_then_def stage_ok_def held_append split: prod.splits sum.splits)
  qed
qed

lemma and_then_Inr: "and_then r f = (Inr d', ev') \<longleftrightarrow> (\<exists>d ev ev1. r = (Inr d, ev) \<and> f d = (Inr d', ev1) \<and> ev' = ev @ ev1)"
  by (auto simp: and_then_def split: prod.splits sum.splits)

lemma setup_stages_close:
  "setup_store env cfg no_dependencies = (Inr d, ev) \<Longrightarrow> set (dep_close d) \<subseteq> {PostgresPool}"
  "setup_publisher cfg d0 = (Inr d, ev) \<Longrightarrow> set (dep_close d) \<subseteq> insert KafkaWriter (set (dep_close d0))"
  by (auto simp: setup_store_def setup_publisher_def no_dependencies_def split: if_splits prod.splits option.splits)

lemma app_setup_ok: "stage_ok [] (app_setup rnd env cfg)"
  unfolding app_setup_def
proof (intro and_then_ok)
  show "stage_ok [] (setup_store env cfg no_dependencies)" by (rule setup_store_ok) (simp add: no_dependencies_def)
  fix d ev
  show "stage_ok (dep_close d) (setup_publisher cfg d)" by (rule setup_publisher_ok)
  show "stage_ok (dep_close d) (setup_analytics env cfg d)" by (rule setup_analytics_ok)
  assume "and_then (setup_store env cfg no_dependencies) (setup_publisher cfg) = (Inr d, ev)"
  then have "set (dep_close d) \<subseteq> {KafkaWriter, PostgresPool}"
    unfolding and_then_Inr using setup_stages_close by fastforce
  then show "stage_ok (dep_close d) (setup_limiter rnd env cfg d)" by (intro setup_limiter_ok) auto
qed

lemma worker_handler_held: "worker_handler env cfg service = (Inr k, ev) \<Longrightarrow> held ev [] = [worker_resource k]"
  "worker_handler env cfg service = (Inl err, ev) \<Longrightarrow> held ev [] = []"
  by (auto simp: worker_handler_def NewPostgres_def NewClickHouse_def worker_resource_def Let_def
      split: if_splits prod.splits option.splits bool.splits)

lemma worker_consumer_dlq: "co_dlq (worker_consumer cfg service)"
  by (simp add: worker_consumer_def SetBatchHandler_def SetMetrics_def NewConsumerWithDLQ_def Let_def)

text \<open>What a successful set-up without the local fallback has wired.\<close>

lemma app_setup_wired:
  assumes "app_setup rnd env cfg = (Inr d, ev)"
  shows "dep_publisher d = Some (KafkaPublisher (cfg_KafkaTopic cfg)) \<longleftrightarrow> durability cfg = ''kafka-ack''"
    and "set (dep_checks d) = set (dep_close d)"
    and "\<not> cfg_LocalFallback cfg \<Longrightarrow> dep_postgres d \<and> dep_store d = Some (tenant_store_kind (cfg_AuthCacheTTL cfg)) \<and>
      dep_limiter d = Some (RedisLimiter (NewRedis (cfg_RateLimit cfg) (cfg_RateWindow cfg))) \<and>
      durability cfg = ''kafka-ack'' \<and> {PostgresPool, KafkaWriter, RedisClient} \<subseteq> set (dep_close d)"
proof -
  obtain d1 e1 d2 e2 d3 e3 e4 where s: "setup_store env cfg no_dependencies = (Inr d1, e1)" "setup_publisher cfg d1 = (Inr d2, e2)"
      "setup_limiter rnd env cfg d2 = (Inr d3, e3)" "setup_analytics env cfg d3 = (Inr d, e4)"
    using assms unfolding app_setup_def and_then_Inr by blast
  note d1 = s(1) [unfolded setup_store_def no_dependencies_def] and d2 = s(2) [unfolded setup_publisher_def]
    and d3 = s(3) [unfolded setup_limiter_def] and d = s(4) [unfolded setup_analytics_def]
  have f1: "set (dep_checks d1) = set (dep_close d1)" "\<not> cfg_LocalFallback cfg \<Longrightarrow> dep_postgres d1 \<and>
      dep_store d1 = Some (tenant_store_kind (cfg_AuthCacheTTL cfg)) \<and> PostgresPool \<in> set (dep_close d1)"
    using d1 by (auto split: if_splits prod.splits option.splits)
  have f2: "dep_publisher d2 = Some (KafkaPublisher (cfg_KafkaTopic cfg)) \<longleftrightarrow> durability cfg = ''kafka-ack''"
    "set (dep_checks d2) = set (dep_close d2)" "dep_postgres d2 = dep_postgres d1" "dep_store d2 = dep_store d1"
    "set (dep_close d1) \<subseteq> set (dep_close d2)"
    "\<not> cfg_LocalFallback cfg \<Longrightarrow> durability cfg = ''kafka-ack'' \<and> KafkaWriter \<in> set (dep_close d2)"
    using d2 f1(1) by (auto simp: durability_def split: if_splits)
  have f3: "dep_publisher d3 = dep_publisher d2" "dep_postgres d3 = dep_postgres d2" "dep_store d3 = dep_store d2"
    "set (dep_checks d3) = set (dep_close d3)" "set (dep_close d2) \<subseteq> set (dep_close d3)"
    "\<not> cfg_LocalFallback cfg \<Longrightarrow> dep_limiter d3 = Some (RedisLimiter (NewRedis (cfg_RateLimit cfg) (cfg_RateWindow cfg))) \<and>
      RedisClient \<in> set (dep_close d3)"
    using d3 f2(2) by (auto split: if_splits)
  have f4: "dep_publisher d = dep_publisher d3" "dep_postgres d = dep_postgres d3" "dep_store d = dep_store d3"
    "dep_limiter d = dep_limiter d3" "set (dep_checks d) = set (dep_close d)" "set (dep_close d3) \<subseteq> set (dep_close d)"
    using d f3(4) by (auto split: if_splits prod.splits bool.splits)
  show "dep_publisher d = Some (KafkaPublisher (cfg_KafkaTopic cfg)) \<longleftrightarrow> durability cfg = ''kafka-ack''"
    using f4(1) f3(1) f2(1) by simp
  show "set (dep_checks d) = set (dep_close d)" by (rule f4(5))
  show "dep_postgres d \<and> dep_store d = Some (tenant_store_kind (cfg_AuthCacheTTL cfg)) \<and>
      dep_limiter d = Some (RedisLimiter (NewRedis (cfg_RateLimit cfg) (cfg_RateWindow cfg))) \<and>
      durability cfg = ''kafka-ack'' \<and> {PostgresPool, KafkaWriter, RedisClient} \<subseteq> set (dep_close d)" if "\<not> cfg_LocalFallback cfg"
    using that f1(2) f2(3-6) f3(2-6) f4(2-6) by auto
qed

section \<open>Properties\<close>

text \<open>
  C35: connections are given back. Whatever fails on the way, when \<open>RunHTTP\<close> returns it holds
  no connection, except that the Redis client stays open when its first ping fails; and when
  \<open>RunWorker\<close> returns it holds none at all.
\<close>

theorem services_release_resources:
  "held (snd (snd (RunHTTP rnd env served service))) [] =
     (if fst (RunHTTP rnd env served service) = Some ErrRedisPing then [RedisClient] else []) \<and>
   held (snd (snd (RunWorker rnd env metricsFailed service))) [] = []"
proof
  show "held (snd (snd (RunHTTP rnd env served service))) [] =
     (if fst (RunHTTP rnd env served service) = Some ErrRedisPing then [RedisClient] else [])"
    using app_setup_ok [of rnd env "Load rnd (ap_getenv env) service"]
    by (auto simp: RunHTTP_def stage_ok_def held_append Let_def held_disposed [of _ "[]", simplified] split: prod.splits sum.splits)
  show "held (snd (snd (RunWorker rnd env metricsFailed service))) [] = []"
    by (auto simp: RunWorker_def Let_def held_append consumer_Close_def worker_consumer_dlq worker_handler_held worker_resource_def
        split: prod.splits sum.splits)
qed

text \<open>
  C34: production is durable. A service that gets to serve without the local fallback has its
  tenants in PostgreSQL (cached if so configured), limits through Redis, publishes to Kafka
  and can take webhooks; every connection it holds is part of the readiness check; and in
  any case the durability it announces to clients is \<open>kafka-ack\<close> exactly if it publishes to
  Kafka.
\<close>

theorem production_wiring:
  assumes "RunHTTP rnd env served service = (err, Some h, ev)" and "cfg = Load rnd (ap_getenv env) service"
    and "d = hs_dependencies h"
  shows "(ac_durability (hs_config h) = ''kafka-ack'' \<longleftrightarrow> dep_publisher d = Some (KafkaPublisher (cfg_KafkaTopic cfg))) \<and>
    set (dep_checks d) = set (dep_close d) \<and>
    (\<not> cfg_LocalFallback cfg \<longrightarrow>
       dep_store d = Some (tenant_store_kind (cfg_AuthCacheTTL cfg)) \<and>
       dep_limiter d = Some (RedisLimiter (NewRedis (cfg_RateLimit cfg) (cfg_RateWindow cfg))) \<and>
       dep_publisher d = Some (KafkaPublisher (cfg_KafkaTopic cfg)) \<and> hs_webhooks h \<and>
       {PostgresPool, KafkaWriter, RedisClient} \<subseteq> set (dep_checks d))"
proof -
  obtain r ev' where r: "app_setup rnd env cfg = (r, ev')" by fastforce
  then obtain d0 where d0: "r = Inr d0"
    using assms(1,2) by (cases r) (simp_all add: RunHTTP_def Let_def)
  then have h: "h = http_handler cfg d0" using assms(1,2) r by (simp add: RunHTTP_def Let_def)
  then have "d0 = d" using assms(3) by (simp add: http_handler_def NewHandler_def)
  with r d0 h have s: "app_setup rnd env cfg = (Inr d, ev')" "h = http_handler cfg d" by simp_all
  have "hs_webhooks h \<longleftrightarrow> dep_postgres d \<or> cfg_LocalFallback cfg" "ac_durability (hs_config h) = durability cfg"
    by (simp_all add: s(2) http_handler_def NewHandler_def)
  then show ?thesis using app_setup_wired [OF s(1)] by auto
qed

text \<open>
  How a worker runs. A worker consumes only with brokers configured, without the local
  fallback and with its own store open; it always has a dead-letter topic, so that a message
  that cannot be processed does not stop its partition; its batch mode is on exactly if the
  configured batch size is above one; and the webhook worker's dispatcher has one pause for
  each of its five retries.
\<close>

theorem worker_wiring:
  assumes "RunWorker rnd env metricsFailed service = (err, Some (k, c), ev)" and "cfg = Load rnd (ap_getenv env) service"
  shows "\<not> cfg_LocalFallback cfg \<and> cfg_KafkaBrokers cfg \<noteq> [] \<and> Acquired (worker_resource k) \<in> set ev \<and>
    co_dlq c \<and> co_group c = service @ ''s'' \<and>
    (co_batchHandler c \<and> 1 < co_batchSize c \<longleftrightarrow> 1 < cfg_ConsumerBatchSize cfg) \<and>
    (\<forall>d. k = WebhookWorker d \<longrightarrow> service = ''webhook-worker'' \<and> dp_maxRetries d = 5 \<and> length (dp_backoff d) = 5)"
proof -
  obtain ev' where w: "worker_handler env cfg service = (Inr k, ev')" "\<not> cfg_LocalFallback cfg" "cfg_KafkaBrokers cfg \<noteq> []"
      "c = worker_consumer cfg service" "\<exists>es. ev = ev' @ es"
    using assms by (auto simp: RunWorker_def Let_def split: prod.splits sum.splits if_splits)
  have "Acquired (worker_resource k) \<in> set ev'"
    "\<forall>d. k = WebhookWorker d \<longrightarrow> service = ''webhook-worker'' \<and> dp_maxRetries d = 5 \<and> length (dp_backoff d) = 5"
    using w(1) by (auto simp: worker_handler_def NewPostgres_def NewClickHouse_def worker_resource_def NewDispatcher_def Let_def
        split: if_splits prod.splits option.splits bool.splits)
  moreover have "co_group c = service @ ''s''" "co_batchHandler c \<and> 1 < co_batchSize c \<longleftrightarrow> 1 < cfg_ConsumerBatchSize cfg"
    by (auto simp: w(4) worker_consumer_def SetBatchHandler_def SetMetrics_def NewConsumerWithDLQ_def NewConsumer_def Let_def)
  ultimately show ?thesis using w worker_consumer_dlq by auto
qed

definition postgres_up :: "app_env \<Rightarrow> config \<Rightarrow> bool" where
  "postgres_up env cfg \<longleftrightarrow> cfg_PostgresDSN cfg \<noteq> [] \<and> ap_parseDSN env (cfg_PostgresDSN cfg) \<and> ap_newPool env \<and> ap_pingPostgres env"

definition clickhouse_up :: "app_env \<Rightarrow> config \<Rightarrow> bool" where
  "clickhouse_up env cfg \<longleftrightarrow> cfg_ClickHouseAddr cfg \<noteq> [] \<and>
     ap_openClickHouse env (cfg_ClickHouseAddr cfg) (cfg_ClickHouseDatabase cfg) \<and> ap_pingClickHouse env"

lemma RunWorker_ok:
  "exit_status (fst (RunWorker rnd env failed service)) = 0 \<longleftrightarrow>
     \<not> cfg_LocalFallback (Load rnd (ap_getenv env) service) \<and> cfg_KafkaBrokers (Load rnd (ap_getenv env) service) \<noteq> [] \<and>
     (\<exists>k ev. worker_handler env (Load rnd (ap_getenv env) service) service = (Inr k, ev)) \<and> \<not> failed"
  by (auto simp: exit_status_def RunWorker_def Let_def split: option.splits prod.splits sum.splits)

lemma NewPostgres_up: "cfg_PostgresDSN cfg \<noteq> [] \<and> (\<exists>n ev. NewPostgres env (cfg_PostgresDSN cfg) = (Some n, ev)) \<longleftrightarrow> postgres_up env cfg"
  by (auto simp: NewPostgres_def postgres_up_def Let_def)

lemma worker_handler_ok:
  "(\<exists>k ev. worker_handler env cfg ''persistence-worker'' = (Inr k, ev)) \<longleftrightarrow> postgres_up env cfg"
  "(\<exists>k ev. worker_handler env cfg ''webhook-worker'' = (Inr k, ev)) \<longleftrightarrow> postgres_up env cfg"
  "(\<exists>k ev. worker_handler env cfg ''analytics-worker'' = (Inr k, ev)) \<longleftrightarrow> clickhouse_up env cfg"
  unfolding NewPostgres_up [symmetric]
  by (auto simp: worker_handler_def NewClickHouse_def clickhouse_up_def split: option.splits prod.splits)

text \<open>Nothing but the telemetry depends on the name of an HTTP service.\<close>

lemma Load_Service: "Load rnd getenv s = (Load rnd getenv t)\<lparr>cfg_Service := s\<rparr>"
  by (simp add: Load_def)

lemma app_setup_Service: "app_setup rnd env (cfg\<lparr>cfg_Service := s\<rparr>) = app_setup rnd env cfg"
proof -
  have "setup_publisher (cfg\<lparr>cfg_Service := s\<rparr>) = setup_publisher cfg"
    "setup_limiter rnd env (cfg\<lparr>cfg_Service := s\<rparr>) = setup_limiter rnd env cfg"
    "setup_analytics env (cfg\<lparr>cfg_Service := s\<rparr>) = setup_analytics env cfg"
    by (simp_all add: fun_eq_iff setup_publisher_def setup_limiter_def setup_analytics_def)
  moreover have "setup_store env (cfg\<lparr>cfg_Service := s\<rparr>) d = setup_store env cfg d" for d
    by (simp add: setup_store_def split: option.split prod.split)
  ultimately show ?thesis by (simp add: app_setup_def)
qed

lemma RunHTTP_Service: "RunHTTP rnd env served s = RunHTTP rnd env served t"
proof -
  have "http_handler (cfg\<lparr>cfg_Service := s\<rparr>) = http_handler cfg" for cfg
    by (simp add: fun_eq_iff http_handler_def NewHandler_def durability_def)
  then show ?thesis unfolding RunHTTP_def Load_Service [of rnd _ s t] by (simp add: app_setup_Service Let_def split: prod.split sum.split)
qed

text \<open>
  When the processes exit. Every entry point asks for a service the program knows: a
  worker's exit status is zero exactly if it was configured with brokers and its store,
  without the local fallback, the store could be reached, and the metrics server had not
  failed; the two HTTP services exit alike.
\<close>

theorem mains_exit_status:
  "(persistence_worker_main rnd env failed = 0 \<longleftrightarrow>
      (let cfg = Load rnd (ap_getenv env) ''persistence-worker'' in
       \<not> cfg_LocalFallback cfg \<and> cfg_KafkaBrokers cfg \<noteq> [] \<and> postgres_up env cfg \<and> \<not> failed)) \<and>
   (analytics_worker_main rnd env failed = 0 \<longleftrightarrow>
      (let cfg = Load rnd (ap_getenv env) ''analytics-worker'' in
       \<not> cfg_LocalFallback cfg \<and> cfg_KafkaBrokers cfg \<noteq> [] \<and> clickhouse_up env cfg \<and> \<not> failed)) \<and>
   (webhook_worker_main rnd env failed = 0 \<longleftrightarrow>
      (let cfg = Load rnd (ap_getenv env) ''webhook-worker'' in
       \<not> cfg_LocalFallback cfg \<and> cfg_KafkaBrokers cfg \<noteq> [] \<and> postgres_up env cfg \<and> \<not> failed)) \<and>
   ingestion_main rnd env served = query_api_main rnd env served"
proof (intro conjI)
  show "ingestion_main rnd env served = query_api_main rnd env served"
    by (simp add: ingestion_main_def query_api_main_def RunHTTP_Service [of _ _ _ "''ingestion''" "''query-api''"])
qed (simp_all add: persistence_worker_main_def analytics_worker_main_def webhook_worker_main_def RunWorker_ok worker_handler_ok Let_def)

definition sample_app :: app_env where
  "sample_app = \<lparr>ap_getenv = (\<lambda>k. if k = ''PULSE_LOCAL_FALLBACK'' then [] else ''9''),
     ap_parseDSN = (\<lambda>_. True), ap_newPool = True, ap_pingPostgres = True, ap_parseRedis = (\<lambda>_. True), ap_pingRedis = True,
     ap_openClickHouse = (\<lambda>_ _. True), ap_pingClickHouse = True\<rparr>"

lemma sample_load:
  "cfg_LocalFallback (Load id (ap_getenv sample_app) s) = False" "cfg_PostgresDSN (Load id (ap_getenv sample_app) s) = ''9''"
  "cfg_KafkaBrokers (Load id (ap_getenv sample_app) s) = [''9'']" "cfg_RedisURL (Load id (ap_getenv sample_app) s) = ''9''"
  "cfg_ClickHouseAddr (Load id (ap_getenv sample_app) s) = ''9''" "cfg_ConsumerBatchSize (Load id (ap_getenv sample_app) s) = 9"
proof -
  have "split_list ''9'' = [''9'']" "parse_int 64 ''9'' = Some 9" by code_simp+
  then show "cfg_LocalFallback (Load id (ap_getenv sample_app) s) = False" "cfg_PostgresDSN (Load id (ap_getenv sample_app) s) = ''9''"
    "cfg_KafkaBrokers (Load id (ap_getenv sample_app) s) = [''9'']" "cfg_RedisURL (Load id (ap_getenv sample_app) s) = ''9''"
    "cfg_ClickHouseAddr (Load id (ap_getenv sample_app) s) = ''9''" "cfg_ConsumerBatchSize (Load id (ap_getenv sample_app) s) = 9"
    by (simp_all add: Load_def sample_app_def intEnv_def)
qed

lemma sample_app_simps:
  "ap_parseDSN sample_app x" "ap_newPool sample_app" "ap_pingPostgres sample_app" "ap_parseRedis sample_app x"
  "ap_pingRedis sample_app" "ap_openClickHouse sample_app x y" "ap_pingClickHouse sample_app"
  by (simp_all add: sample_app_def)

theorem production_wiring_witness:
  "\<exists>h ev. RunHTTP id sample_app (\<lambda>_. True) ''ingestion'' = (None, Some h, ev) \<and>
     ac_durability (hs_config h) = ''kafka-ack'' \<and> hs_webhooks h"
proof -
  obtain h ev where r: "RunHTTP id sample_app (\<lambda>_. True) ''ingestion'' = (None, Some h, ev)"
    by (simp add: RunHTTP_def app_setup_def and_then_def setup_store_def setup_publisher_def setup_limiter_def setup_analytics_def
        sample_load sample_app_simps NewPostgres_def NewClickHouse_def Let_def)
  show ?thesis using production_wiring [OF r refl refl] sample_load(1) r by auto
qed

theorem worker_wiring_witness:
  "\<exists>d c ev. RunWorker id sample_app False ''webhook-worker'' = (None, Some (WebhookWorker d, c), ev) \<and>
     co_dlq c \<and> co_batchHandler c \<and> dp_maxRetries d = 5"
proof -
  obtain d c ev where r: "RunWorker id sample_app False ''webhook-worker'' = (None, Some (WebhookWorker d, c), ev)"
    by (simp add: RunWorker_def worker_handler_def sample_load sample_app_simps NewPostgres_def Let_def)
  show ?thesis using worker_wiring [OF r refl] sample_load(6) [of "''webhook-worker''"] r by auto
qed

end
