(* ===== verification/Consumer_Shutdown.thy ===== *)
theory Consumer_Shutdown
  imports Kafka_Consumer
begin

text \<open>
  How a consumer ends (\<open>internal/kafka/producer.go\<close>, the loops under \<open>Run\<close>). The loops have
  no bound of their own: they go on until the context is cancelled. The lemmas relate the
  number of their rounds to the number of messages that the client still hands out and of
  timers that still fire, which is what a cancelled context bounds, and show that more fuel
  than that never changes a run.
\<close>

section \<open>What cancelling the context bounds\<close>

text \<open>
  \<open>rank\<close> bounds the fetches that still succeed and the timers that still fire: each one
  uses some of it up, and nothing else that the consumer calls gives any back.
\<close>

definition cancelled_by :: "('w \<Rightarrow> nat) \<Rightarrow> 'w consumer_env \<Rightarrow> bool" where
  "cancelled_by rank env \<longleftrightarrow>
     (\<forall>t w m w'. ce_fetch env t w = (Some m, w') \<longrightarrow> rank w' < rank w) \<and>
     (\<forall>t w w'. ce_fetch env t w = (None, w') \<longrightarrow> rank w' \<le> rank w) \<and>
     (\<forall>d w w'. ce_wait env d w = (True, w') \<longrightarrow> rank w' < rank w) \<and>
     (\<forall>d w w'. ce_wait env d w = (False, w') \<longrightarrow> rank w' \<le> rank w) \<and>
     (\<forall>ms w. rank (snd (ce_commit env ms w)) \<le> rank w) \<and>
     (\<forall>ms w. rank (snd (ce_write env ms w)) \<le> rank w) \<and>
     (\<forall>e w. rank (snd (ce_handler env e w)) \<le> rank w) \<and>
     (\<forall>es w. rank (snd (ce_batchHandler env es w)) \<le> rank w)"

text \<open>The steps of a run, by what they use up.\<close>

lemma fetch_rank:
  assumes "cancelled_by rank env"
  shows "fetch env t s = (Some m, s') \<Longrightarrow> rank (world s') < rank (world s)"
    "fetch env t s = (r, s') \<Longrightarrow> rank (world s') \<le> rank (world s)"
  using assms by (auto simp: fetch_def cancelled_by_def less_imp_le split: prod.splits option.splits)

lemma wait_for_rank:
  assumes "cancelled_by rank env"
  shows "wait_for env d s = (True, s') \<Longrightarrow> rank (world s') < rank (world s)"
    "wait_for env d s = (f, s') \<Longrightarrow> rank (world s') \<le> rank (world s)"
  using assms by (auto simp: wait_for_def cancelled_by_def split: prod.splits) (metis less_imp_le)

lemma commit_rank: "cancelled_by rank env \<Longrightarrow> commit env ms s = (r, s') \<Longrightarrow> rank (world s') \<le> rank (world s)"
  by (auto simp: commit_def cancelled_by_def split: prod.splits) (metis snd_conv)

lemma dlq_write_rank: "cancelled_by rank env \<Longrightarrow> dlq_write env ms s = (r, s') \<Longrightarrow> rank (world s') \<le> rank (world s)"
  by (auto simp: dlq_write_def cancelled_by_def split: prod.splits) (metis snd_conv)

lemma handle_rank: "cancelled_by rank env \<Longrightarrow> handle env e s = (r, s') \<Longrightarrow> rank (world s') \<le> rank (world s)"
  by (auto simp: handle_def cancelled_by_def split: prod.splits) (metis snd_conv)

lemma handle_batch_rank: "cancelled_by rank env \<Longrightarrow> handle_batch env es s = (r, s') \<Longrightarrow> rank (world s') \<le> rank (world s)"
  by (auto simp: handle_batch_def cancelled_by_def split: prod.splits) (metis snd_conv)

lemma recordProcessing_world [simp]: "world (recordProcessing c p e s) = world s"
  by (simp add: recordProcessing_def Let_def)

lemma record_all_world [simp]: "world (record_all c es s) = world s"
  by (induction es arbitrary: s) auto

lemma writeDeadLetter_rank:
  "cancelled_by rank env \<Longrightarrow> writeDeadLetter env c m cause s = (r, s') \<Longrightarrow> rank (world s') \<le> rank (world s)"
  by (auto simp: writeDeadLetter_def dest: dlq_write_rank split: if_splits prod.splits bool.splits)

lemma deadLetter_rank:
  "cancelled_by rank env \<Longrightarrow> deadLetter env c m cause s = (r, s') \<Longrightarrow> rank (world s') \<le> rank (world s)"
  by (auto simp: deadLetter_def split: option.splits prod.splits bool.splits
      dest!: writeDeadLetter_rank [rotated] commit_rank [rotated] intro: le_trans)

lemma deadLetterBatch_rank:
  "cancelled_by rank env \<Longrightarrow> deadLetterBatch env ms evs cause s = (r, s') \<Longrightarrow> rank (world s') \<le> rank (world s)"
  by (auto simp: deadLetterBatch_def Let_def dest: dlq_write_rank split: if_splits prod.splits bool.splits)

lemma processMessage_rank:
  assumes "cancelled_by rank env" "processMessage env c m s = (r, s')"
  shows "rank (world s') \<le> rank (world s)"
proof -
  note steps = deadLetter_rank [OF assms(1)] handle_rank [OF assms(1)] dlq_write_rank [OF assms(1)] commit_rank [OF assms(1)]
  show ?thesis
    using assms(2)
    by (auto simp: processMessage_def split: option.splits prod.splits bool.splits if_splits dest!: steps)
qed

lemma decodeBatch_rank:
  "cancelled_by rank env \<Longrightarrow> decodeBatch env c ms s = (r, s') \<Longrightarrow> rank (world s') \<le> rank (world s)"
proof (induction ms arbitrary: s r s')
  case (Cons m ms)
  then show ?case
    by (auto split: option.splits prod.splits dest!: writeDeadLetter_rank [OF Cons.prems(1)] intro: le_trans)
qed simp

lemma fetch_more_rank:
  "cancelled_by rank env \<Longrightarrow> fetch_more env room t ms s = (r, s') \<Longrightarrow> rank (world s') \<le> rank (world s)"
proof (induction room arbitrary: ms s)
  case (Suc room)
  then show ?case
    by (auto simp: Let_def split: if_splits option.splits prod.splits dest: fetch_rank intro: le_trans)
qed simp

lemma fetchBatch_rank:
  assumes "cancelled_by rank env"
  shows "fetchBatch env c s = (Some ms, s') \<Longrightarrow> rank (world s') < rank (world s)"
    "fetchBatch env c s = (r, s') \<Longrightarrow> rank (world s') \<le> rank (world s)"
proof -
  have "(case f of Some _ \<Rightarrow> rank (world t) < rank (world s) | None \<Rightarrow> rank (world t) \<le> rank (world s))"
    if "fetchBatch env c s = (f, t)" for f t
    using that fetch_rank [OF assms, of None s] fetch_more_rank [OF assms]
    by (fastforce simp: fetchBatch_def split: option.splits prod.splits)
  then show "fetchBatch env c s = (Some ms, s') \<Longrightarrow> rank (world s') < rank (world s)"
    "fetchBatch env c s = (r, s') \<Longrightarrow> rank (world s') \<le> rank (world s)"
    by (fastforce split: option.splits)+
qed

section \<open>The inner loops end\<close>

text \<open>
  A loop that pauses between its attempts ends when the timers do: with fuel above the
  rank it never runs out, and it uses up at most what its pauses do.
\<close>

definition ends_within :: "('w \<Rightarrow> nat) \<Rightarrow> nat \<Rightarrow> 'w run \<Rightarrow> 'a loop \<times> 'w run \<Rightarrow> bool" where
  "ends_within rank n s p \<longleftrightarrow> rank (world (snd p)) \<le> rank (world s) \<and> (rank (world s) < n \<longrightarrow> fst p \<noteq> Running)"

text \<open>The common step: a pause after which the loop gives up or tries again.\<close>

lemma ends_pause:
  assumes "cancelled_by rank env" "wait_for env b t = (f, t')" "rank (world t) \<le> rank (world s)"
    and "\<And>u. rank (world u) < rank (world s) \<Longrightarrow> ends_within rank n u (again u)"
  shows "ends_within rank (Suc n) s (case f of False \<Rightarrow> (Stopped, t') | True \<Rightarrow> again t')"
proof (cases f)
  case True
  then have "rank (world t') < rank (world s)"
    using wait_for_rank(1) [OF assms(1)] assms(2,3) by fastforce
  then show ?thesis using assms(4) [of t'] True by (auto simp: ends_within_def)
next
  case False
  then show ?thesis using wait_for_rank(2) [OF assms(1,2)] assms(3) by (simp add: ends_within_def)
qed

lemma decode_loop_ends: "cancelled_by rank env \<Longrightarrow> ends_within rank n s (decode_loop env c n ms b s)"
proof (induction n arbitrary: b s)
  case 0
  then show ?case by (simp add: ends_within_def)
next
  case (Suc n)
  obtain d s1 where d: "decodeBatch env c ms s = (d, s1)" by (cases "decodeBatch env c ms s")
  obtain f s2 where f: "wait_for env b s1 = (f, s2)" by (cases "wait_for env b s1")
  note s1 = decodeBatch_rank [OF Suc.prems d]
  from ends_pause [OF Suc.prems f s1 Suc.IH [OF Suc.prems, where b = "next_backoff b"]] show ?case
    using d f s1 by (auto simp: ends_within_def split: option.splits)
qed

lemma commitMessages_ends: "cancelled_by rank env \<Longrightarrow> ends_within rank n s (commitMessages env n ms b s)"
proof (induction n arbitrary: s)
  case 0
  then show ?case by (simp add: ends_within_def)
next
  case (Suc n)
  obtain k s1 where k: "commit env ms s = (k, s1)" by (cases "commit env ms s")
  obtain f s2 where f: "wait_for env b s1 = (f, s2)" by (cases "wait_for env b s1")
  note s1 = commit_rank [OF Suc.prems k]
  from ends_pause [OF Suc.prems f s1 Suc.IH [OF Suc.prems]] show ?case
    using k f s1 by (auto simp: ends_within_def split: bool.splits)
qed

lemma handle_loop_ends: "cancelled_by rank env \<Longrightarrow> ends_within rank n s (handle_loop env c n ms es b s)"
proof (induction n arbitrary: b s)
  case 0
  then show ?case by (simp add: ends_within_def)
next
  case (Suc n)
  obtain h s1 where h: "handle_batch env es s = (h, s1)" by (cases "handle_batch env es s")
  note s1 = handle_batch_rank [OF Suc.prems h]
  have pause: "ends_within rank (Suc n) s
      (case wait_for env b t of (False, u) \<Rightarrow> (Stopped, u) | (True, u) \<Rightarrow> handle_loop env c n ms es (next_backoff b) u)"
    if "rank (world t) \<le> rank (world s)" for t
    using ends_pause [OF Suc.prems _ that Suc.IH [OF Suc.prems, where b = "next_backoff b"]] by (cases "wait_for env b t") fastforce
  have dead: "rank (world u) \<le> rank (world s)" if "deadLetterBatch env ms evs cause s1 = (q, u)" for evs cause q u
    using deadLetterBatch_rank [OF Suc.prems that] s1 by simp
  show ?case
    using h s1 pause dead
    by (fastforce simp: ends_within_def split: option.splits prod.splits)
qed

section \<open>The loops of the consumer end\<close>

lemma runSingle_stops:
  "cancelled_by rank env \<Longrightarrow> rank (world s) < n \<Longrightarrow> fst (runSingle env c n b s) = Stopped"
proof (induction n arbitrary: b s)
  case (Suc n)
  note env = Suc.prems(1)
  have again: "fst (runSingle env c n b' t) = Stopped" if "rank (world t) < rank (world s)" for b' t
    using Suc.IH [OF env] Suc.prems(2) that by simp
  have pause: "fst (case wait_for env b t of (False, u) \<Rightarrow> (Stopped, u) | (True, u) \<Rightarrow> runSingle env c n (next_backoff b) u) = Stopped"
    if "rank (world t) \<le> rank (world s)" for t
    using again wait_for_rank(1) [OF env] that by (fastforce split: prod.splits bool.splits)
  obtain f s1 where f: "fetch env None s = (f, s1)" by (cases "fetch env None s")
  show ?case
  proof (cases f)
    case None
    then show ?thesis using f pause [of s1] fetch_rank(2) [OF env f] by simp
  next
    case (Some msg)
    obtain p e s2 where p: "processMessage env c msg s1 = ((p, e), s2)" by (metis prod.exhaust)
    have lt: "rank (world (recordProcessing c p e s2)) < rank (world s)"
      using processMessage_rank [OF env p] fetch_rank(1) [OF env] f Some by fastforce
    show ?thesis
    proof (cases e)
      case None
      then show ?thesis using f Some p again [OF lt] by simp
    next
      case err: (Some _)
      then show ?thesis using f Some p pause [of "recordProcessing c p e s2"] lt by (simp add: Let_def)
    qed
  qed
qed simp

lemma runBatch_stops:
  "cancelled_by rank env \<Longrightarrow> rank (world s) < n \<Longrightarrow> fst (runBatch env c n b s) = Stopped"
proof (induction n arbitrary: b s)
  case (Suc n)
  note env = Suc.prems(1)
  obtain f s1 where f: "fetchBatch env c s = (f, s1)" by (cases "fetchBatch env c s")
  show ?case
  proof (cases f)
    case None
    obtain q s2 where q: "wait_for env b s1 = (q, s2)" by (cases "wait_for env b s1")
    show ?thesis
      using f None q fetchBatch_rank(2) [OF env f] wait_for_rank(1) [OF env] Suc.prems(2) Suc.IH [OF env]
      by (cases q) fastforce+
  next
    case (Some ms)
    then have n: "rank (world s1) < n" using fetchBatch_rank(1) [OF env] f Suc.prems(2) by fastforce
    have again: "fst (runBatch env c n b' t) = Stopped" if "rank (world t) \<le> rank (world s1)" for b' t
      using Suc.IH [OF env] n that by simp
    obtain d s2 where d: "decode_loop env c n ms b s1 = (d, s2)" by (cases "decode_loop env c n ms b s1")
    have s2: "rank (world s2) \<le> rank (world s1)" "d \<noteq> Running"
      using decode_loop_ends [OF env, of n s1 c ms b] d n by (simp_all add: ends_within_def)
    have fin: "fst (case commitMessages env n ps b' t of (Running, u) \<Rightarrow> (Running, u) | (Stopped, u) \<Rightarrow> (Stopped, u)
          | (Finished _, u) \<Rightarrow> runBatch env c n Second (g u)) = Stopped"
      if "rank (world t) \<le> rank (world s1)" "\<And>u. world (g u) = world u" for ps b' t g
      using commitMessages_ends [OF env, of n t ps b'] n that again
      by (auto simp: ends_within_def split: prod.splits loop.splits)
    show ?thesis
    proof (cases d)
      case (Finished t)
      obtain ps es b1 where t: "t = (ps, es, b1)" by (cases t)
      show ?thesis
      proof (cases "es = []")
        case True
        then show ?thesis using f Some d Finished t fin [OF s2(1), of "\<lambda>u. u"] by simp
      next
        case False
        obtain h s3 where h: "handle_loop env c n ms es b1 s2 = (h, s3)" by (cases "handle_loop env c n ms es b1 s2")
        have s3: "rank (world s3) \<le> rank (world s1)" "h \<noteq> Running"
          using handle_loop_ends [OF env, of n s2 c ms es b1] h n s2(1) by (simp_all add: ends_within_def)
        show ?thesis
          using f Some d Finished t False h s3(2) fin [OF s3(1), of "record_all c es"] by (cases h) simp_all
      qed
    qed (use f Some d s2(2) in simp_all)
  qed
qed simp

section \<open>More fuel changes nothing\<close>

text \<open>A loop that ended with some fuel ends the same way with more.\<close>

lemma decode_loop_more:
  "fst (decode_loop env c n ms b s) \<noteq> Running \<Longrightarrow> n \<le> k \<Longrightarrow> decode_loop env c k ms b s = decode_loop env c n ms b s"
proof (induction n arbitrary: b s k)
  case (Suc n)
  then obtain j where j: "k = Suc j" "n \<le> j" by (cases k) auto
  show ?case
    using Suc.prems(1) Suc.IH [OF _ j(2)] unfolding j(1)
    by (auto split: option.splits prod.splits bool.splits)
qed simp

lemma commitMessages_more:
  "fst (commitMessages env n ms b s) \<noteq> Running \<Longrightarrow> n \<le> k \<Longrightarrow> commitMessages env k ms b s = commitMessages env n ms b s"
proof (induction n arbitrary: s k)
  case (Suc n)
  then obtain j where j: "k = Suc j" "n \<le> j" by (cases k) auto
  show ?case
    using Suc.prems(1) Suc.IH [OF _ j(2)] unfolding j(1)
    by (auto split: prod.splits bool.splits)
qed simp

lemma handle_loop_more:
  "fst (handle_loop env c n ms es b s) \<noteq> Running \<Longrightarrow> n \<le> k \<Longrightarrow> handle_loop env c k ms es b s = handle_loop env c n ms es b s"
proof (induction n arbitrary: b s k)
  case (Suc n)
  then obtain j where j: "k = Suc j" "n \<le> j" by (cases k) auto
  show ?case
    using Suc.prems(1) Suc.IH [OF _ j(2)] unfolding j(1)
    by (auto split: option.splits prod.splits bool.splits if_splits)
qed simp

lemma runSingle_more:
  "fst (runSingle env c n b s) \<noteq> Running \<Longrightarrow> n \<le> k \<Longrightarrow> runSingle env c k b s = runSingle env c n b s"
proof (induction n arbitrary: b s k)
  case (Suc n)
  then obtain j where j: "k = Suc j" "n \<le> j" by (cases k) auto
  show ?case
    using Suc.prems(1) Suc.IH [OF _ j(2)] unfolding j(1)
    by (auto simp: Let_def split: option.splits prod.splits bool.splits if_splits)
qed simp

text \<open>The commit that ends a round, and what follows it.\<close>

lemma commit_then_more:
  assumes "fst (case commitMessages env n ps b s of (Running, v) \<Rightarrow> (Running, v) | (Stopped, v) \<Rightarrow> (Stopped, v)
        | (Finished _, v) \<Rightarrow> R v) \<noteq> Running" (is "fst ?run \<noteq> _")
    and "n \<le> k" "\<And>v. fst (R v) \<noteq> Running \<Longrightarrow> R' v = R v"
  shows "(case commitMessages env k ps b s of (Running, v) \<Rightarrow> (Running, v) | (Stopped, v) \<Rightarrow> (Stopped, v)
        | (Finished _, v) \<Rightarrow> R' v) = ?run"
proof -
  obtain r v where r: "commitMessages env n ps b s = (r, v)" by (cases "commitMessages env n ps b s")
  then have "r \<noteq> Running" using assms(1) by auto
  then have "commitMessages env k ps b s = (r, v)"
    using commitMessages_more [OF _ assms(2), of env ps b s] r by simp
  then show ?thesis using assms(1,3) r by (auto split: loop.splits)
qed

lemma runBatch_more:
  "fst (runBatch env c n b s) \<noteq> Running \<Longrightarrow> n \<le> k \<Longrightarrow> runBatch env c k b s = runBatch env c n b s"
proof (induction n arbitrary: b s k)
  case (Suc n)
  then obtain j where j: "k = Suc j" "n \<le> j" by (cases k) auto
  note more = Suc.IH [OF _ j(2)]
  obtain f s1 where f: "fetchBatch env c s = (f, s1)" by (cases "fetchBatch env c s")
  show ?case
  proof (cases f)
    case None
    then show ?thesis using Suc.prems(1) f more unfolding j(1) by (auto split: prod.splits bool.splits)
  next
    case (Some ms)
    obtain d s2 where d: "decode_loop env c n ms b s1 = (d, s2)" by (cases "decode_loop env c n ms b s1")
    have dk: "decode_loop env c j ms b s1 = (d, s2)" if "d \<noteq> Running" using decode_loop_more [OF _ j(2), of env c ms b s1] d that by simp
    show ?thesis
    proof (cases d)
      case (Finished t)
      obtain ps es b1 where t: "t = (ps, es, b1)" by (cases t)
      show ?thesis
      proof (cases "es = []")
        case True
        then show ?thesis
          using Suc.prems(1) f Some d dk Finished t commit_then_more [OF _ j(2) more] unfolding j(1) by simp
      next
        case False
        obtain h s3 where h: "handle_loop env c n ms es b1 s2 = (h, s3)" by (cases "handle_loop env c n ms es b1 s2")
        have "handle_loop env c j ms es b1 s2 = (h, s3)" if "h \<noteq> Running"
          using handle_loop_more [OF _ j(2), of env c ms es b1 s2] h that by simp
        then show ?thesis
          using Suc.prems(1) f Some d dk Finished t False h commit_then_more [OF _ j(2) more] unfolding j(1)
          by (cases h) simp_all
      qed
    qed (use Suc.prems(1) f Some d dk in \<open>simp_all add: j(1)\<close>)
  qed
qed simp

lemma Run_stops:
  assumes "cancelled_by rank env" "rank (world s) < n"
  shows "fst (Run env c n s) = Stopped"
  using runBatch_stops [OF assms] runSingle_stops [OF assms] by (simp add: Run_def)

lemma Run_more: "fst (Run env c n s) \<noteq> Running \<Longrightarrow> n \<le> k \<Longrightarrow> Run env c k s = Run env c n s"
  using runBatch_more [of env c n Second s k] runSingle_more [of env c n Second s k]
  by (auto simp: Run_def split: if_splits)

section \<open>Properties\<close>

text \<open>
  C9: a consumer whose context is cancelled returns. If only finitely many more fetches
  succeed and timers fire (\<open>rank\<close> bounds them, and commits, dead letters and handlers never
  raise it), then \<open>Run\<close>, in either mode and from any state, returns: after at most
  \<open>rank + 1\<close> rounds it has stopped, in a state that does not depend on how many rounds
  it was allowed, and it stops by way of the cancelled context only.
\<close>

theorem cancelled_consumer_returns:
  assumes "cancelled_by rank env"
  shows "\<exists>s'. \<forall>n > rank (world s). Run env c n s = (Stopped, s')"
proof (intro exI allI impI)
  fix n
  let ?m = "Suc (rank (world s))"
  assume "rank (world s) < n"
  moreover have stop: "fst (Run env c ?m s) = Stopped" using Run_stops [OF assms, of s ?m] by simp
  ultimately have "Run env c n s = Run env c ?m s" by (intro Run_more) simp_all
  with stop show "Run env c n s = (Stopped, snd (Run env c ?m s))" by (metis prod.collapse)
qed

text \<open>Two messages, then errors; the handler is down, and the timers fire until the context ends.\<close>

definition sample_shutdown_env :: "nat consumer_env" where
  "sample_shutdown_env = (sample_consumer_env (\<lambda>_. True))\<lparr>ce_wait := \<lambda>_ w. (w < 4, w + 1)\<rparr>"

lemma sample_shutdown: "cancelled_by (\<lambda>w. 4 - w) sample_shutdown_env"
  by (auto simp: cancelled_by_def sample_shutdown_env_def sample_consumer_env_def split: if_splits)

theorem cancelled_consumer_returns_witness:
  "fst (Run sample_shutdown_env sample_consumer 5 (State 0 [])) = Stopped \<and>
   fst (Run sample_shutdown_env (sample_consumer\<lparr>co_batchHandler := False\<rparr>) 5 (State 0 [])) = Stopped"
  using cancelled_consumer_returns [OF sample_shutdown, of "State 0 []" sample_consumer]
    cancelled_consumer_returns [OF sample_shutdown, of "State 0 []" "sample_consumer\<lparr>co_batchHandler := False\<rparr>"]
  by auto

end
