(* ===== verification/Http_Instrument.thy ===== *)
theory Http_Instrument
  imports Http_Api Telemetry
begin

text \<open>
  \<open>instrument\<close> and \<open>statusWriter\<close> of \<open>internal/api/http.go\<close>: the middleware around every route
  of the API, which records the status that the handler wrote, counts the request and
  closes the server span. A handler is the list of calls it makes of its response writer;
  the writer itself is the one of \<open>net/http\<close>. The main theorem relates the middleware to
  \<open>Routes\<close> of \<open>Http_Api\<close>, in which it is folded into the routing.
\<close>

named_theorems writer_defs "definitions of the response writers"

section \<open>The response writer\<close>

text \<open>
  The writer of \<open>net/http\<close>: the first final status is the one sent, with the headers set until
  then; a later \<open>WriteHeader\<close> is ignored, and a \<open>Write\<close> without one sends 200. A status
  from 100 to 199, other than 101, is informational and does not end the headers. Of the
  headers only \<open>X-Pulse-Durability\<close> matters here.
\<close>

record response_writer =
  wr_Durability :: "bytes option"
  wr_Sent :: "(nat \<times> bytes option) option"
  wr_Body :: "response_body list"

definition new_writer :: response_writer where
  "new_writer = \<lparr>wr_Durability = None, wr_Sent = None, wr_Body = []\<rparr>"

definition informational :: "nat \<Rightarrow> bool" where
  "informational status \<longleftrightarrow> 100 \<le> status \<and> status \<le> 199 \<and> status \<noteq> 101"

definition net_WriteHeader :: "nat \<Rightarrow> response_writer \<Rightarrow> response_writer" where
  "net_WriteHeader status w =
     (if wr_Sent w \<noteq> None \<or> informational status then w else w\<lparr>wr_Sent := Some (status, wr_Durability w)\<rparr>)"

definition net_Write :: "response_body \<Rightarrow> response_writer \<Rightarrow> response_writer" where
  "net_Write b w = (let w1 = net_WriteHeader 200 w in w1\<lparr>wr_Body := wr_Body w1 @ [b]\<rparr>)"

text \<open>When the handler returns without having written anything, 200 is sent.\<close>

definition net_finish :: "response_writer \<Rightarrow> response_writer" where
  "net_finish w = net_WriteHeader 200 w"

record statusWriter =
  sw_ResponseWriter :: response_writer
  sw_status :: nat

definition WriteHeader :: "nat \<Rightarrow> statusWriter \<Rightarrow> statusWriter" where
  "WriteHeader status w =
     w\<lparr>sw_status := status, sw_ResponseWriter := net_WriteHeader status (sw_ResponseWriter w)\<rparr>"

definition Write :: "response_body \<Rightarrow> statusWriter \<Rightarrow> statusWriter" where
  "Write b w = w\<lparr>sw_ResponseWriter := net_Write b (sw_ResponseWriter w)\<rparr>"

definition SetDurability :: "bytes \<Rightarrow> statusWriter \<Rightarrow> statusWriter" where
  "SetDurability v w = w\<lparr>sw_ResponseWriter := (sw_ResponseWriter w)\<lparr>wr_Durability := Some v\<rparr>\<rparr>"

lemmas [writer_defs] = new_writer_def net_WriteHeader_def net_Write_def net_finish_def WriteHeader_def Write_def SetDurability_def

section \<open>Handlers as calls of the writer\<close>

datatype writer_call = CallSetDurability bytes | CallWriteHeader nat | CallWrite response_body

fun writer_step :: "writer_call \<Rightarrow> statusWriter \<Rightarrow> statusWriter" where
  "writer_step (CallSetDurability v) w = SetDurability v w"
| "writer_step (CallWriteHeader status) w = WriteHeader status w"
| "writer_step (CallWrite b) w = Write b w"

fun run_writer :: "writer_call list \<Rightarrow> statusWriter \<Rightarrow> statusWriter" where
  "run_writer [] w = w"
| "run_writer (c # cs) w = run_writer cs (writer_step c w)"

text \<open>How a response of the model is written: the header of \<open>ingestBatch\<close>, then \<open>writeJSON\<close>.\<close>

definition response_calls :: "response \<Rightarrow> writer_call list" where
  "response_calls rsp =
     (case rs_Durability rsp of None \<Rightarrow> [] | Some v \<Rightarrow> [CallSetDurability v])
     @ [CallWriteHeader (rs_Status rsp), CallWrite (rs_Body rsp)]"

section \<open>The middleware\<close>

text \<open>\<open>http.StatusText\<close>: the empty string for an unknown code.\<close>

definition status_texts :: "(nat \<times> bytes) list" where
  "status_texts =
     [(100, ''Continue''), (101, ''Switching Protocols''), (102, ''Processing''), (103, ''Early Hints''),
      (200, ''OK''), (201, ''Created''), (202, ''Accepted''), (203, ''Non-Authoritative Information''),
      (204, ''No Content''), (205, ''Reset Content''), (206, ''Partial Content''), (207, ''Multi-Status''),
      (208, ''Already Reported''), (226, ''IM Used''), (300, ''Multiple Choices''),
      (301, ''Moved Permanently''), (302, ''Found''), (303, ''See Other''), (304, ''Not Modified''),
      (305, ''Use Proxy''), (307, ''Temporary Redirect''), (308, ''Permanent Redirect''),
      (400, ''Bad Request''), (401, ''Unauthorized''), (402, ''Payment Required''), (403, ''Forbidden''),
      (404, ''Not Found''), (405, ''Method Not Allowed''), (406, ''Not Acceptable''),
      (407, ''Proxy Authentication Required''), (408, ''Request Timeout''), (409, ''Conflict''),
      (410, ''Gone''), (411, ''Length Required''), (412, ''Precondition Failed''),
      (413, ''Request Entity Too Large''), (414, ''Request URI Too Long''),
      (415, ''Unsupported Media Type''), (416, ''Requested Range Not Satisfiable''),
      (417, ''Expectation Failed''), (418, ''I'' @ CHR 0x27 # ''m a teapot''),
      (421, ''Misdirected Request''), (422, ''Unprocessable Entity''), (423, ''Locked''),
      (424, ''Failed Dependency''), (425, ''Too Early''), (426, ''Upgrade Required''),
      (428, ''Precondition Required''), (429, ''Too Many Requests''),
      (431, ''Request Header Fields Too Large''), (451, ''Unavailable For Legal Reasons''),
      (500, ''Internal Server Error''), (501, ''Not Implemented''), (502, ''Bad Gateway''),
      (503, ''Service Unavailable''), (504, ''Gateway Timeout''), (505, ''HTTP Version Not Supported''),
      (506, ''Variant Also Negotiates''), (507, ''Insufficient Storage''), (508, ''Loop Detected''),
      (510, ''Not Extended''), (511, ''Network Authentication Required'')]"

definition StatusText :: "nat \<Rightarrow> bytes" where
  "StatusText code = (case map_of status_texts code of None \<Rightarrow> [] | Some t \<Rightarrow> t)"

text \<open>
  What \<open>next.ServeHTTP\<close> does with a request: the pattern it stores in the request (empty if
  none matched), its calls of the writer, the new world, the metrics and the calls of the
  collaborators.
\<close>

type_synonym 'w mux_result = "bytes \<times> writer_call list \<times> 'w \<times> api_metrics \<times> api_call list"

definition api_mux :: "'w api_env \<Rightarrow> api_config \<Rightarrow> http_request \<Rightarrow> 'w \<Rightarrow> 'w mux_result" where
  "api_mux env cfg r w =
     (case find_route r of
        Inl status \<Rightarrow> ([], response_calls (writeJSON status NoBody), w, no_metrics, [])
      | Inr (pattern, rt) \<Rightarrow>
          (case serve_route env cfg rt r w of
             (rsp, w1, m, calls) \<Rightarrow> (pattern, response_calls rsp, w1, m, calls)))"

text \<open>
  The outcome of a request: what was sent, the world and the collaborator calls, the labels
  of the counter, the labels and value of the histogram, and the span. \<open>extract\<close> reads the
  trace context from the request's headers.
\<close>

record 'w instrumented =
  in_Writer :: response_writer
  in_World :: 'w
  in_Metrics :: api_metrics
  in_Calls :: "api_call list"
  in_Requests :: "bytes \<times> bytes \<times> bytes"
  in_Duration :: "bytes \<times> bytes \<times> duration"
  in_Span :: "bytes span"

definition instrument ::
  "((bytes \<Rightarrow> bytes) \<Rightarrow> bytes option) \<Rightarrow> ('w \<Rightarrow> instant) \<Rightarrow> (http_request \<Rightarrow> 'w \<Rightarrow> 'w mux_result) \<Rightarrow> http_request \<Rightarrow> 'w
     \<Rightarrow> 'w instrumented" where
  "instrument extract now nxt r w =
     (let span = StartSpan (extract (hr_Header r)) (hr_Method r @ '' '' @ hr_Path r) SpanKindServer
            [AttributeString ''http.request.method'' (hr_Method r), AttributeString ''url.path'' (hr_Path r)];
          started = now w in
      case nxt r w of
        (pattern, wcalls, w1, m, calls) \<Rightarrow>
          let rw = run_writer wcalls \<lparr>sw_ResponseWriter = new_writer, sw_status = 200\<rparr>;
              span1 = span_SetAttributes [AttributeInt ''http.response.status_code'' (int (sw_status rw))] span;
              span2 = (if 500 \<le> sw_status rw then span_SetStatus (StatusError (StatusText (sw_status rw))) span1 else span1);
              route = (if pattern = [] then ''unknown'' else pattern)
          in \<lparr>in_Writer = net_finish (sw_ResponseWriter rw), in_World = w1, in_Metrics = m, in_Calls = calls,
              in_Requests = (hr_Method r, route, StatusText (sw_status rw)),
              in_Duration = (hr_Method r, route, time_Sub (now w1) started),
              in_Span = span_End span2\<rparr>)"

section \<open>The recorded status\<close>

text \<open>
  Handlers that behave: at most one final status, before the first byte of the body. For
  those the status that \<open>statusWriter\<close> keeps is the one that the client gets.
\<close>

fun one_header :: "bool \<Rightarrow> writer_call list \<Rightarrow> bool" where
  "one_header written [] \<longleftrightarrow> True"
| "one_header written (CallSetDurability v # cs) \<longleftrightarrow> one_header written cs"
| "one_header written (CallWriteHeader status # cs) \<longleftrightarrow> \<not> written \<and> \<not> informational status \<and> one_header True cs"
| "one_header written (CallWrite b # cs) \<longleftrightarrow> one_header True cs"

lemma not_informational [simp]: "200 \<le> status \<Longrightarrow> \<not> informational status"
  by (simp add: informational_def)

text \<open>What the wrapper knows: 200 until a status was sent, then that status.\<close>

definition tracked :: "statusWriter \<Rightarrow> bool" where
  "tracked w \<longleftrightarrow> sw_status w = (case wr_Sent (sw_ResponseWriter w) of None \<Rightarrow> 200 | Some (status, _) \<Rightarrow> status)"

lemma tracked_step:
  assumes "tracked w" "one_header (wr_Sent (sw_ResponseWriter w) \<noteq> None) (c # cs)"
  shows "tracked (writer_step c w)" "one_header (wr_Sent (sw_ResponseWriter (writer_step c w)) \<noteq> None) cs"
proof -
  obtain v where w: "wr_Sent (sw_ResponseWriter w) = v" by simp
  show "tracked (writer_step c w)" "one_header (wr_Sent (sw_ResponseWriter (writer_step c w)) \<noteq> None) cs"
    using assms w by (cases c; cases v; simp add: tracked_def writer_defs Let_def)+
qed

lemma tracked_run:
  "tracked w \<Longrightarrow> one_header (wr_Sent (sw_ResponseWriter w) \<noteq> None) cs \<Longrightarrow> tracked (run_writer cs w)"
proof (induction cs arbitrary: w)
  case (Cons c cs)
  from Cons.IH [OF tracked_step [OF Cons.prems]] show ?case by simp
qed simp

lemma recorded_status:
  assumes "one_header False cs" "rw = run_writer cs \<lparr>sw_ResponseWriter = new_writer, sw_status = 200\<rparr>"
  shows "\<exists>d. wr_Sent (net_finish (sw_ResponseWriter rw)) = Some (sw_status rw, d)"
proof -
  have "tracked rw" unfolding assms(2) by (rule tracked_run) (simp_all add: tracked_def writer_defs assms(1))
  then show ?thesis by (auto simp: tracked_def writer_defs split: option.splits)
qed

lemma one_header_response: "200 \<le> rs_Status rsp \<Longrightarrow> one_header False (response_calls rsp)"
  by (simp add: response_calls_def split: option.splits)

lemma written_response:
  assumes "200 \<le> rs_Status rsp"
  shows "run_writer (response_calls rsp) \<lparr>sw_ResponseWriter = new_writer, sw_status = 200\<rparr> =
    \<lparr>sw_ResponseWriter = \<lparr>wr_Durability = rs_Durability rsp, wr_Sent = Some (rs_Status rsp, rs_Durability rsp),
       wr_Body = [rs_Body rsp]\<rparr>, sw_status = rs_Status rsp\<rparr>"
  using assms by (simp add: response_calls_def writer_defs Let_def split: option.splits)

section \<open>What the API answers\<close>

text \<open>Every response of the API has a final status.\<close>

lemma authenticate_status: "authenticate env r w = (Inl rsp, w1, cs) \<Longrightarrow> 200 \<le> rs_Status rsp"
  by (auto simp: authenticate_def fail_def split: option.splits prod.splits sum.splits)

lemma publish_batch_status: "publish_batch env cfg t b w = (rsp, w1, m, cs) \<Longrightarrow> 200 \<le> rs_Status rsp"
  by (auto simp: publish_batch_def fail_def Let_def split: option.splits prod.splits sum.splits bool.splits)

lemma ingestBatch_status: "ingestBatch env cfg r w = (rsp, w1, m, cs) \<Longrightarrow> 200 \<le> rs_Status rsp"
  by (auto simp: ingestBatch_def with_calls_def fail_def Let_def split: option.splits prod.splits sum.splits if_splits
      dest: authenticate_status publish_batch_status)

lemma createTenant_status: "createTenant env cfg r w = (rsp, w1, m, cs) \<Longrightarrow> 200 \<le> rs_Status rsp"
  by (auto simp: createTenant_def fail_def writeJSON_def Let_def split: option.splits prod.splits sum.splits if_splits)

lemma rotateTenant_status: "rotateTenant env r w = (rsp, w1, m, cs) \<Longrightarrow> 200 \<le> rs_Status rsp"
  by (auto simp: rotateTenant_def fail_def writeJSON_def Let_def split: prod.splits sum.splits if_splits
      dest: authenticate_status)

lemma summary_status: "summary env r w = (rsp, w1, m, cs) \<Longrightarrow> 200 \<le> rs_Status rsp"
  by (auto simp: summary_def fail_def writeJSON_def Let_def split: option.splits prod.splits sum.splits if_splits
      dest: authenticate_status)

lemma createWebhook_status: "createWebhook env r w = (rsp, w1, m, cs) \<Longrightarrow> 200 \<le> rs_Status rsp"
  by (auto simp: createWebhook_def fail_def writeJSON_def Let_def split: option.splits prod.splits sum.splits if_splits
      dest: authenticate_status)

lemma serve_route_status: "serve_route env cfg rt r w = (rsp, w1, m, cs) \<Longrightarrow> 200 \<le> rs_Status rsp"
  by (cases rt)
    (auto simp: serve_route_def health_ready_def fail_def writeJSON_def split: option.splits if_splits
      dest: ingestBatch_status createTenant_status rotateTenant_status summary_status createWebhook_status)

text \<open>The two ways through the mux: no pattern matched, or a handler ran under its pattern.\<close>

lemma Routes_mux:
  assumes "Routes env cfg r w = (rsp, w', m, calls)"
  obtains pattern m0 where "api_mux env cfg r w = (pattern, response_calls rsp, w', m0, calls)"
    "m = m0\<lparr>am_Requests := [(hr_Method r, if pattern = [] then ''unknown'' else pattern, rs_Status rsp)]\<rparr>" "200 \<le> rs_Status rsp"
proof (cases "find_route r")
  case (Inl status)
  moreover from this have "200 \<le> status" by (auto simp: find_route_def Let_def split: list.splits if_splits)
  ultimately show ?thesis using assms that [of "[]" no_metrics] by (auto simp add: Routes_def api_mux_def writeJSON_def)
next
  case (Inr p)
  obtain pattern rt where p: "p = (pattern, rt)" by (cases p)
  have "pattern \<noteq> []" using Inr p by (auto simp: find_route_def Let_def split: list.splits if_splits)
  moreover obtain m0 where s: "serve_route env cfg rt r w = (rsp, w', m0, calls)"
      "m = m0\<lparr>am_Requests := [(hr_Method r, pattern, rs_Status rsp)]\<rparr>"
    using assms Inr p by (auto simp: Routes_def split: prod.splits)
  moreover note serve_route_status [OF s(1)]
  ultimately show ?thesis using Inr p that [of pattern m0] by (simp add: api_mux_def)
qed

section \<open>Properties\<close>

text \<open>
  C33: telemetry tells the truth about the API. Behind the middleware a client gets exactly the
  status, header and body that the routes answer, and the collaborators are called just the
  same; the request is counted once, under its method, its pattern and the text of the
  status that was really sent; and the server span is ended, marked as an error exactly
  for a status of 500 and above.
\<close>

theorem instrument_reports_answer:
  assumes "Routes env cfg r w = (rsp, w', m, calls)"
    and "out = instrument extract (ae_now env) (api_mux env cfg) r w"
  shows "wr_Sent (in_Writer out) = Some (rs_Status rsp, rs_Durability rsp) \<and> wr_Body (in_Writer out) = [rs_Body rsp] \<and>
    in_World out = w' \<and> in_Calls out = calls \<and>
    (\<exists>route. am_Requests m = [(hr_Method r, route, rs_Status rsp)] \<and>
       in_Requests out = (hr_Method r, route, StatusText (rs_Status rsp)) \<and> m = (in_Metrics out)\<lparr>am_Requests := am_Requests m\<rparr>) \<and>
    sp_Ended (in_Span out) \<and>
    sp_Status (in_Span out) = (if 500 \<le> rs_Status rsp then StatusError (StatusText (rs_Status rsp)) else StatusUnset)"
proof -
  from assms(1) obtain pattern m0 where mux: "api_mux env cfg r w = (pattern, response_calls rsp, w', m0, calls)"
      "m = m0\<lparr>am_Requests := [(hr_Method r, if pattern = [] then ''unknown'' else pattern, rs_Status rsp)]\<rparr>" "200 \<le> rs_Status rsp"
    by (rule Routes_mux)
  note out = assms(2) [unfolded instrument_def Let_def mux(1) prod.case written_response [OF mux(3)] statusWriter.simps]
  show ?thesis unfolding out by (simp add: mux(2) net_finish_def net_WriteHeader_def span_defs)
qed

theorem instrument_reports_answer_witness:
  "in_Requests (instrument (\<lambda>_. None) (ae_now sample_api) (api_mux sample_api sample_cfg)
       (sample_ingest\<lparr>hr_Path := ''/nowhere''\<rparr>) 1735689600000000000) = (''POST'', ''unknown'', ''Not Found'')"
proof -
  have r: "Routes sample_api sample_cfg (sample_ingest\<lparr>hr_Path := ''/nowhere''\<rparr>) 1735689600000000000 =
      (writeJSON 404 NoBody, 1735689600000000000, no_metrics\<lparr>am_Requests := [(''POST'', ''unknown'', 404)]\<rparr>, [])"
    by (simp add: Routes_def find_route_def route_table_def path_matches_def HasPrefix_def sample_ingest_def sample_request_def writeJSON_def)
  have "StatusText 404 = ''Not Found''" by code_simp
  with instrument_reports_answer [OF r refl, of "\<lambda>_. None"] show ?thesis
    by (simp add: writeJSON_def sample_ingest_def sample_request_def)
qed

end
