(* ===== verification/Webhook_Wire.thy ===== *)
theory Webhook_Wire
  imports Webhook_Resilience Event_Codec
begin

text \<open>
  What a webhook receiver gets: \<open>jsonEvent\<close> of \<open>internal/webhook/resilience.go\<close> with the value
  that the program gives its variable \<open>jsonMarshal\<close>, and the way of an event from the request
  of a client through the topic to the body of a delivery.
\<close>

section \<open>Compacting twice\<close>

text \<open>A payload is compacted when it is published and again when it is delivered; the second time changes nothing.\<close>

lemma compact_front:
  assumes "compact_from True cs = y # zs" "y \<noteq> quote" "y \<noteq> backslash"
  shows "\<exists>es. cs = y # es \<and> zs = compact_from True es"
  using assms by (cases cs) (auto simp: u_escape_def split: if_splits list.splits option.splits)

lemma line_sep_compact:
  assumes "line_sep (c # cs) = None"
  shows "line_sep (c # compact_from True cs) = None"
proof (rule ccontr)
  assume "line_sep (c # compact_from True cs) \<noteq> None"
  then obtain b d zs where z: "compact_from True cs = b # d # zs" and sep: "line_sep (c # b # d # zs) \<noteq> None"
    by (cases "compact_from True cs" rule: remdups_adj.cases) auto
  then have bd: "b = CHR 0x80" "d = CHR 0xA8 \<or> d = CHR 0xA9" by (auto split: if_splits)
  obtain es where es: "cs = b # es" "compact_from True es = d # zs"
    using compact_front [OF z] bd(1) by (auto simp: quote_def backslash_def)
  obtain fs where "es = d # fs"
    using compact_front [OF es(2)] bd(2) by (auto simp: quote_def backslash_def)
  then show False using assms sep es(1) by (auto split: if_splits)
qed

lemma hex_digit_plain:
  assumes "n < 16"
  shows "hex_digit n \<noteq> quote" "hex_digit n \<noteq> backslash" "\<not> html_unsafe (hex_digit n)" "hex_digit n \<noteq> CHR 0xE2"
proof -
  have "[0..<16] = [0, 1, 2, 3, 4, 5, 6, 7, 8, 9, 10, 11, 12, 13, 14, 15 :: nat]" by code_simp
  moreover have "n \<in> set [0..<16]" using assms by simp
  ultimately have "n \<in> set [0, 1, 2, 3, 4, 5, 6, 7, 8, 9, 10, 11, 12, 13, 14, 15]" by simp
  then show "hex_digit n \<noteq> quote" "hex_digit n \<noteq> backslash" "\<not> html_unsafe (hex_digit n)" "hex_digit n \<noteq> CHR 0xE2"
    by (auto simp: hex_digit_def quote_def backslash_def html_unsafe_def char_of_def bit_0)
qed

lemma line_sep_other: "c \<noteq> CHR 0xE2 \<Longrightarrow> line_sep (c # cs) = None"
  by (cases "c # cs" rule: line_sep.cases) auto

lemma compact_hex: "n < 16 \<Longrightarrow> compact_from True (hex_digit n # t) = hex_digit n # compact_from True t"
  by (simp add: hex_digit_plain line_sep_other)

lemma compact_backslash: "compact_from True (backslash # c # t) = backslash # c # compact_from True t"
  by (simp add: quote_def backslash_def)

lemma compact_u_escape: "compact_from True (u_escape n @ t) = u_escape n @ compact_from True t"
proof -
  have "k mod 16 < 16" for k :: nat by simp
  note hex = compact_hex [OF this]
  show ?thesis unfolding u_escape_def append.simps compact_backslash hex ..
qed

lemma compact_idem: "compact_from lit (compact_from lit s) = compact_from lit s"
proof (induction lit s rule: compact_from.induct)
  case (1 lit)
  then show ?case by simp
next
  case (2 c cs)
  then show ?case by simp
next
  case (3 c cs)
  consider "c = quote" | "c \<noteq> quote" "c = backslash" | "c \<noteq> quote" "c \<noteq> backslash" "html_unsafe c"
    | r where "c \<noteq> quote" "c \<noteq> backslash" "\<not> html_unsafe c" "line_sep (c # cs) = Some r"
    | "c \<noteq> quote" "c \<noteq> backslash" "\<not> html_unsafe c" "line_sep (c # cs) = None"
    by (cases "line_sep (c # cs)") auto
  then show ?case
  proof cases
    case 2
    then show ?thesis using 3 by (cases cs) auto
  next
    case 5
    then show ?thesis using 3 line_sep_compact [OF 5(4)] by simp
  qed (use 3 in \<open>simp_all add: compact_u_escape\<close>)
qed

section \<open>The body of a delivery\<close>

text \<open>\<open>off\<close> is the offset of the location that the event's timestamp carries.\<close>

definition jsonEvent :: "int \<Rightarrow> event \<Rightarrow> bytes option" where
  "jsonEvent off e = Marshal_event off e"

lemma Deliver_requests:
  assumes "Deliver env d dlv w = (r, d', w', l)" "0 \<le> dp_maxRetries d" "Sent req answer \<in> set l"
  shows "\<exists>now. e_marshal env (d_Event dlv) = Some (rq_body req) \<and> req = webhook_request (e_hmac env) now dlv (rq_body req)"
proof -
  obtain body b b' where run: "deliver_run env (dp_backoff d) (dp_maxRetries d) dlv body 0 b w r b' w' l"
      and m: "e_marshal env (d_Event dlv) = Some body"
    using Deliver_run [OF assms(1,2)] assms(3) by auto
  then show ?thesis using deliver_run_requests [OF run assms(3)] by (auto simp: webhook_request_def)
qed

text \<open>The event that a consumer reads is encoded to itself.\<close>

lemma published_wire:
  assumes "Decode now data tid mx = (e, None)" "utf8_Valid tid"
    and "Marshal_event off e = Some v" "zone_ok off" "Unmarshal_event v = Some e1"
  shows "e1 = e\<lparr>Payload := compact_from False (Payload e)\<rparr>" "wire_ok e1" "compact_from False (Payload e1) = Payload e1"
proof -
  show e1: "e1 = e\<lparr>Payload := compact_from False (Payload e)\<rparr>"
    using Unmarshal_Marshal [OF assms(3,4) Decode_wire(1) [OF assms(1,2)]] assms(5) by simp
  have "well_typed e1" by (rule Unmarshal_typed [OF assms(5)])
  moreover have "Payload e1 \<noteq> []" using compact_payload(1) [OF assms(1,2)] by (simp add: e1)
  ultimately show "wire_ok e1" by (rule well_typed_wire)
  show "compact_from False (Payload e1) = Payload e1" by (simp add: e1 compact_idem)
qed

section \<open>Properties\<close>

text \<open>
  C8: a webhook receiver gets the event that the client sent. Take an event that the API
  accepted for a tenant whose ID is well-formed UTF-8, its encoding on the topic, and what
  a consumer decoded from it. Then the body of every request that a delivery of it sends
  decodes to that very event, which is the accepted one with its payload compacted, and the
  request names its event ID.
\<close>

theorem webhook_receiver_gets_event:
  assumes "Decode now data tid mx = (e, None)" "utf8_Valid tid"
    and "Marshal_event off e = Some v" "zone_ok off" "Unmarshal_event v = Some e1"
    and "e_marshal env = jsonEvent off'" "zone_ok off'" "0 \<le> dp_maxRetries d"
    and "Deliver env d \<lparr>d_Endpoint = endpoint, d_Secret = secret, d_Event = e1\<rparr> w = (r, d', w', l)"
    and "Sent req answer \<in> set l"
  shows "Unmarshal_event (rq_body req) = Some e1 \<and> e1 = e\<lparr>Payload := compact_from False (Payload e)\<rparr> \<and>
    map_of (rq_headers req) ''X-Pulse-Event-Id'' = Some (EventID e)"
proof -
  note e1 = published_wire [OF assms(1-5)]
  obtain t where t: "e_marshal env e1 = Some (rq_body req)"
      "req = webhook_request (e_hmac env) t \<lparr>d_Endpoint = endpoint, d_Secret = secret, d_Event = e1\<rparr> (rq_body req)"
    using Deliver_requests [OF assms(9,8,10)] by auto
  have "Marshal_event off' e1 = Some (rq_body req)" using t(1) assms(6) by (simp add: jsonEvent_def)
  from Unmarshal_Marshal [OF this assms(7) e1(2)] have "Unmarshal_event (rq_body req) = Some e1" using e1(3) by simp
  moreover have "map_of (rq_headers req) ''X-Pulse-Event-Id'' = Some (EventID e)"
    by (subst t(2)) (simp add: webhook_request_def e1(1))
  ultimately show ?thesis using e1(1) by simp
qed

text \<open>The event of the sample request, delivered to an endpoint that answers with 204.\<close>

definition sample_wire_event :: event where
  "sample_wire_event =
     \<lparr>TenantID = ''acme'', EventID = ''e1'', Type = ''t'', Timestamp = 1735689600000000000, Payload = ''{}''\<rparr>"

definition sample_wire_env :: "int deliver_env" where
  "sample_wire_env = (sample_env 204 True)\<lparr>e_marshal := jsonEvent 0\<rparr>"

lemma sample_wire_fields:
  "e_now sample_wire_env w = w" "e_context sample_wire_env w = (False, True)" "e_marshal sample_wire_env = jsonEvent 0"
  "e_request_ok sample_wire_env u" "e_exchange sample_wire_env req w = (Some 204, w + 1)"
  "ValidateEndpoint (e_getenv sample_wire_env) (e_parse sample_wire_env) raw (Some (e_lookup sample_wire_env w)) = None"
  by (simp_all add: sample_wire_env_def sample_env_def sample_valid)

lemma sample_wire_deliver:
  assumes "Marshal_event 0 (d_Event dlv) = Some v"
  shows "\<exists>d' req. Deliver sample_wire_env (NewDispatcher 20 0 Second) dlv 0 = (Delivered, d', 1, [Sent req (Some 204)])"
proof -
  have "deliver_loop sample_wire_env bo 0 dlv body 0 b 0 =
      (Delivered, Success b, 1, [Sent (webhook_request (e_hmac sample_wire_env) 0 dlv body) (Some 204)])" for bo body b
    by (subst deliver_loop.simps) (simp add: send_def sample_wire_fields Let_def)
  then show ?thesis
    using assms
    by (simp add: Deliver_def sample_wire_fields jsonEvent_def NewDispatcher_def endpointCircuitBreaker_def
        endpointBulkhead_def NewCircuitBreaker_def NewBulkhead_def Allow_def Acquire_def put_breaker_def
        put_bulkhead_def Let_def)
qed

lemma sample_wire_codec:
  "zone_ok 0" "utf8_Valid ''acme''" "Marshal_event 0 sample_wire_event \<noteq> None"
  "Option.bind (Marshal_event 0 sample_wire_event) Unmarshal_event = Some sample_wire_event"
  by code_simp+

theorem webhook_receiver_gets_event_witness:
  "\<exists>d' req. Deliver sample_wire_env (NewDispatcher 20 0 Second)
       \<lparr>d_Endpoint = ''https://x'', d_Secret = ''k'', d_Event = sample_wire_event\<rparr> 0 = (Delivered, d', 1, [Sent req (Some 204)]) \<and>
     Unmarshal_event (rq_body req) = Some sample_wire_event"
proof -
  obtain v where v: "Marshal_event 0 sample_wire_event = Some v" "Unmarshal_event v = Some sample_wire_event"
    using sample_wire_codec(3,4) by auto
  let ?dlv = "\<lparr>d_Endpoint = ''https://x'', d_Secret = ''k'', d_Event = sample_wire_event\<rparr>"
  obtain d' req where d: "Deliver sample_wire_env (NewDispatcher 20 0 Second) ?dlv 0 = (Delivered, d', 1, [Sent req (Some 204)])"
    using sample_wire_deliver [of ?dlv v] v(1) by auto
  have "0 \<le> dp_maxRetries (NewDispatcher 20 0 Second)" by (simp add: NewDispatcher_def)
  from webhook_receiver_gets_event [OF sample_decodes [folded sample_wire_event_def] sample_wire_codec(2) v(1) sample_wire_codec(1) v(2)
      sample_wire_fields(3) sample_wire_codec(1) this d] d
  show ?thesis by simp
qed

end
