(* ===== verification/Publishers.thy ===== *)
theory Publishers
  imports Http_Api Kafka_Consumer Platform_Config
begin

text \<open>
  The interface \<open>Publisher\<close> of \<open>internal/api/http.go\<close>, its two implementations (the Kafka
  producer of \<open>internal/kafka/producer.go\<close> and the in-memory publisher of
  \<open>internal/platform/memory.go\<close>), and the API as its client: what a sequence of requests
  leaves behind the publisher.
\<close>

section \<open>The contract\<close>

text \<open>
  \<open>view\<close> is what readers behind the publisher see, \<open>form\<close> the form in which they see an
  event, \<open>fit\<close> the events it is promised for. A publication that succeeds appends the batch
  as a whole and in order; one that fails may have appended a part of it.
\<close>

locale batch_publisher =
  fixes publish :: "event list \<Rightarrow> 'p \<Rightarrow> bool \<times> 'p"
    and view :: "'p \<Rightarrow> event list"
    and form :: "event \<Rightarrow> event"
    and fit :: "event \<Rightarrow> bool"
  assumes published: "publish batch p = (True, p') \<Longrightarrow> \<forall>e \<in> set batch. fit e \<Longrightarrow> view p' = view p @ map form batch"
    and refused: "publish batch p = (False, p') \<Longrightarrow> \<forall>e \<in> set batch. fit e \<Longrightarrow>
      \<exists>part. subseq part (map form batch) \<and> view p' = view p @ part"

section \<open>The client\<close>

text \<open>
  The API uses the publisher that is a part of its world, and nothing else touches it;
  the IDs of the tenants it authenticates satisfy \<open>known\<close>.
\<close>

definition publishes_through :: "(bytes \<Rightarrow> bool) \<Rightarrow> 'w api_env \<Rightarrow> ('w \<Rightarrow> 'p) \<Rightarrow> (event list \<Rightarrow> 'p \<Rightarrow> bool \<times> 'p) \<Rightarrow> bool" where
  "publishes_through known env sel publish \<longleftrightarrow>
     (\<forall>b w ok w'. ae_Publish env b w = (ok, w') \<longrightarrow> publish b (sel w) = (ok, sel w')) \<and>
     (\<forall>k w x w'. ae_Authenticate env k w = (x, w') \<longrightarrow> sel w' = sel w) \<and>
     (\<forall>k w t w'. ae_Authenticate env k w = (Inr t, w') \<longrightarrow> known (ten_ID t)) \<and>
     (\<forall>k w x w'. ae_Create env k w = (x, w') \<longrightarrow> sel w' = sel w) \<and>
     (\<forall>k w x w'. ae_RotateKey env k w = (x, w') \<longrightarrow> sel w' = sel w) \<and>
     (\<forall>f i n w x w'. ae_AllowN env = Some f \<longrightarrow> f i n w = (x, w') \<longrightarrow> sel w' = sel w) \<and>
     (\<forall>f i t a b w x w'. ae_Summary env = Some f \<longrightarrow> f i t a b w = (x, w') \<longrightarrow> sel w' = sel w) \<and>
     (\<forall>f s w x w'. ae_CreateSubscription env = Some f \<longrightarrow> f s w = (x, w') \<longrightarrow> sel w' = sel w) \<and>
     (\<forall>w x w'. ae_rand env w = (x, w') \<longrightarrow> sel w' = sel w)"

lemma throughD:
  assumes "publishes_through known env sel publish"
  shows "ae_Publish env b w = (ok, w') \<Longrightarrow> publish b (sel w) = (ok, sel w')"
    and "ae_Authenticate env k w = (x1, w') \<Longrightarrow> sel w' = sel w"
    and "ae_Create env k w = (x2, w') \<Longrightarrow> sel w' = sel w"
    and "ae_RotateKey env k w = (x3, w') \<Longrightarrow> sel w' = sel w"
    and "ae_AllowN env = Some f4 \<Longrightarrow> f4 i n w = (x4, w') \<Longrightarrow> sel w' = sel w"
    and "ae_Summary env = Some f5 \<Longrightarrow> f5 i t a c w = (x5, w') \<Longrightarrow> sel w' = sel w"
    and "ae_CreateSubscription env = Some f6 \<Longrightarrow> f6 s w = (x6, w') \<Longrightarrow> sel w' = sel w"
    and "ae_rand env w = (x7, w') \<Longrightarrow> sel w' = sel w"
    and "ae_Authenticate env k w = (Inr tn, w') \<Longrightarrow> known (ten_ID tn)"
  using assms unfolding publishes_through_def by meson+

definition accepted_event :: "(bytes \<Rightarrow> bool) \<Rightarrow> event \<Rightarrow> bool" where
  "accepted_event known e \<longleftrightarrow> known (TenantID e) \<and> (\<exists>now v mx. Decode now v (TenantID e) mx = (e, None))"

text \<open>What a request did to the publisher: nothing, or one publication, which a 202 confirms.\<close>

definition one_publication ::
  "(bytes \<Rightarrow> bool) \<Rightarrow> (event list \<Rightarrow> 'p \<Rightarrow> bool \<times> 'p) \<Rightarrow> response \<Rightarrow> api_call list \<Rightarrow> 'p \<Rightarrow> 'p \<Rightarrow> bool" where
  "one_publication known publish rsp calls p p' \<longleftrightarrow>
     p' = p \<and> rs_Status rsp \<noteq> 202 \<and> (\<forall>b ok. CallPublish b ok \<notin> set calls) \<or>
     (\<exists>batch ok. publish batch p = (ok, p') \<and> (rs_Status rsp = 202 \<longleftrightarrow> ok) \<and> (\<forall>e \<in> set batch. accepted_event known e) \<and>
        (\<forall>b ok'. CallPublish b ok' \<in> set calls \<longleftrightarrow> b = batch \<and> ok' = ok))"

lemma one_publicationI:
  "sel w' = sel w \<Longrightarrow> rs_Status rsp \<noteq> 202 \<Longrightarrow> \<forall>b ok. CallPublish b ok \<notin> set calls \<Longrightarrow>
     one_publication known publish rsp calls (sel w) (sel w')"
  by (simp add: one_publication_def)

lemma authenticate_sel:
  assumes "publishes_through known env sel publish" "authenticate env r w = (q, w1, cs)"
  shows "sel w1 = sel w" "\<forall>b ok. CallPublish b ok \<notin> set cs" "q = Inl rsp \<Longrightarrow> rs_Status rsp \<noteq> 202"
    "q = Inr t \<Longrightarrow> known (ten_ID t)"
  using assms(2) throughD(2,9) [OF assms(1)]
  by (auto simp: authenticate_def fail_def split: option.splits prod.splits sum.splits)

lemma decode_events_accepted: "decode_events now tid mx vs = Inr es \<Longrightarrow> known tid \<Longrightarrow> \<forall>e \<in> set es. accepted_event known e"
  using decode_events_Decode Decode_None unfolding accepted_event_def by metis

lemma publish_batch_sel:
  assumes "publishes_through known env sel publish" "publish_batch env cfg t batch w = (rsp, w', m, calls)"
    and "\<forall>e \<in> set batch. accepted_event known e"
  shows "one_publication known publish rsp calls (sel w) (sel w')"
proof -
  define ok w2 where "ok = (\<lambda>v. fst (ae_Publish env batch v))" and "w2 = (\<lambda>v. snd (ae_Publish env batch v))"
  then have p: "ae_Publish env batch v = (ok v, w2 v)" for v by simp
  have pub: "publish batch (sel v) = (ok v, sel (w2 v))" for v using throughD(1) [OF assms(1) p] .
  show ?thesis
  proof (cases "ae_AllowN env")
    case None
    then show ?thesis
      using assms(2,3) p [of w] pub [of w]
      by (cases "ok w") (auto simp: publish_batch_def one_publication_def fail_def Let_def)
  next
    case (Some f)
    obtain x v where x: "f (ten_ID t) (int (length batch)) w = (x, v)" by fastforce
    have v: "sel v = sel w" by (rule throughD(5) [OF assms(1) Some x])
    consider (err) err where "x = Inl err" | (no) "x = Inr False" | (yes) "x = Inr True" by (cases x) auto
    then show ?thesis
    proof cases
      case yes
      then show ?thesis
        using assms(2,3) Some x p [of v] pub [of v] v
        by (cases "ok v") (auto simp: publish_batch_def one_publication_def fail_def Let_def)
    qed (use assms(2) Some x v in \<open>auto simp: publish_batch_def one_publication_def fail_def Let_def\<close>)
  qed
qed

lemma one_publication_calls:
  "\<forall>b ok. CallPublish b ok \<notin> set cs \<Longrightarrow> one_publication known publish rsp calls p p' \<Longrightarrow> one_publication known publish rsp (cs @ calls) p p'"
  by (auto simp: one_publication_def)

lemma ingestBatch_sel:
  assumes "publishes_through known env sel publish" "ingestBatch env cfg r w = (rsp, w', m, calls)"
  shows "one_publication known publish rsp calls (sel w) (sel w')"
proof -
  obtain q w1 cs where a: "authenticate env r w = (q, w1, cs)" by (metis prod_cases3)
  note auth = authenticate_sel [OF assms(1) a]
  show ?thesis
  proof (cases "\<exists>t batch. q = Inr t \<and> (\<forall>e \<in> set batch. accepted_event known e) \<and>
      with_calls cs (publish_batch env cfg t batch w1) = (rsp, w', m, calls)")
    case True
    then obtain t batch where b: "\<forall>e \<in> set batch. accepted_event known e" "with_calls cs (publish_batch env cfg t batch w1) = (rsp, w', m, calls)"
      by blast
    obtain rsp2 v m2 l where l: "publish_batch env cfg t batch w1 = (rsp2, v, m2, l)" by (metis prod_cases4)
    then show ?thesis
      using one_publication_calls [OF auth(2) publish_batch_sel [OF assms(1) l b(1)]] b(2) auth(1)
      by (simp add: with_calls_def)
  next
    case False
    have "sel w' = sel w \<and> rs_Status rsp \<noteq> 202 \<and> (\<forall>b ok. CallPublish b ok \<notin> set calls)"
    proof (cases q)
      case (Inl x)
      then show ?thesis using assms(2) a auth by (auto simp: ingestBatch_def)
    next
      case (Inr t)
      note acc = decode_events_accepted [of _ "ten_ID t" _ _ _ known, OF _ auth(4) [OF Inr]]
      have no: "\<forall>e \<in> set batch. accepted_event known e \<Longrightarrow> with_calls cs (publish_batch env cfg t batch w1) \<noteq> (rsp, w', m, calls)" for batch
        using False Inr by blast
      show ?thesis
        using assms(2) a auth(1,2) Inr
        by (auto simp: ingestBatch_def fail_def Let_def split: sum.splits option.splits if_splits dest!: acc no)
    qed
    then show ?thesis by (blast intro: one_publicationI)
  qed
qed

lemma createTenant_sel:
  assumes "publishes_through known env sel publish" "createTenant env cfg r w = (rsp, w', m, calls)"
  shows "one_publication known publish rsp calls (sel w) (sel w')"
  using assms(2) throughD(3) [OF assms(1)]
  by (intro one_publicationI)
    (auto simp: createTenant_def fail_def writeJSON_def Let_def split: option.splits prod.splits sum.splits if_splits)

lemma rotateTenant_sel:
  assumes "publishes_through known env sel publish" "rotateTenant env r w = (rsp, w', m, calls)"
  shows "one_publication known publish rsp calls (sel w) (sel w')"
proof -
  obtain q w1 cs where a: "authenticate env r w = (q, w1, cs)" by (metis prod_cases3)
  note auth = authenticate_sel [OF assms(1) a]
  show ?thesis
    using assms(2) a auth throughD(4) [OF assms(1)]
    by (intro one_publicationI)
      (auto simp: rotateTenant_def fail_def writeJSON_def Let_def split: prod.splits sum.splits if_splits)
qed

lemma summary_sel:
  assumes "publishes_through known env sel publish" "summary env r w = (rsp, w', m, calls)"
  shows "one_publication known publish rsp calls (sel w) (sel w')"
proof -
  obtain q w1 cs where a: "authenticate env r w = (q, w1, cs)" by (metis prod_cases3)
  note auth = authenticate_sel [OF assms(1) a]
  show ?thesis
    using assms(2) a auth throughD(6) [OF assms(1)]
    by (intro one_publicationI)
      (auto simp: summary_def fail_def writeJSON_def Let_def split: option.splits prod.splits sum.splits if_splits)
qed

lemma createWebhook_sel:
  assumes "publishes_through known env sel publish" "createWebhook env r w = (rsp, w', m, calls)"
  shows "one_publication known publish rsp calls (sel w) (sel w')"
proof -
  obtain q w1 cs where a: "authenticate env r w = (q, w1, cs)" by (metis prod_cases3)
  note auth = authenticate_sel [OF assms(1) a]
  show ?thesis
    using assms(2) a auth throughD(7,8) [OF assms(1)]
    by (intro one_publicationI)
      (auto simp: createWebhook_def fail_def writeJSON_def Let_def split: option.splits prod.splits sum.splits if_splits)
qed

lemma serve_route_sel:
  assumes "publishes_through known env sel publish" "serve_route env cfg rt r w = (rsp, w', m, calls)"
  shows "one_publication known publish rsp calls (sel w) (sel w')"
proof (cases rt)
  case IngestBatch
  then show ?thesis using assms ingestBatch_sel by (simp add: serve_route_def)
next
  case CreateTenant
  then show ?thesis using assms createTenant_sel by (simp add: serve_route_def)
next
  case RotateTenant
  then show ?thesis using assms rotateTenant_sel by (simp add: serve_route_def)
next
  case CreateWebhook
  then show ?thesis using assms createWebhook_sel by (simp add: serve_route_def)
next
  case Summary
  then show ?thesis using assms summary_sel by (simp add: serve_route_def)
qed (use assms(2) in \<open>auto simp: serve_route_def health_ready_def fail_def writeJSON_def split: option.splits if_splits
    intro!: one_publicationI\<close>)

lemma Routes_sel:
  assumes "publishes_through known env sel publish" "Routes env cfg r w = (rsp, w', m, calls)"
  shows "one_publication known publish rsp calls (sel w) (sel w')"
proof (cases "find_route r")
  case (Inl status)
  moreover from this have "status \<noteq> 202" by (auto simp: find_route_def Let_def split: list.splits if_splits)
  ultimately show ?thesis using assms(2) by (auto simp: Routes_def writeJSON_def intro!: one_publicationI)
next
  case (Inr p)
  obtain pattern rt where p: "p = (pattern, rt)" by (cases p)
  then obtain m0 where "serve_route env cfg rt r w = (rsp, w', m0, calls)"
    using assms(2) Inr by (auto simp: Routes_def split: prod.splits)
  then show ?thesis by (rule serve_route_sel [OF assms(1)])
qed

text \<open>
  A sequence of requests, with the response and the collaborator calls of each. What the
  confirmed ones published, and what may have been published beside it.
\<close>

fun serve_all :: "'w api_env \<Rightarrow> api_config \<Rightarrow> http_request list \<Rightarrow> 'w \<Rightarrow> (response \<times> api_call list) list \<times> 'w" where
  "serve_all env cfg [] w = ([], w)"
| "serve_all env cfg (r # rs) w =
     (case Routes env cfg r w of
        (rsp, w1, m, calls) \<Rightarrow> (case serve_all env cfg rs w1 of (out, w2) \<Rightarrow> ((rsp, calls) # out, w2)))"

text \<open>\<open>contributed\<close>: what one request may have left behind the publisher.\<close>

definition contributed :: "(event \<Rightarrow> event) \<Rightarrow> response \<times> api_call list \<Rightarrow> event list \<Rightarrow> bool" where
  "contributed form out evs \<longleftrightarrow>
     (case out of (rsp, calls) \<Rightarrow>
        if rs_Status rsp = 202 then \<exists>b. CallPublish b True \<in> set calls \<and> evs = map form b
        else evs = [] \<or> (\<exists>b. CallPublish b False \<in> set calls \<and> subseq evs (map form b)))"

context batch_publisher
begin

lemma request_contributes:
  assumes "publishes_through known env sel publish" "Routes env cfg r w = (rsp, w', m, calls)" "\<forall>e. accepted_event known e \<longrightarrow> fit e"
  shows "\<exists>evs. view (sel w') = view (sel w) @ evs \<and> contributed form (rsp, calls) evs"
  using Routes_sel [OF assms(1,2)] unfolding one_publication_def
proof
  assume "sel w' = sel w \<and> rs_Status rsp \<noteq> 202 \<and> (\<forall>b ok. CallPublish b ok \<notin> set calls)"
  then show ?thesis by (intro exI [of _ "[]"]) (simp add: contributed_def)
next
  assume "\<exists>batch ok. publish batch (sel w) = (ok, sel w') \<and> (rs_Status rsp = 202 \<longleftrightarrow> ok) \<and> (\<forall>e \<in> set batch. accepted_event known e) \<and>
        (\<forall>b ok'. CallPublish b ok' \<in> set calls \<longleftrightarrow> b = batch \<and> ok' = ok)"
  then obtain batch ok where b: "publish batch (sel w) = (ok, sel w')" "rs_Status rsp = 202 \<longleftrightarrow> ok" "\<forall>e \<in> set batch. accepted_event known e"
      "\<forall>b ok'. CallPublish b ok' \<in> set calls \<longleftrightarrow> b = batch \<and> ok' = ok" by blast
  have f: "\<forall>e \<in> set batch. fit e" using b(3) assms(3) by blast
  show ?thesis
  proof (cases ok)
    case True
    then show ?thesis using published [of batch "sel w" "sel w'"] b f by (auto simp: contributed_def)
  next
    case False
    then show ?thesis using refused [of batch "sel w" "sel w'"] b f by (auto simp: contributed_def)
  qed
qed

lemma requests_contribute:
  assumes "publishes_through known env sel publish" "\<forall>e. accepted_event known e \<longrightarrow> fit e"
  shows "serve_all env cfg rs w = (out, w') \<Longrightarrow>
    \<exists>parts. view (sel w') = view (sel w) @ concat parts \<and> list_all2 (contributed form) out parts"
proof (induction rs arbitrary: w out)
  case Nil
  then show ?case by (intro exI [of _ "[]"]) simp
next
  case (Cons r rs)
  obtain rsp w1 m calls where r: "Routes env cfg r w = (rsp, w1, m, calls)" by (metis prod_cases4)
  obtain out' where o: "serve_all env cfg rs w1 = (out', w')" "out = (rsp, calls) # out'"
    using Cons.prems r by (auto split: prod.splits)
  obtain evs where e: "view (sel w1) = view (sel w) @ evs" "contributed form (rsp, calls) evs"
    using request_contributes [OF assms(1) r assms(2)] by blast
  obtain parts where p: "view (sel w') = view (sel w1) @ concat parts" "list_all2 (contributed form) out' parts"
    using Cons.IH [OF o(1)] by blast
  show ?case using e p o(2) by (intro exI [of _ "evs # parts"]) simp
qed

end

section \<open>The in-memory publisher\<close>

interpretation memory_publisher: batch_publisher memory_PublishBatch id id "\<lambda>_. True"
  by unfold_locales (simp_all add: memory_PublishBatch_def)

section \<open>The Kafka producer\<close>

text \<open>
  What the Kafka writer promises of the log of messages that it appends to (all messages of a
  batch have one key, so they go to one partition): a write that returns nil appended all of
  them, in order; one that returns an error may have appended some.
\<close>

locale topic_writer =
  fixes put :: "message list \<Rightarrow> message list \<Rightarrow> bool \<times> message list"
  assumes wrote: "put ms t = (True, t') \<Longrightarrow> t' = t @ ms"
    and failed: "put ms t = (False, t') \<Longrightarrow> \<exists>sub. subseq sub ms \<and> t' = t @ sub"

definition kafka_publish ::
  "(event \<Rightarrow> int) \<Rightarrow> (bytes \<times> bytes) list \<Rightarrow> (message list \<Rightarrow> 't \<Rightarrow> bool \<times> 't) \<Rightarrow> event list \<Rightarrow> 't \<Rightarrow> bool \<times> 't" where
  "kafka_publish zone carrier put batch t =
     (case PublishBatch zone carrier put batch t of (err, t') \<Rightarrow> (err = None, t'))"

text \<open>What consumers read from the log: the messages that decode.\<close>

fun topic_events :: "message list \<Rightarrow> event list" where
  "topic_events [] = []"
| "topic_events (m # ms) =
     (case Unmarshal_event (m_Value m) of None \<Rightarrow> topic_events ms | Some e \<Rightarrow> e # topic_events ms)"

definition compact_event :: "event \<Rightarrow> event" where
  "compact_event e = e\<lparr>Payload := compact_from False (Payload e)\<rparr>"

lemma topic_events_append [simp]: "topic_events (a @ b) = topic_events a @ topic_events b"
  by (induction a) (auto split: option.splits)

lemma topic_events_subseq: "subseq a b \<Longrightarrow> subseq (topic_events a) (topic_events b)"
proof (induction rule: list_emb.induct)
  case (list_emb_Cons xs ys y)
  then show ?case by (cases "Unmarshal_event (m_Value y)") auto
next
  case (list_emb_Cons2 x y xs ys)
  then show ?case by (cases "Unmarshal_event (m_Value x)") auto
qed simp

lemma topic_events_encoded:
  "encode_messages zone carrier batch = Some ms \<Longrightarrow> \<forall>e \<in> set batch. accepted_event utf8_Valid e \<and> zone_ok (zone e) \<Longrightarrow>
     topic_events ms = map compact_event batch"
proof (induction batch arbitrary: ms)
  case (Cons e es)
  obtain v ms' where v: "Marshal_event (zone e) e = Some v" "encode_messages zone carrier es = Some ms'" "ms = event_message v carrier e # ms'"
    using Cons.prems(1) by (auto split: option.splits)
  obtain now d mx where "Decode now d (TenantID e) mx = (e, None)" "utf8_Valid (TenantID e)" "zone_ok (zone e)"
    using Cons.prems(2) by (auto simp: accepted_event_def)
  then have "Unmarshal_event v = Some (compact_event e)"
    using Unmarshal_Marshal [OF v(1) _ Decode_wire(1)] by (simp add: compact_event_def)
  then show ?case using Cons.IH [OF v(2)] Cons.prems(2) v(3) by (simp add: event_message_def)
qed simp

sublocale topic_writer \<subseteq> kafka: batch_publisher "kafka_publish zone carrier put" topic_events compact_event
    "\<lambda>e. accepted_event utf8_Valid e \<and> zone_ok (zone e)" for zone carrier
proof unfold_locales
  fix batch t t'
  assume p: "kafka_publish zone carrier put batch t = (True, t')" and f: "\<forall>e \<in> set batch. accepted_event utf8_Valid e \<and> zone_ok (zone e)"
  show "topic_events t' = topic_events t @ map compact_event batch"
  proof (cases "batch = []")
    case True
    then show ?thesis using p by (simp add: kafka_publish_def PublishBatch_def)
  next
    case False
    then obtain ms where ms: "encode_messages zone carrier batch = Some ms" "put ms t = (True, t')"
      using p by (auto simp: kafka_publish_def PublishBatch_def split: option.splits prod.splits bool.splits)
    show ?thesis using wrote [OF ms(2)] topic_events_encoded [OF ms(1) f] by simp
  qed
next
  fix batch t t'
  assume p: "kafka_publish zone carrier put batch t = (False, t')" and f: "\<forall>e \<in> set batch. accepted_event utf8_Valid e \<and> zone_ok (zone e)"
  then consider "t' = t" | ms where "encode_messages zone carrier batch = Some ms" "put ms t = (False, t')"
    by (auto simp: kafka_publish_def PublishBatch_def split: option.splits prod.splits bool.splits if_splits)
  then show "\<exists>part. subseq part (map compact_event batch) \<and> topic_events t' = topic_events t @ part"
  proof cases
    case 1
    then show ?thesis by (intro exI [of _ "[]"]) simp
  next
    case 2
    then obtain sub where "subseq sub ms" "t' = t @ sub" using failed by blast
    then show ?thesis using topic_events_subseq [of sub ms] topic_events_encoded [OF 2(1) f] by auto
  qed
qed

context topic_writer
begin

lemma topic_grows:
  assumes "publishes_through utf8_Valid env sel (kafka_publish zone carrier put)" "\<forall>e. zone_ok (zone e)"
    and "serve_all env cfg rs w = (out, w')"
  shows "\<exists>parts. topic_events (sel w') = topic_events (sel w) @ concat parts \<and> list_all2 (contributed compact_event) out parts"
  using kafka.requests_contribute [OF assms(1) _ assms(3)] assms(2) by simp

end

text \<open>
  A broker: \<open>keep\<close> says which messages arrive in the present state of the log, \<open>ack\<close>
  whether the acknowledgement gets back.
\<close>

definition broker_write ::
  "(message list \<Rightarrow> message \<Rightarrow> bool) \<Rightarrow> (message list \<Rightarrow> bool) \<Rightarrow> message list \<Rightarrow> message list \<Rightarrow> bool \<times> message list" where
  "broker_write keep ack ms t = (ack t \<and> list_all (keep t) ms, t @ filter (keep t) ms)"

interpretation broker: topic_writer "broker_write keep ack"
proof unfold_locales
  fix ms t t'
  show "broker_write keep ack ms t = (True, t') \<Longrightarrow> t' = t @ ms"
    by (auto simp: broker_write_def list_all_iff filter_id_conv)
  show "broker_write keep ack ms t = (False, t') \<Longrightarrow> \<exists>sub. subseq sub ms \<and> t' = t @ sub"
    by (auto simp: broker_write_def)
qed

section \<open>Properties\<close>


text \<open>The sample API over a log of messages, to which the broker appends whatever it is sent.\<close>

definition topic_api :: "message list api_env" where
  "topic_api =
     \<lparr>ae_Authenticate = \<lambda>k w. (if k = ''k'' then Inr sample_tenant else Inl ErrUnauthorized, w),
      ae_Create = \<lambda>n w. (Inr (sample_tenant, ''k''), w), ae_RotateKey = \<lambda>i w. (Inr ''k2'', w),
      ae_Publish = kafka_publish (\<lambda>_. 0) [] (broker_write (\<lambda>_ _. True) (\<lambda>_. True)), ae_AllowN = None,
      ae_Summary = None, ae_CreateSubscription = None, ae_ReadyCheck = None, ae_rand = \<lambda>w. (None, w),
      ae_now = \<lambda>_. 1735689600000000000, ae_getenv = \<lambda>_. [], ae_parse = \<lambda>_. None, ae_lookup = \<lambda>_ _. None\<rparr>"

lemma topic_api_through: "publishes_through utf8_Valid topic_api id (kafka_publish (\<lambda>_. 0) [] (broker_write (\<lambda>_ _. True) (\<lambda>_. True)))"
proof -
  have "utf8_Valid (ten_ID sample_tenant)" by code_simp
  then show ?thesis by (auto simp: publishes_through_def topic_api_def split: if_splits)
qed

fun is_publication :: "api_call \<Rightarrow> bool" where
  "is_publication (CallPublish _ _) \<longleftrightarrow> True"
| "is_publication _ \<longleftrightarrow> False"

lemma topic_api_answers:
  "map (\<lambda>(rsp, calls). (rs_Status rsp, filter is_publication calls))
     (fst (serve_all topic_api sample_cfg [sample_ingest, sample_ingest\<lparr>hr_Path := ''/nowhere''\<rparr>] [])) =
   [(202, [CallPublish [sample_ingested] True]), (404, [])]"
  by code_simp


end
