(* ===== verification/Spec2Isabelle.thy ===== *)
theory Spec2Isabelle
  imports Durable_Workers App_Wiring Consumer_Shutdown Http_Instrument Webhook_Wire Publishers
begin

text \<open>
  Verification of Pulse, a multi-tenant event ingestion platform written in Go.

  \<^bold>\<open>The program.\<close> Clients send batches of events to an HTTP API (\<open>internal/api\<close>), which
  authenticates them (\<open>internal/auth\<close>), validates the events (\<open>internal/events\<close>), asks a rate
  limiter (\<open>internal/ratelimit\<close>) and publishes the batch to Kafka (\<open>internal/kafka\<close>). Three
  workers consume the topic: one stores the events in PostgreSQL (\<open>internal/persistence\<close>),
  one records them in ClickHouse (\<open>internal/analytics\<close>), one delivers them to the webhooks
  the tenants subscribed (\<open>internal/webhook\<close>); their handlers are in \<open>internal/worker\<close>.
  \<open>internal/app\<close>, \<open>internal/platform\<close> and \<open>internal/telemetry\<close> configure and wire the
  services, \<open>cmd/*/main.go\<close> start them.

  \<^bold>\<open>Conventions.\<close> Go strings and byte slices are lists of 8-bit characters, \<open>time.Time\<close> and
  \<open>time.Duration\<close> are nanosecond counts, a Go map is an association list with distinct keys
  whose iteration order is an arbitrary permutation. An operation is a function with the
  source's name (prefixed with its receiver where two types share it) that takes the state
  and returns the result with the new state; \<open>time.Now()\<close> and random bytes are arguments.
  Errors are values: a sum with \<open>Inl\<close> for the error, or an option. Code outside the
  repository (the Kafka, PostgreSQL, ClickHouse and Redis clients, the HTTP transport,
  resolvers, SHA-256 and HMAC, the tracing library) is a parameter: a function argument or a
  field of an environment record over an arbitrary world. Calls of a database run under a
  \<open>fault\<close>: they may run, not reach the server, or run with the reply lost.

  \<^bold>\<open>Theories.\<close>
  \<^item> \<open>Pulse_Prelude\<close>: types, time arithmetic, Go maps, faults and the lemmas shared by all.
  \<^item> \<open>Go_Text\<close>, \<open>Go_Json\<close>: what the sources use of \<open>strings\<close>, \<open>strconv\<close>, \<open>encoding/hex\<close>,
    \<open>encoding/base64\<close>, \<open>encoding/json\<close> and \<open>time\<close>. The JSON scanner recurses on fuel;
    \<open>scan_fuel_enough\<close> shows that the fuel every caller passes is as good as any larger.
  \<^item> \<open>Events\<close> (\<open>events/event.go\<close>): the event record, \<open>Validate\<close>, \<open>Decode\<close>; what an accepted
    envelope is.
  \<^item> \<open>Go_Marshal\<close>, \<open>Go_Compact\<close>, \<open>Go_Calendar\<close>: the writing half of \<open>encoding/json\<close>: UTF-8
    and the escaping of strings, the compaction of raw messages (locale \<open>json_copy\<close>: the
    rewritings that keep a JSON text's structure), and times in RFC 3339. Each is shown to be
    undone by the reading half.
  \<^item> \<open>Event_Codec\<close>: \<open>json.Marshal\<close> of an event, as the producer and the dispatcher call it; the
    round trip with \<open>json.Unmarshal\<close>, and the type of what a consumer can read.
  \<^item> \<open>Auth\<close> (\<open>auth/tenant.go\<close>, \<open>auth/cache.go\<close>): keys, the in-memory tenant store and the
    cache over any store. Locale \<open>tenant_store\<close> states what a store promises; the cache is
    transparent over each store that does, and the race of a rotation with an
    authentication is exhibited on its critical sections.
  \<^item> \<open>Ratelimit\<close> (\<open>ratelimit/limiter.go\<close>, \<open>ratelimit/redis.go\<close>): the in-memory bucket and the
    Lua script; the admission bound, and that both limiters decide alike.
  \<^item> \<open>Webhook_Claims\<close> (\<open>webhook/subscription.go\<close>): subscriptions and delivery claims. Locale
    \<open>delivery_claims\<close> is the claim automaton that both stores implement.
  \<^item> \<open>Webhook_Security\<close> (\<open>webhook/hmac.go\<close>, \<open>webhook/ssrf.go\<close>, the dialer of
    \<open>webhook/resilience.go\<close>): signatures and the endpoint policy.
  \<^item> \<open>Webhook_Resilience\<close> (\<open>webhook/resilience.go\<close>): breaker, bulkhead, dispatcher; the
    bulkhead's concurrency is a step relation.
  \<^item> \<open>Webhook_Wire\<close> (\<open>jsonEvent\<close> of \<open>webhook/resilience.go\<close>): compacting twice is compacting
    once, and what a webhook receiver reads from the body of a delivery.
  \<^item> \<open>Kafka_Consumer\<close> (\<open>kafka/producer.go\<close>): the producer, and the consumer in both modes
    with an explicit log of its effects. Loops that wait for the outside take fuel, and not
    finishing is the result \<open>Running\<close>; the invariants hold at every fuel, and
    \<open>batch_round_completes\<close> shows how much fuel a round needs when the broker works.
  \<^item> \<open>Consumer_Shutdown\<close>: the termination of those loops. Fuel above the number of fetches
    that still succeed and timers that still fire is never used up, and more of it changes
    nothing.
  \<^item> \<open>Consumer_Steps\<close>: the consumer as a step relation on its log, which both loops refine; the
    causes of dead letters by rule induction over it, and locale \<open>storing_handler\<close>: over a
    handler that reports success only when it stored, what is committed is stored.
  \<^item> \<open>Worker_Handlers\<close> (\<open>worker/handlers.go\<close>): the three handlers over any store.
  \<^item> \<open>Http_Api\<close> (\<open>api/http.go\<close>): every handler and the routes over any stores.
  \<^item> \<open>Http_Instrument\<close> (\<open>api/http.go\<close>): the middleware around the routes on the response
    writer of \<open>net/http\<close>, and its refinement to the routes.
  \<^item> \<open>Persistence\<close> (\<open>persistence/postgres.go\<close>, \<open>migrations/001_initial.sql\<close>): each SQL
    statement as a transition of a database of four tables with its constraints, the
    operations around them, the schema invariant over all reachable databases; the store is
    interpreted as a \<open>tenant_store\<close> and as \<open>delivery_claims\<close>.
  \<^item> \<open>Postgres_Workers\<close>: the persistence and webhook handlers over that store.
  \<^item> \<open>Analytics_Store\<close> (\<open>analytics/clickhouse.go\<close>, \<open>migrations/002_clickhouse.sql\<close>): inserts
    and the summary over a replacing table.
  \<^item> \<open>Durable_Workers\<close> (\<open>RunWorker\<close> of \<open>app/app.go\<close>): the persistence and the analytics worker, as
    the consumer over the handlers over the stores with a fault for each call and with other
    services at work; both are interpreted as \<open>storing_handler\<close>.
  \<^item> \<open>Platform_Config\<close> (\<open>platform/config.go\<close>, \<open>platform/memory.go\<close>), \<open>Telemetry\<close>
    (\<open>telemetry/tracing.go\<close>, \<open>telemetry/metrics.go\<close>), \<open>App_Wiring\<close> (\<open>app/app.go\<close>,
    \<open>cmd/*/main.go\<close>): configuration, exporters and spans, and the set-up of the services with
    the resources they open and close.
  \<^item> \<open>Publishers\<close>: locale \<open>batch_publisher\<close>, the interface through which the API publishes. The
    in-memory publisher is an instance; the Kafka producer is one on every writer that keeps
    the contract \<open>topic_writer\<close>. What any sequence of requests leaves in the topic.
  \<^item> this theory: properties of the pipeline from the request to the consumers.

  \<^bold>\<open>What is shown.\<close> The API publishes only authenticated, valid, admitted batches and acts only
  for the caller's tenant; what it published arrives at the consumers, in the events table
  and at webhook receivers, unchanged but for white space and escapes in the payload;
  batch mode commits messages in order and only once they are accounted for, and nothing is
  dead-lettered without a cause; so no accepted event whose message the persistence worker
  committed is missing from the events table, and none that the analytics worker committed
  from the summaries; a consumer returns when its context is cancelled; stored events
  are unique under any faults and retries; a webhook is claimed exclusively, delivered
  signed, only to an allowed address, and not repeated once it succeeded; both limiters keep
  the admission bound; counts in the summaries are of distinct events. Four theorems pin down
  behaviour that differs from what the code means to do: messages skipped in single mode, a
  breaker blocked by an unreported probe, a rotated key served from the cache, and a batch
  too large for the fallback statement.

  \<^bold>\<open>Bounds.\<close> Integers that the program compares or multiplies at 64 bits are \<open>int\<close> with
  their ranges as hypotheses or lemmas (\<open>load_config_bounds\<close>); addresses are 8-bit words;
  floating-point arithmetic is rational arithmetic under an arbitrary rounding function.

  The location of a \<open>time.Time\<close> matters only when it is written: its offset is then an
  argument, a whole number of minutes as in every time that was parsed.

  \<^bold>\<open>Not modelled.\<close> Spans inside of the workers and the publisher, and the other histograms,
  which report and decide nothing; the encoding of response bodies to JSON text; the texts of library errors; signals, server time-outs and the
  options of the Kafka client; TLS and the HTTP exchange of a delivery, which is a parameter.
\<close>

section \<open>From the request to the consumers\<close>

lemma valid_event_payload:
  "valid_event now mx e \<Longrightarrow> p \<noteq> [] \<Longrightarrow> p \<noteq> ''null'' \<Longrightarrow> json_Valid p \<Longrightarrow> now \<le> now' \<Longrightarrow> valid_event now' 0 (e\<lparr>Payload := p\<rparr>)"
  by (auto simp: valid_event_def)

lemma ingested_decoded:
  assumes "ingestBatch env cfg r w = (rsp, w', m, calls)" "CallPublish batch ok \<in> set calls"
  shows "batch \<noteq> [] \<and> (\<exists>w1 tid. \<forall>e \<in> set batch. \<exists>v. Decode (ae_now env w1) v tid (ac_maxPayload cfg) = (e, None))"
  using assms(1)
proof (cases rule: ingestBatch_cases)
  case early
  then show ?thesis using assms(2) by auto
next
  case (decoded key t w1 raw batch' calls')
  have "batch = batch'" using publish_batch_calls [OF decoded(7)] decoded(2) assms(2) by auto
  then show ?thesis using decode_events_Decode [OF decoded(6)] decoded(4) by auto
qed

lemma decode_published:
  assumes "\<forall>e \<in> set batch. \<exists>v. Decode now v tid mx = (e, None)" "utf8_Valid tid" "\<forall>e \<in> set batch. zone_ok (zone e)"
    and "\<forall>w. now \<le> ce_now cenv w" "encode_messages zone carrier batch = Some ms"
  shows "decodeBatch cenv c ms s = (Some (ms, map (\<lambda>e. e\<lparr>Payload := compact_from False (Payload e)\<rparr>) batch), s)"
  using assms(1,3,5)
proof (induction batch arbitrary: ms)
  case Nil
  then show ?case by simp
next
  case (Cons e es)
  let ?e = "e\<lparr>Payload := compact_from False (Payload e)\<rparr>"
  obtain data where d: "Decode now data tid mx = (e, None)" using Cons.prems(1) by auto
  obtain v where v: "Marshal_event (zone e) e = Some v" using Cons.prems(3) by (auto split: option.splits)
  obtain ms' where ms': "encode_messages zone carrier es = Some ms'" "ms = event_message v carrier e # ms'"
    using Cons.prems(3) v by auto
  have rt: "Unmarshal_event v = Some ?e" using Unmarshal_Marshal [OF v _ Decode_wire(1) [OF d assms(2)]] Cons.prems(2) by simp
  have "valid_event now mx e" using Decode_None [OF d] by simp
  then have "valid_event (ce_now cenv (world s)) 0 ?e"
    using valid_event_payload [of now mx e "compact_from False (Payload e)"] compact_payload [OF d assms(2)] assms(4) by simp
  then have "Validate (ce_now cenv (world s)) 0 ?e = None" by (simp add: Validate_None_iff)
  moreover have "decodeBatch cenv c ms' s = (Some (ms', map (\<lambda>e. e\<lparr>Payload := compact_from False (Payload e)\<rparr>) es), s)"
    using Cons.IH [OF _ _ ms'(1)] Cons.prems(1,2) by simp
  ultimately show ?case using rt ms'(2) by (simp add: event_message_def)
qed

lemma PublishBatch_wrote:
  assumes "PublishBatch zone carrier write batch w = (None, w')" "batch \<noteq> []"
  shows "\<exists>ms. encode_messages zone carrier batch = Some ms \<and> write ms w = (True, w')"
  using assms by (auto simp: PublishBatch_def split: option.splits prod.splits bool.splits)

text \<open>
  An accepted event arrives. If the API had a batch published through the Kafka
  producer, the messages it wrote, when a consumer reads them, decode to the batch again,
  event for event, with the payloads compacted and nothing dead-lettered; and once the
  persistence worker has saved the decoded batch, every event the client was told is
  accepted is in the events table. Tenant IDs are well-formed UTF-8, the offsets of the
  timestamps are whole minutes, and the consumer's clock is not behind the API's.
\<close>

theorem accepted_events_are_stored:
  assumes "ingestBatch env cfg r w = (rsp, w', m, calls)" "CallPublish batch True \<in> set calls"
    and "\<forall>e \<in> set batch. utf8_Valid (TenantID e) \<and> zone_ok (zone e)" "\<forall>w1 w2. ae_now env w1 \<le> ce_now cenv w2"
    and "PublishBatch zone carrier write batch k = (None, k')"
    and "pg_ok penv db" "keeps_keys penv"
  shows "\<exists>ms. write ms k = (True, k') \<and>
    decodeBatch cenv c ms s = (Some (ms, map (\<lambda>e. e\<lparr>Payload := compact_from False (Payload e)\<rparr>) batch), s) \<and>
    (\<forall>f1 f2 db'. SaveEvents penv f1 f2 (map (\<lambda>e. e\<lparr>Payload := compact_from False (Payload e)\<rparr>) batch) db = (None, db') \<longrightarrow>
       row_key ` set batch \<subseteq> row_key ` set (db_events db'))"
proof -
  let ?batch = "map (\<lambda>e. e\<lparr>Payload := compact_from False (Payload e)\<rparr>) batch"
  obtain w1 tid where d: "batch \<noteq> []" "\<forall>e \<in> set batch. \<exists>v. Decode (ae_now env w1) v tid (ac_maxPayload cfg) = (e, None)"
    using ingested_decoded [OF assms(1,2)] by blast
  have tid: "utf8_Valid tid" using d assms(3) Decode_None by (cases batch) fastforce+
  obtain ms where ms: "encode_messages zone carrier batch = Some ms" "write ms k = (True, k')"
    using PublishBatch_wrote [OF assms(5) d(1)] by blast
  have "\<forall>e \<in> set batch. zone_ok (zone e)" "\<forall>w2. ae_now env w1 \<le> ce_now cenv w2" using assms(3,4) by auto
  then have b: "decodeBatch cenv c ms s = (Some (ms, ?batch), s)"
    by (rule decode_published [OF d(2) tid _ _ ms(1)])
  have "row_key ` set batch \<subseteq> row_key ` set (db_events db')" if s: "SaveEvents penv f1 f2 ?batch db = (None, db')" for f1 f2 db'
  proof -
    obtain rows where rows: "encode_rows (pe_row penv) ?batch = Inr rows"
        "db' = db\<lparr>db_events := db_events db @ new_rows (db_events db) rows\<rparr>"
      using SaveEvents_effect [OF s] by auto
    have "row_key ` set ?batch = row_key ` set rows"
      using encode_rows_keys [OF assms(7) rows(1)] by (metis set_map)
    moreover have "row_key ` set ?batch = row_key ` set batch" by (simp add: image_image row_key_def)
    ultimately show ?thesis using new_rows_keys [of "db_events db" rows] rows(2) by auto
  qed
  then show ?thesis using ms(2) b by blast
qed

definition sample_clock :: instant where "sample_clock = 1735689600000000000"

lemma sample_wire_calls:
  "snd (snd (snd (ingestBatch (sample_api\<lparr>ae_now := \<lambda>_. sample_clock\<rparr>) sample_cfg sample_ingest 0))) =
     [CallAuthenticate ''k'' (Inr sample_tenant), CallAllowN ''acme'' 1 (Inr True), CallPublish [sample_ingested] True]"
  by code_simp

lemma sample_wire: "Marshal_event 0 sample_ingested \<noteq> None"
  by code_simp

lemma sample_ingested_saved:
  "SaveEvents sample_pg Fine Fine [sample_ingested] sample_db = (None, sample_db\<lparr>db_events := [sample_ingested]\<rparr>)"
  by (simp add: SaveEvents_def saveEventsInsert_eq pg_exec_def sql_copy_events_def sql_insert_events_def sample_pg_def
      sample_db_def row_key_def tenants_exist_def sample_ingested_def)

theorem accepted_events_are_stored_witness:
  "\<exists>db'. SaveEvents sample_pg Fine Fine [sample_ingested] sample_db = (None, db') \<and>
     row_key sample_ingested \<in> row_key ` set (db_events db')"
proof -
  let ?env = "sample_api\<lparr>ae_now := \<lambda>_. sample_clock\<rparr>" and ?cenv = "(sample_consumer_env (\<lambda>_. False))\<lparr>ce_now := \<lambda>_. sample_clock\<rparr>"
  obtain rsp w' m calls where i: "ingestBatch ?env sample_cfg sample_ingest 0 = (rsp, w', m, calls)"
    by (metis prod_cases4)
  have c: "CallPublish [sample_ingested] True \<in> set calls" using sample_wire_calls i by simp
  obtain v where "Marshal_event 0 sample_ingested = Some v" using sample_wire by blast
  then have p: "PublishBatch (\<lambda>_. 0) [] (\<lambda>ms w. (True, w)) [sample_ingested] () = (None, ())"
    by (simp add: PublishBatch_def)
  have t: "\<forall>e \<in> set [sample_ingested]. utf8_Valid (TenantID e) \<and> zone_ok 0"
    by (simp add: sample_ingested_def zone_ok_def) code_simp
  have "compact_from False (Payload sample_ingested) = Payload sample_ingested" by code_simp
  then have e: "map (\<lambda>e. e\<lparr>Payload := compact_from False (Payload e)\<rparr>) [sample_ingested] = [sample_ingested]" by simp
  have "row_key ` set [sample_ingested] \<subseteq> row_key ` set (db_events db')"
    if "SaveEvents sample_pg Fine Fine [sample_ingested] sample_db = (None, db')" for db'
    using accepted_events_are_stored [OF i c t _ p sample_db_ok sample_keeps_keys, of ?cenv sample_consumer "State 0 []", unfolded e] that
    by fastforce
  then show ?thesis using sample_ingested_saved by fastforce
qed

lemma decodeBatch_events:
  "decodeBatch env c ms s = (Some (ps, es), s') \<Longrightarrow> e \<in> set es \<Longrightarrow> \<exists>m \<in> set ms. Unmarshal_event (m_Value m) = Some e"
proof (induction ms arbitrary: s ps es)
  case Nil
  then show ?case by simp
next
  case (Cons m ms)
  have rest: ?case if "decodeBatch env c ms s2 = (Some (ps', es'), s')" "e \<in> set es'" for s2 ps' es'
    using Cons.IH [OF that] by auto
  show ?case
    using Cons.prems rest by (fastforce split: option.splits prod.splits)
qed

lemma pick_failed_found:
  assumes "pick_failed cause failed ms = (out, rest)" "\<forall>k \<in> set failed. \<exists>m \<in> set ms. \<exists>e. Unmarshal_event (m_Value m) = Some e \<and> event_key e = k"
  shows "rest = []"
  using assms
proof (induction cause failed ms arbitrary: out rest rule: pick_failed.induct)
  case (1 cause failed)
  then show ?case by simp
next
  case (2 cause failed m ms)
  show ?case
  proof (cases "\<exists>e. Unmarshal_event (m_Value m) = Some e \<and> event_key e \<in> set failed")
    case False
    then show ?thesis using 2 by (cases "Unmarshal_event (m_Value m)") fastforce+
  next
    case True
    then obtain e where e: "Unmarshal_event (m_Value m) = Some e" "event_key e \<in> set failed" by blast
    obtain out' where "pick_failed cause (removeAll (event_key e) failed) ms = (out', rest)"
      using 2(4) e by (auto split: prod.splits)
    then show ?thesis using 2(3) [OF e(1), of out' rest] 2(5) e by fastforce
  qed
qed

text \<open>
  C21: failed webhooks are dead-lettered. Whatever batch the consumer decoded and whichever
  of its events the webhook handler reports as failed, the consumer finds a message for
  every one of them: provided the dead-letter topic accepts the write, \<open>deadLetterBatch\<close>
  succeeds, one write holds all of them, and the batch can be committed.
\<close>

theorem webhook_failures_dead_lettered:
  assumes "decodeBatch cenv c ms s = (Some (ps, batch), s1)"
    and "store_errors_plain env" "webhook_HandleBatch env batch m w = (Some err, m', w', l)"
    and "as_batch_dead_letter err = Some (evs, cause)"
    and "\<forall>x v. fst (ce_write cenv x v)"
  shows "\<exists>s3. deadLetterBatch cenv ps evs cause s2 = (None, s3) \<and> (\<forall>e \<in> set evs. key_dead_lettered (run.log s3) e)"
proof -
  have evs: "evs \<noteq> []" "set evs \<subseteq> set batch"
    using webhook_HandleBatch_failed [OF assms(2-4)] by (auto dest: list_emb_set)
  have ps: "ps = ms" using decodeBatch_ok [OF assms(1)] by simp
  obtain out rest where p: "pick_failed cause (remdups (map event_key evs)) ms = (out, rest)" by fastforce
  have "rest = []"
    using pick_failed_found [OF p] decodeBatch_events [OF assms(1)] evs(2) by fastforce
  moreover obtain v where "ce_write cenv out (world s2) = (True, v)"
    using assms(5) by (metis prod.collapse)
  ultimately obtain s3 where s3: "deadLetterBatch cenv ps evs cause s2 = (None, s3)"
    using p ps evs(1) by (auto simp: deadLetterBatch_def dlq_write_def Let_def)
  then show ?thesis using deadLetterBatch_ok by blast
qed

definition failing_hooks :: "unit webhook_env" where
  "failing_hooks =
     \<lparr>we_list = \<lambda>tid typ w. (Inr [sample_sub], w), we_claim = \<lambda>k w. (Inr True, w), we_complete = \<lambda>k w. (None, w),
      we_release = \<lambda>k w. (None, w), we_deliver = \<lambda>d w. (Some (Opaque ''500''), w)\<rparr>"

theorem webhook_failures_dead_lettered_witness:
  "\<exists>cause s3. deadLetterBatch (sample_consumer_env (\<lambda>_. False)) [sample_message ''a''] [sample_event ''a''] cause (State 0 []) =
     (None, s3) \<and> key_dead_lettered (run.log s3) (sample_event ''a'')"
proof -
  have d: "decodeBatch (sample_consumer_env (\<lambda>_. False)) sample_consumer [sample_message ''a''] (State 0 []) =
      (Some ([sample_message ''a''], [sample_event ''a'']), State 0 [])"
    by (simp add: sample_defs)
  obtain cause m' l where h: "webhook_HandleBatch failing_hooks [sample_event ''a''] None () =
      (Some (BatchDeadLetterError [sample_event ''a''] cause), m', (), l)"
    by (simp add: webhook_HandleBatch_def deliver_def failing_hooks_def count_delivery_def Let_def)
  have "store_errors_plain failing_hooks" by (simp add: store_errors_plain_def failing_hooks_def)
  moreover have "\<forall>x v. fst (ce_write (sample_consumer_env (\<lambda>_. False)) x v)" by (simp add: sample_consumer_env_def)
  ultimately show ?thesis
    using webhook_failures_dead_lettered [OF d _ h, of "[sample_event ''a'']" cause] by fastforce
qed

section \<open>From the request to the tables\<close>

lemma encoded_message:
  "encode_messages zone carrier batch = Some ms \<Longrightarrow> e \<in> set batch \<Longrightarrow>
     \<exists>v. Marshal_event (zone e) e = Some v \<and> event_message v carrier e \<in> set ms"
  by (induction batch arbitrary: ms) (auto split: option.splits)

text \<open>The message of an accepted event, as a consumer sees it.\<close>

lemma accepted_message:
  assumes "Decode now data tid mx = (e, None)" "utf8_Valid tid" "zone_ok off" "Marshal_event off e = Some v" "\<forall>k. now \<le> ce_now kafka k"
  shows "Unmarshal_event v = Some (compact_event e)" "\<forall>k. Validate (ce_now kafka k) 0 (compact_event e) = None"
proof -
  show "Unmarshal_event v = Some (compact_event e)"
    using Unmarshal_Marshal [OF assms(4,3) Decode_wire(1) [OF assms(1,2)]] by (simp add: compact_event_def)
  show "\<forall>k. Validate (ce_now kafka k) 0 (compact_event e) = None"
    using valid_event_payload [of now mx e "compact_from False (Payload e)"] Decode_None [OF assms(1)]
      compact_payload [OF assms(1,2)] assms(5)
    by (simp add: Validate_None_iff compact_event_def)
qed

lemma row_key_compact [simp]: "row_key (compact_event e) = row_key e"
  by (simp add: row_key_def compact_event_def)


text \<open>
  Kafka holds one message; the first attempt to store it does not reach PostgreSQL, and the
  retry after the pause does.
\<close>

definition one_message_kafka :: "message \<Rightarrow> nat consumer_env" where
  "one_message_kafka m = sample_kafka\<lparr>ce_fetch := \<lambda>_ k. (if k = 0 then Some m else None, k + 1), ce_now := \<lambda>_. sample_clock\<rparr>"

abbreviation one_message_worker :: "message \<Rightarrow> (nat \<times> database) consumer_env" where
  "one_message_worker m \<equiv> persistence_worker_env sample_pg (\<lambda>k. if k = 2 then (NotRun, NotRun) else (Fine, Fine)) (\<lambda>_ db. db) None
     (one_message_kafka m)"

lemma SaveEvents_down: "SaveEvents env NotRun f [e] db = (Some ErrConn, db)"
  by (simp add: SaveEvents_def pg_exec_def)

lemma others_idle: "others_on_database (\<lambda>db. db) db = db"
  by (simp add: others_on_database_def new_rows_none)

lemma one_message_run:
  assumes "Unmarshal_event v = Some sample_ingested" "Validate sample_clock 0 sample_ingested = None"
  shows "committed_by (one_message_worker (event_message v [] sample_ingested)) sample_consumer 3 (0, sample_db) =
    [event_message v [] sample_ingested]"
  using assms
  by (simp add: persistence_worker_env_def worker_env_def beside_def on_store_def one_message_kafka_def sample_kafka_def sample_consumer_env_def
      sample_consumer_def persistence_HandleBatch_def faulty_event_store_def others_idle sample_ingested_saved SaveEvents_down event_message_def
      numeral_3_eq_3 fetchBatch_def ctx_done_def next_backoff_def time_defs step_defs)


end
